(* ===== verification/Prelude.thy ===== *)
theory Prelude
  imports Main "HOL-Library.Word" "HOL-Library.AList" "HOL-Library.Sublist"
begin

text \<open>
  Shared vocabulary of the development: machine integers, a state monad with errors in which
  the state survives an error (a Rust method that returns early through the question-mark
  operator leaves whatever it already changed in place), a weakest-precondition transformer
  for it, and the generic facts on lists and words used by several components.
\<close>

section \<open>Rule collections\<close>

named_theorems wp_rules \<open>weakest-precondition equations of the monad\<close>

named_theorems prim_simps \<open>field-wise effect of primitive operations\<close>

section \<open>Machine integers\<close>

type_synonym u8 = "8 word"
type_synonym u32 = "32 word"
type_synonym u64 = "64 word"
type_synonym bytes = "u8 list"

text \<open>
  Arithmetic is that of the release profile of \<^verbatim>\<open>Cargo.toml\<close> (no overflow checks): \<open>+\<close> and
  \<open>-\<close> on \<^typ>\<open>u64\<close> wrap around. A word is most easily reasoned about as the image of a bounded
  natural number.
\<close>

abbreviation u64_bound :: nat where
  "u64_bound \<equiv> 2 ^ 64"

lemma u64_unat_of_nat: "n < u64_bound \<Longrightarrow> unat (of_nat n :: u64) = n"
  by (simp add: unat_of_nat)

lemma u64_less_of_nat:
  "a < u64_bound \<Longrightarrow> b < u64_bound \<Longrightarrow> (of_nat a :: u64) < of_nat b \<longleftrightarrow> a < b"
  by (simp add: word_less_nat_alt unat_of_nat)

lemma u64_le_of_nat:
  "a < u64_bound \<Longrightarrow> b < u64_bound \<Longrightarrow> (of_nat a :: u64) \<le> of_nat b \<longleftrightarrow> a \<le> b"
  by (simp add: word_le_nat_alt unat_of_nat)

lemma u64_eq_of_nat:
  "a < u64_bound \<Longrightarrow> b < u64_bound \<Longrightarrow> (of_nat a :: u64) = of_nat b \<longleftrightarrow> a = b"
  by (metis u64_unat_of_nat)

lemmas u64_of_nat = u64_unat_of_nat u64_less_of_nat u64_le_of_nat u64_eq_of_nat

lemma u64_obtain_nat:
  obtains n where "(x :: u64) = of_nat n" and "n < u64_bound" and "unat x = n"
proof
  show "x = of_nat (unat x)" by simp
  show "unat x < u64_bound" using unsigned_less [of x] by simp
  show "unat x = unat x" ..
qed

lemma unat_u64_less: "unat (x :: u64) < u64_bound"
  by (rule u64_obtain_nat [of x]) simp

lemma u64_of_nat_Suc: "(of_nat n :: u64) + 1 = of_nat (Suc n)"
  by simp

lemma u64_of_nat_diff: "b \<le> a \<Longrightarrow> (of_nat a :: u64) - of_nat b = of_nat (a - b)"
  by simp

lemma unat_u64_add:
  "unat a + unat b < u64_bound \<Longrightarrow> unat ((a :: u64) + b) = unat a + unat b"
  by (simp add: unat_word_ariths)

lemma unat_u64_Suc: "unat a + 1 < u64_bound \<Longrightarrow> unat ((a :: u64) + 1) = unat a + 1"
  by (simp add: unat_word_ariths)

lemma unat_u64_next: "(a :: u64) < b \<Longrightarrow> unat (a + 1) = unat a + 1"
  using unat_u64_less [of b] by (intro unat_u64_Suc) (simp add: word_less_nat_alt)

lemma unat_u64_diff: "b \<le> a \<Longrightarrow> unat ((a :: u64) - b) = unat a - unat b"
  by (simp add: unat_sub)

text \<open>\<open>u64::saturating_sub\<close>.\<close>

definition saturating_sub :: "u64 \<Rightarrow> u64 \<Rightarrow> u64" where
  "saturating_sub a b = (if b \<le> a then a - b else 0)"

lemma unat_saturating_sub [simp]: "unat (saturating_sub a b) = unat a - unat b"
  by (auto simp: saturating_sub_def unat_sub word_le_nat_alt)

section \<open>Programs: state with errors\<close>

type_synonym ('e, 's, 'a) prog = "'s \<Rightarrow> ('e + 'a) \<times> 's"

definition ret :: "'a \<Rightarrow> ('e, 's, 'a) prog" where
  "ret x = (\<lambda>s. (Inr x, s))"

definition throw :: "'e \<Rightarrow> ('e, 's, 'a) prog" where
  "throw e = (\<lambda>s. (Inl e, s))"

text \<open>Sequencing with early return: \<open>let x = m?; f(x)\<close>.\<close>

definition andThen :: "('e, 's, 'a) prog \<Rightarrow> ('a \<Rightarrow> ('e, 's, 'b) prog) \<Rightarrow> ('e, 's, 'b) prog" where
  "andThen m f = (\<lambda>s. case m s of (Inl e, s') \<Rightarrow> (Inl e, s') | (Inr x, s') \<Rightarrow> f x s')"

definition get_st :: "('e, 's, 's) prog" where
  "get_st = (\<lambda>s. (Inr s, s))"

definition modify :: "('s \<Rightarrow> 's) \<Rightarrow> ('e, 's, unit) prog" where
  "modify f = (\<lambda>s. (Inr (), f s))"

text \<open>Run a program on a part of the state: a method call on a field of \<open>self\<close>.\<close>

definition zoom :: "('s \<Rightarrow> 't) \<Rightarrow> ('t \<Rightarrow> 's \<Rightarrow> 's) \<Rightarrow> ('e, 't \<times> 'w, 'a) prog \<Rightarrow> ('e, 's \<times> 'w, 'a) prog" where
  "zoom g p m = (\<lambda>(s, w). case m (g s, w) of (r, (t, w')) \<Rightarrow> (r, (p t s, w')))"

text \<open>Run a program that only touches the outside world.\<close>

definition outside :: "('e, 'w, 'a) prog \<Rightarrow> ('e, 's \<times> 'w, 'a) prog" where
  "outside m = (\<lambda>(s, w). case m w of (r, w') \<Rightarrow> (r, (s, w')))"

text \<open>A loop over a list whose body may return early with an error.\<close>

primrec for_each :: "'x list \<Rightarrow> ('x \<Rightarrow> ('e, 's, unit) prog) \<Rightarrow> ('e, 's, unit) prog" where
  "for_each [] f = ret ()"
| "for_each (x # xs) f = andThen (f x) (\<lambda>_. for_each xs f)"

section \<open>Weakest preconditions\<close>

definition wp :: "('e, 's, 'a) prog \<Rightarrow> ('a \<Rightarrow> 's \<Rightarrow> bool) \<Rightarrow> ('e \<Rightarrow> 's \<Rightarrow> bool) \<Rightarrow> 's \<Rightarrow> bool" where
  "wp m Q E s = (case m s of (Inl e, s') \<Rightarrow> E e s' | (Inr x, s') \<Rightarrow> Q x s')"

lemma wp_ret [simp, wp_rules]: "wp (ret x) Q E s = Q x s"
  by (simp add: wp_def ret_def)

lemma wp_throw [simp, wp_rules]: "wp (throw e) Q E s = E e s"
  by (simp add: wp_def throw_def)

lemma andThen_get_st: "andThen get_st f s = f s s"
  by (simp add: andThen_def get_st_def)

lemma andThen_Inr: "m s = (Inr x, s') \<Longrightarrow> andThen m f s = f x s'"
  by (simp add: andThen_def)

lemma andThen_Inl: "m s = (Inl e, s') \<Longrightarrow> andThen m f s = (Inl e, s')"
  by (simp add: andThen_def)

lemma andThen_modify: "andThen (modify f) m s = m () (f s)"
  by (simp add: andThen_def modify_def)

lemma wp_andThen [simp, wp_rules]: "wp (andThen m f) Q E s = wp m (\<lambda>x. wp (f x) Q E) E s"
  by (auto simp: wp_def andThen_def split: prod.splits sum.splits)

lemma wp_get_st [simp, wp_rules]: "wp get_st Q E s = Q s s"
  by (simp add: wp_def get_st_def)

lemma wp_modify [simp, wp_rules]: "wp (modify f) Q E s = Q () (f s)"
  by (simp add: wp_def modify_def)

lemma wp_zoom [simp, wp_rules]:
  "wp (zoom g p m) Q E (s, w) = wp m (\<lambda>x (t, w'). Q x (p t s, w')) (\<lambda>e (t, w'). E e (p t s, w')) (g s, w)"
  by (auto simp: wp_def zoom_def split: prod.splits sum.splits)

lemma wp_outside [simp, wp_rules]:
  "wp (outside m) Q E (s, w) = wp m (\<lambda>x w'. Q x (s, w')) (\<lambda>e w'. E e (s, w')) w"
  by (auto simp: wp_def outside_def split: prod.splits sum.splits)

lemma wp_if [wp_rules]: "wp (if b then m else m') Q E s = (if b then wp m Q E s else wp m' Q E s)"
  by simp

lemma wp_mono:
  assumes "wp m Q E s"
    and "\<And>x s'. m s = (Inr x, s') \<Longrightarrow> Q x s' \<Longrightarrow> Q' x s'"
    and "\<And>e s'. m s = (Inl e, s') \<Longrightarrow> E e s' \<Longrightarrow> E' e s'"
  shows "wp m Q' E' s"
  using assms by (auto simp: wp_def split: prod.splits sum.splits)

lemma wp_conseq:
  assumes "wp m Q E s" and "\<And>x s'. Q x s' \<Longrightarrow> Q' x s'" and "\<And>e s'. E e s' \<Longrightarrow> E' e s'"
  shows "wp m Q' E' s"
  using assms by (auto intro: wp_mono)

lemma wp_conj: "wp m Q E s \<Longrightarrow> wp m Q' E' s \<Longrightarrow> wp m (\<lambda>x s. Q x s \<and> Q' x s) (\<lambda>e s. E e s \<and> E' e s) s"
  by (auto simp: wp_def split: prod.splits sum.splits)

lemma wpD: "wp m Q E s \<Longrightarrow> m s = (Inr x, s') \<Longrightarrow> Q x s'"
  by (simp add: wp_def)

lemma wpE: "wp m Q E s \<Longrightarrow> m s = (Inl e, s') \<Longrightarrow> E e s'"
  by (simp add: wp_def)

lemma wp_total: "wp m Q (\<lambda>_ _. False) s \<longleftrightarrow> (\<exists>x s'. m s = (Inr x, s') \<and> Q x s')"
  by (auto simp: wp_def split: prod.splits sum.splits)

text \<open>The loop rule: an invariant indexed by what has been processed.\<close>

lemma wp_for_each:
  assumes step: "\<And>ds x ts s. xs = ds @ x # ts \<Longrightarrow> I ds s \<Longrightarrow> wp (f x) (\<lambda>_. I (ds @ [x])) E s"
    and init: "I [] s"
  shows "wp (for_each xs f) (\<lambda>_. I xs) E s"
proof -
  have key: "wp (for_each ts f) (\<lambda>_. I xs) E s" if "xs = ds @ ts" "I ds s" for ds ts s
    using that
  proof (induction ts arbitrary: ds s)
    case Nil
    then show ?case by simp
  next
    case (Cons x ts)
    have "wp (f x) (\<lambda>_. I (ds @ [x])) E s"
      using Cons.prems by (intro step) auto
    then have "wp (f x) (\<lambda>_. wp (for_each ts f) (\<lambda>_. I xs) E) E s"
      by (rule wp_conseq) (use Cons in auto)
    then show ?case by simp
  qed
  show ?thesis by (rule key [of "[]"]) (use init in simp_all)
qed

text \<open>Running a program whose parts are known to succeed.\<close>

lemma run_andThen: "m s = (Inr x, s') \<Longrightarrow> andThen m f s = f x s'"
  by (simp add: andThen_def)

lemma run_andThen_error: "m s = (Inl e, s') \<Longrightarrow> andThen m f s = (Inl e, s')"
  by (simp add: andThen_def)

lemma run_zoom: "m (g s, w) = (r, t, w') \<Longrightarrow> zoom g p m (s, w) = (r, p t s, w')"
  by (simp add: zoom_def)

lemma run_outside: "m w = (r, w') \<Longrightarrow> outside m (s, w) = (r, s, w')"
  by (simp add: outside_def)

lemmas run_simps = run_andThen run_andThen_error run_zoom run_outside

lemma exec_simps:
  "ret x s = (Inr x, s)"
  "throw e s = (Inl e, s)"
  "get_st s = (Inr s, s)"
  "modify f s = (Inr (), f s)"
  by (simp_all add: ret_def throw_def get_st_def modify_def)

section \<open>Lists\<close>

lemma take_append_exact [simp]: "length xs = n \<Longrightarrow> take n (xs @ ys) = xs"
  by simp

lemma drop_append_exact [simp]: "length xs = n \<Longrightarrow> drop n (xs @ ys) = ys"
  by simp

lemma strict_prefix_take: "k < length xs \<Longrightarrow> strict_prefix (take k xs) xs"
  using take_is_prefix [of k xs] arg_cong [of "take k xs" xs length] by (auto simp: strict_prefix_def)

lemma map_of_filter_key:
  "map_of (filter (\<lambda>(k, _). P k) al) k = (if P k then map_of al k else None)"
  by (induction al) auto

lemma butlast_snoc_eq: "xs \<noteq> [] \<Longrightarrow> butlast xs @ [last xs] = xs"
  by simp

end
