(* ===== verification/Platform.thy ===== *)
theory Platform
  imports Prelude
begin

text \<open>
  What the crate stands on. The error type of \<^verbatim>\<open>src/lib.rs\<close>; the third-party code the crate
  calls, as a record of functions passed to every definition that uses it; and the part of
  Rust's standard library the crate uses: files, directories, \<open>BufWriter\<close>, \<open>Read\<close>, the clock.

  Files are modelled at three levels, because the crate's durability argument depends on
  them: the bytes in a \<open>BufWriter\<close> (lost when the process dies), the bytes in the operating
  system's cache (lost when the machine dies) and the bytes on disk. Directory entries have a
  live and a durable version as well. Every primitive takes one event from a script that says
  whether it succeeds, is cut short, is interrupted or fails, so that a property stated for
  all scripts holds for all patterns of I/O failure, and a failing operation leaves exactly
  the state a crash at that point would find.
\<close>

section \<open>Errors (\<^verbatim>\<open>src/lib.rs\<close>)\<close>

datatype io_error = NotFound | AlreadyExists | Interrupted | OtherIo

text \<open>
  The constructors of \<open>enum Error\<close>. \<open>Panic\<close> is not one of them: it stands for a task that
  unwinds (an index out of bounds, an empty random range), so that panics are branches of the
  model too.
\<close>

datatype error =
    Io io_error
  | Encode
  | Corruption string
  | Wal string
  | Raft string
  | Config string
  | Transport string
  | Panic string

definition error_raft :: "string \<Rightarrow> error" where
  "error_raft msg = Raft msg"

definition error_wal :: "string \<Rightarrow> error" where
  "error_wal msg = Wal msg"

section \<open>Paths\<close>

text \<open>A path is the list of its components.\<close>

type_synonym path = "string list"

abbreviation join_path :: "path \<Rightarrow> string \<Rightarrow> path" where
  "join_path p s \<equiv> p @ [s]"

text \<open>Append to the last component: \<open>OsString::push\<close> on the path's string.\<close>

definition push_str :: "path \<Rightarrow> string \<Rightarrow> path" where
  "push_str p s = (case p of [] \<Rightarrow> [s] | _ \<Rightarrow> butlast p @ [last p @ s])"

lemma push_str_join [simp]: "push_str (join_path d n) s = join_path d (n @ s)"
  by (cases d) (simp_all add: push_str_def)

section \<open>Formatting and parsing of numbers\<close>

definition digit_char :: "nat \<Rightarrow> char" where
  "digit_char d = char_of (48 + d)"

fun dec_digits :: "nat \<Rightarrow> string" where
  "dec_digits n = (if n < 10 then [digit_char n] else dec_digits (n div 10) @ [digit_char (n mod 10)])"

declare dec_digits.simps [simp del]

text \<open>\<open>format!("{n}")\<close>, and \<open>format!("{n:020}")\<close>: zero-padded to twenty digits.\<close>

definition show_u64 :: "u64 \<Rightarrow> string" where
  "show_u64 n = dec_digits (unat n)"

definition show_u64_20 :: "u64 \<Rightarrow> string" where
  "show_u64_20 n = (let s = dec_digits (unat n) in replicate (20 - length s) (CHR ''0'') @ s)"

text \<open>\<open>str::parse::<u64>\<close>: an optional plus sign, at least one digit, no overflow.\<close>

fun parse_digits :: "nat \<Rightarrow> string \<Rightarrow> nat option" where
  "parse_digits acc [] = Some acc"
| "parse_digits acc (c # cs) = (let d = of_char c in
     if 48 \<le> (d :: nat) \<and> d \<le> 57 \<and> acc * 10 + (d - 48) < 2 ^ 64 then parse_digits (acc * 10 + (d - 48)) cs else None)"

definition parse_u64 :: "string \<Rightarrow> u64 option" where
  "parse_u64 s = (let ds = (case s of [] \<Rightarrow> [] | c # cs \<Rightarrow> if c = CHR ''+'' then cs else s) in
     if ds = [] then None else map_option of_nat (parse_digits 0 ds))"

text \<open>\<open>str::strip_prefix\<close> and \<open>str::strip_suffix\<close>.\<close>

definition strip_prefix :: "string \<Rightarrow> string \<Rightarrow> string option" where
  "strip_prefix p s = (if take (length p) s = p then Some (drop (length p) s) else None)"

definition strip_suffix :: "string \<Rightarrow> string \<Rightarrow> string option" where
  "strip_suffix p s = map_option rev (strip_prefix (rev p) (rev s))"

definition display_path :: "path \<Rightarrow> string" where
  "display_path p = concat (map (\<lambda>c. CHR ''/'' # c) p)"

section \<open>Files and directories\<close>

record inode =
  i_data :: bytes      \<comment> \<open>contents as a reader sees them\<close>
  i_synced :: bytes    \<comment> \<open>contents at the last successful \<open>fsync\<close>\<close>
  i_dirty :: bool      \<comment> \<open>written since then\<close>

definition empty_inode :: inode where
  "empty_inode = \<lparr>i_data = [], i_synced = [], i_dirty = False\<rparr>"

datatype io_event = Done | Short nat | Intr | Fail nat

record world =
  w_dirs :: "path list"                       \<comment> \<open>existing directories\<close>
  w_dir :: "(path \<times> nat) list"                \<comment> \<open>live directory entries\<close>
  w_disk :: "path \<Rightarrow> nat option"              \<comment> \<open>durable directory entries\<close>
  w_pend :: "(path \<times> nat option) list list"  \<comment> \<open>directory operations since the last \<open>fsync\<close>, newest first\<close>
  w_inode :: "nat \<Rightarrow> inode"
  w_next :: nat                               \<comment> \<open>next unused inode number\<close>
  w_events :: "io_event list"                 \<comment> \<open>outcome of the coming primitives; then all succeed\<close>
  w_ticks :: nat                              \<comment> \<open>clock readings so far\<close>
  w_draws :: nat                              \<comment> \<open>random draws so far\<close>

type_synonym 'a io = "(error, world, 'a) prog"

abbreviation w_find :: "world \<Rightarrow> path \<Rightarrow> nat option" where
  "w_find w p \<equiv> map_of (w_dir w) p"

text \<open>Scripts in which nothing fails: reads may still be short or interrupted.\<close>

fun ev_ok :: "io_event \<Rightarrow> bool" where
  "ev_ok (Fail _) = False"
| "ev_ok _ = True"

abbreviation clean :: "io_event list \<Rightarrow> bool" where
  "clean es \<equiv> list_all ev_ok es"

abbreviation w_clean :: "world \<Rightarrow> bool" where
  "w_clean w \<equiv> clean (w_events w)"

definition pop_event :: "world \<Rightarrow> io_event \<times> world" where
  "pop_event w = (case w_events w of [] \<Rightarrow> (Done, w) | e # es \<Rightarrow> (e, w\<lparr>w_events := es\<rparr>))"

text \<open>
  A system call that either happens or fails without effect. Calls other than \<open>read\<close> are
  restarted by the standard library when interrupted.
\<close>

definition syscall :: "'a io \<Rightarrow> 'a io" where
  "syscall f w = (case pop_event w of (e, w') \<Rightarrow> (if ev_ok e then f w' else (Inl (Io OtherIo), w')))"

definition set_entry :: "path \<Rightarrow> nat option \<Rightarrow> world \<Rightarrow> world" where
  "set_entry p v w = w\<lparr>w_dir := (case v of None \<Rightarrow> AList.delete p (w_dir w) | Some i \<Rightarrow> AList.update p i (w_dir w)),
                       w_pend := [(p, v)] # w_pend w\<rparr>"

definition upd_inode :: "nat \<Rightarrow> (inode \<Rightarrow> inode) \<Rightarrow> world \<Rightarrow> world" where
  "upd_inode i f w = w\<lparr>w_inode := (w_inode w)(i := f (w_inode w i))\<rparr>"

definition new_file :: "path \<Rightarrow> nat io" where
  "new_file p w = (Inr (w_next w),
     set_entry p (Some (w_next w)) ((upd_inode (w_next w) (\<lambda>_. empty_inode) w)\<lparr>w_next := Suc (w_next w)\<rparr>))"

definition create_dir_all :: "path \<Rightarrow> unit io" where
  "create_dir_all d = syscall (\<lambda>w. (Inr (), if d \<in> set (w_dirs w) then w else w\<lparr>w_dirs := d # w_dirs w\<rparr>))"

text \<open>\<open>fs::read_dir\<close>: the names of the files in a directory, in no particular order.\<close>

definition read_dir :: "path \<Rightarrow> string list io" where
  "read_dir d = syscall (\<lambda>w. if d \<in> set (w_dirs w)
     then (Inr (map last (filter (\<lambda>p. p \<noteq> [] \<and> butlast p = d) (map fst (w_dir w)))), w)
     else (Inl (Io NotFound), w))"

text \<open>\<open>Path::exists\<close> answers \<open>false\<close> when the query fails.\<close>

definition dir_exists :: "path \<Rightarrow> bool io" where
  "dir_exists d w = (case pop_event w of (e, w') \<Rightarrow> (Inr (ev_ok e \<and> d \<in> set (w_dirs w')), w'))"

definition open_existing :: "path \<Rightarrow> nat io" where
  "open_existing p = syscall (\<lambda>w. case w_find w p of None \<Rightarrow> (Inl (Io NotFound), w) | Some i \<Rightarrow> (Inr i, w))"

text \<open>\<open>OpenOptions\<close> with \<open>create_new\<close>.\<close>

definition open_create_new :: "path \<Rightarrow> nat io" where
  "open_create_new p = syscall (\<lambda>w. case w_find w p of
       Some _ \<Rightarrow> (Inl (Io AlreadyExists), w)
     | None \<Rightarrow> if butlast p \<in> set (w_dirs w) then new_file p w else (Inl (Io NotFound), w))"

text \<open>\<open>OpenOptions\<close> with \<open>create\<close> and \<open>truncate\<close>.\<close>

definition open_create_truncate :: "path \<Rightarrow> nat io" where
  "open_create_truncate p = syscall (\<lambda>w. case w_find w p of
       Some i \<Rightarrow> (Inr i, upd_inode i (\<lambda>n. n\<lparr>i_data := [], i_dirty := True\<rparr>) w)
     | None \<Rightarrow> if butlast p \<in> set (w_dirs w) then new_file p w else (Inl (Io NotFound), w))"

definition file_len :: "nat \<Rightarrow> nat io" where
  "file_len i = syscall (\<lambda>w. (Inr (length (i_data (w_inode w i))), w))"

definition set_len :: "nat \<Rightarrow> nat \<Rightarrow> unit io" where
  "set_len i n = syscall (\<lambda>w. (Inr (), upd_inode i (\<lambda>f. f\<lparr>i_data := take n (i_data f) @ replicate (n - length (i_data f)) 0,
                                                     i_dirty := True\<rparr>) w))"

definition sync_all :: "nat \<Rightarrow> unit io" where
  "sync_all i = syscall (\<lambda>w. (Inr (), upd_inode i (\<lambda>f. f\<lparr>i_synced := i_data f, i_dirty := False\<rparr>) w))"

text \<open>
  Open a directory and \<open>fsync\<close> it: its entries become durable. One call stands for both, since the code has created the directory
  before, so that opening it does not fail for want of the directory.
\<close>

definition sync_dir :: "path \<Rightarrow> unit io" where
  "sync_dir d = syscall (\<lambda>w. (Inr (), w\<lparr>w_disk := (\<lambda>p. if p \<noteq> [] \<and> butlast p = d then w_find w p else w_disk w p),
                                     w_pend := map (filter (\<lambda>(p, _). \<not> (p \<noteq> [] \<and> butlast p = d))) (w_pend w)\<rparr>))"

text \<open>\<open>rename\<close> is one directory operation: a crash finds both of its entry changes or neither.\<close>

definition rename_file :: "path \<Rightarrow> path \<Rightarrow> unit io" where
  "rename_file a b = syscall (\<lambda>w. case w_find w a of
       None \<Rightarrow> (Inl (Io NotFound), w)
     | Some i \<Rightarrow> (Inr (), w\<lparr>w_dir := AList.delete a (AList.update b i (w_dir w)), w_pend := [(a, None), (b, Some i)] # w_pend w\<rparr>))"

definition remove_file :: "path \<Rightarrow> unit io" where
  "remove_file p = syscall (\<lambda>w. case w_find w p of
       None \<Rightarrow> (Inl (Io NotFound), w)
     | Some _ \<Rightarrow> (Inr (), set_entry p None w))"

text \<open>Writing at an offset, as the file cursor does.\<close>

definition write_at :: "nat \<Rightarrow> bytes \<Rightarrow> bytes \<Rightarrow> bytes" where
  "write_at pos bs old = take pos old @ replicate (pos - length old) 0 @ bs @ drop (pos + length bs) old"

definition write_inode :: "nat \<Rightarrow> nat \<Rightarrow> bytes \<Rightarrow> world \<Rightarrow> world" where
  "write_inode i pos bs = upd_inode i (\<lambda>f. f\<lparr>i_data := write_at pos bs (i_data f), i_dirty := True\<rparr>)"

text \<open>\<open>write_all\<close> on a file; a failing call has written some prefix.\<close>

definition file_write_all :: "nat \<Rightarrow> nat \<Rightarrow> bytes \<Rightarrow> world \<Rightarrow> (error + unit) \<times> nat \<times> world" where
  "file_write_all i pos bs w = (case pop_event w of (e, w') \<Rightarrow>
     (case e of Fail k \<Rightarrow> (Inl (Io OtherIo), min k (length bs), write_inode i pos (take k bs) w')
      | _ \<Rightarrow> (Inr (), length bs, write_inode i pos bs w')))"

text \<open>\<open>fs::read\<close>.\<close>

definition read_file :: "path \<Rightarrow> bytes io" where
  "read_file p = syscall (\<lambda>w. case w_find w p of
       None \<Rightarrow> (Inl (Io NotFound), w)
     | Some i \<Rightarrow> (Inr (i_data (w_inode w i)), w))"

section \<open>Third-party code\<close>

text \<open>
  \<^item> \<open>x_crc\<close>: \<^verbatim>\<open>crc32fast\<close>; hashing chunks with \<open>Hasher::update\<close> and calling \<open>finalize\<close> gives
    the checksum of their concatenation.
  \<^item> \<open>x_clock\<close>: the value of the \<open>n\<close>-th \<open>Instant::now()\<close>, in nanoseconds.
  \<^item> \<open>x_range\<close>: the \<open>n\<close>-th draw of \<^verbatim>\<open>rand\<close>'s \<open>gen_range(lo..hi)\<close>.
  \<^item> \<open>x_bufcap\<close>: the default capacity of a \<open>BufWriter\<close>, which the standard library does not fix.
\<close>

record ext =
  x_crc :: "bytes \<Rightarrow> u32"
  x_clock :: "nat \<Rightarrow> nat"
  x_range :: "nat \<Rightarrow> u64 \<Rightarrow> u64 \<Rightarrow> u64"
  x_bufcap :: nat

text \<open>The documented behaviour of the clock and of \<open>gen_range\<close>.\<close>

definition clock_monotone :: "('x) ext_scheme \<Rightarrow> bool" where
  "clock_monotone X \<longleftrightarrow> mono (x_clock X)"

definition range_in_bounds :: "('x) ext_scheme \<Rightarrow> bool" where
  "range_in_bounds X \<longleftrightarrow> (\<forall>n lo hi. lo < hi \<longrightarrow> lo \<le> x_range X n lo hi \<and> x_range X n lo hi < hi)"

definition instant_now :: "('x) ext_scheme \<Rightarrow> nat io" where
  "instant_now X w = (Inr (x_clock X (w_ticks w)), w\<lparr>w_ticks := Suc (w_ticks w)\<rparr>)"

text \<open>\<open>gen_range\<close> panics on an empty range.\<close>

definition gen_range :: "('x) ext_scheme \<Rightarrow> u64 \<Rightarrow> u64 \<Rightarrow> u64 io" where
  "gen_range X lo hi w = (if lo < hi then (Inr (x_range X (w_draws w) lo hi), w\<lparr>w_draws := Suc (w_draws w)\<rparr>)
                          else (Inl (Panic ''cannot sample empty range''), w))"

text \<open>A concrete instance, on which witnesses are evaluated.\<close>

definition sample_crc :: "bytes \<Rightarrow> u32" where
  "sample_crc bs = fold (\<lambda>b acc. acc * 31 + ucast b) bs 7"

definition sample_ext :: ext where
  "sample_ext = \<lparr>x_crc = sample_crc, x_clock = (\<lambda>n. n), x_range = (\<lambda>_ lo _. lo), x_bufcap = 16\<rparr>"

section \<open>Buffered writing\<close>

record bufw =
  bw_ino :: nat
  bw_pos :: nat
  bw_buf :: bytes

definition bufw_new :: "nat \<Rightarrow> bufw" where
  "bufw_new i = \<lparr>bw_ino = i, bw_pos = 0, bw_buf = []\<rparr>"

type_synonym 'a bw_io = "(error, bufw \<times> world, 'a) prog"

text \<open>\<open>flush_buf\<close>: what was written before a failure leaves the buffer, the rest stays.\<close>

definition bw_flush :: "unit bw_io" where
  "bw_flush = (\<lambda>(b, w). if bw_buf b = [] then (Inr (), b, w) else
     (case file_write_all (bw_ino b) (bw_pos b) (bw_buf b) w of (r, n, w') \<Rightarrow>
       (r, b\<lparr>bw_pos := bw_pos b + n, bw_buf := drop n (bw_buf b)\<rparr>, w')))"

text \<open>\<open>inner.write_all\<close>, for writes at least as large as the buffer.\<close>

definition bw_direct :: "bytes \<Rightarrow> unit bw_io" where
  "bw_direct bs = (\<lambda>(b, w). case file_write_all (bw_ino b) (bw_pos b) bs w of (r, n, w') \<Rightarrow>
       (r, b\<lparr>bw_pos := bw_pos b + n\<rparr>, w'))"

definition bw_push :: "bytes \<Rightarrow> unit bw_io" where
  "bw_push bs = modify (\<lambda>(b, w). (b\<lparr>bw_buf := bw_buf b @ bs\<rparr>, w))"

definition bw_write_all :: "('x) ext_scheme \<Rightarrow> bytes \<Rightarrow> unit bw_io" where
  "bw_write_all X bs = andThen get_st (\<lambda>(b, _).
     let spare = x_bufcap X - length (bw_buf b) in
     if length bs < spare then bw_push bs
     else andThen (if spare < length bs then bw_flush else ret ()) (\<lambda>_.
       if x_bufcap X \<le> length bs then bw_direct bs else bw_push bs))"

definition bw_sync_all :: "unit bw_io" where
  "bw_sync_all = (\<lambda>(b, w). case sync_all (bw_ino b) w of (r, w') \<Rightarrow> (r, b, w'))"

text \<open>\<open>seek(SeekFrom::End(0))\<close>: flush, then move the cursor.\<close>

definition bw_seek_end :: "unit bw_io" where
  "bw_seek_end = andThen bw_flush (\<lambda>_. (\<lambda>(b, w). case file_len (bw_ino b) w of
       (Inl e, w') \<Rightarrow> (Inl e, b, w') | (Inr n, w') \<Rightarrow> (Inr (), b\<lparr>bw_pos := n\<rparr>, w')))"

text \<open>Dropping a \<open>BufWriter\<close> flushes it and ignores the outcome.\<close>

definition bw_drop :: "bufw \<Rightarrow> world \<Rightarrow> world" where
  "bw_drop b w = snd (snd (bw_flush (b, w)))"

section \<open>Reading\<close>

text \<open>
  A reader (\<open>impl Read\<close>): the bytes still ahead, the position, and the script of the coming
  \<open>read\<close> calls. A call returns at least one byte unless the input is exhausted.
\<close>

record reader =
  rd_rest :: bytes
  rd_pos :: nat
  rd_events :: "io_event list"

definition read :: "nat \<Rightarrow> reader \<Rightarrow> (io_error + bytes) \<times> reader" where
  "read n r = (let (e, es) = (case rd_events r of [] \<Rightarrow> (Done, []) | e # es \<Rightarrow> (e, es)); r' = r\<lparr>rd_events := es\<rparr>;
       give = (\<lambda>k. (Inr (take k (rd_rest r)), r'\<lparr>rd_rest := drop k (rd_rest r), rd_pos := rd_pos r + min k (length (rd_rest r))\<rparr>))
     in case e of Done \<Rightarrow> give n | Short k \<Rightarrow> give (max 1 (min k n)) | Intr \<Rightarrow> (Inl Interrupted, r') | Fail _ \<Rightarrow> (Inl OtherIo, r'))"

text \<open>\<open>stream_position\<close>, a system call like any other.\<close>

definition stream_position :: "reader \<Rightarrow> (error + nat) \<times> reader" where
  "stream_position r = (case rd_events r of [] \<Rightarrow> (Inr (rd_pos r), r)
     | e # es \<Rightarrow> (if ev_ok e then Inr (rd_pos r) else Inl (Io OtherIo), r\<lparr>rd_events := es\<rparr>))"

text \<open>Read a file of the world: the reader takes over the script and hands it back.\<close>

definition reader_of :: "world \<Rightarrow> nat \<Rightarrow> reader" where
  "reader_of w i = \<lparr>rd_rest = i_data (w_inode w i), rd_pos = 0, rd_events = w_events w\<rparr>"

definition with_reader :: "nat \<Rightarrow> (error, reader, 'a) prog \<Rightarrow> 'a io" where
  "with_reader i m w = (case m (reader_of w i) of (x, r) \<Rightarrow> (x, w\<lparr>w_events := rd_events r\<rparr>))"

section \<open>Crashes\<close>

text \<open>
  After a power failure a file that was not written since its last \<open>fsync\<close> is intact; of any
  other file the part common to the synced and the current contents survives, followed by
  anything at all. Of the directory operations since the last \<open>fsync\<close> of their directory any
  subset has reached the disk, each of them whole. (Directories themselves are taken to survive.)
\<close>

definition apply_op :: "(path \<times> nat option) list \<Rightarrow> (path \<Rightarrow> nat option) \<Rightarrow> path \<Rightarrow> nat option" where
  "apply_op = foldr (\<lambda>(p, v) m. m(p := v))"

definition apply_ops :: "(path \<times> nat option) list list \<Rightarrow> (path \<Rightarrow> nat option) \<Rightarrow> path \<Rightarrow> nat option" where
  "apply_ops = foldr apply_op"

definition crash_inode :: "inode \<Rightarrow> inode \<Rightarrow> bool" where
  "crash_inode f f' \<longleftrightarrow> \<not> i_dirty f' \<and> i_synced f' = i_data f' \<and>
     (if i_dirty f then prefix (longest_common_prefix (i_synced f) (i_data f)) (i_data f')
      else i_data f' = i_data f)"

definition crash :: "world \<Rightarrow> world \<Rightarrow> bool" where
  "crash w w' \<longleftrightarrow>
     (\<exists>ops. subseq ops (w_pend w) \<and> map_of (w_dir w') = apply_ops ops (w_disk w)) \<and>
     distinct (map fst (w_dir w')) \<and> w_disk w' = map_of (w_dir w') \<and> w_pend w' = [] \<and>
     (\<forall>i. crash_inode (w_inode w i) (w_inode w' i)) \<and>
     w_next w' = w_next w \<and> w_dirs w' = w_dirs w"

text \<open>Well-formed file systems.\<close>

definition fs_ok :: "world \<Rightarrow> bool" where
  "fs_ok w \<longleftrightarrow> distinct (map fst (w_dir w)) \<and>
     (\<forall>p i. w_find w p = Some i \<longrightarrow> i < w_next w) \<and>
     (\<forall>p i. w_disk w p = Some i \<longrightarrow> i < w_next w) \<and>
     (\<forall>p i. (p, Some i) \<in> set (concat (w_pend w)) \<longrightarrow> i < w_next w) \<and>
     apply_ops (w_pend w) (w_disk w) = map_of (w_dir w) \<and>
     (\<forall>i. \<not> i_dirty (w_inode w i) \<longrightarrow> i_synced (w_inode w i) = i_data (w_inode w i))"

section \<open>Facts about the primitives\<close>

lemma clean_tl [simp]: "clean es \<Longrightarrow> clean (tl es)"
  by (cases es) auto

lemma pop_event_clean: "w_clean w \<Longrightarrow> \<exists>e. ev_ok e \<and> pop_event w = (e, w\<lparr>w_events := tl (w_events w)\<rparr>)"
  by (cases "w_events w") (auto simp: pop_event_def)

lemma syscall_clean: "w_clean w \<Longrightarrow> syscall f w = f (w\<lparr>w_events := tl (w_events w)\<rparr>)"
  using pop_event_clean [of w] by (auto simp: syscall_def)

lemma ev_ok_iff: "ev_ok e \<longleftrightarrow> (\<forall>k. e \<noteq> Fail k)"
  by (cases e) auto

lemma file_write_all_clean:
  "w_clean w \<Longrightarrow> file_write_all i pos bs w = (Inr (), length bs, write_inode i pos bs (w\<lparr>w_events := tl (w_events w)\<rparr>))"
  using pop_event_clean [of w] by (auto simp: file_write_all_def ev_ok_iff split: io_event.splits)

lemma write_at_end [simp]: "pos = length old \<Longrightarrow> write_at pos bs old = old @ bs"
  by (simp add: write_at_def)

lemma w_find_set_entry [simp]: "w_find (set_entry p v w) q = (if q = p then v else w_find w q)"
  by (cases v) (simp_all add: set_entry_def update_conv' delete_conv')

lemma set_entry_fields [simp]:
  "w_inode (set_entry p v w) = w_inode w" "w_next (set_entry p v w) = w_next w"
  "w_events (set_entry p v w) = w_events w" "w_dirs (set_entry p v w) = w_dirs w"
  "w_disk (set_entry p v w) = w_disk w" "w_pend (set_entry p v w) = [(p, v)] # w_pend w"
  by (simp_all add: set_entry_def)

lemma upd_inode_fields [simp]:
  "w_inode (upd_inode i f w) = (w_inode w)(i := f (w_inode w i))" "w_next (upd_inode i f w) = w_next w"
  "w_events (upd_inode i f w) = w_events w" "w_dirs (upd_inode i f w) = w_dirs w"
  "w_disk (upd_inode i f w) = w_disk w" "w_pend (upd_inode i f w) = w_pend w"
  "w_dir (upd_inode i f w) = w_dir w"
  by (simp_all add: upd_inode_def)

lemma write_inode_fields [simp]:
  "w_inode (write_inode i pos bs w) = (w_inode w)(i := (w_inode w i)\<lparr>i_data := write_at pos bs (i_data (w_inode w i)), i_dirty := True\<rparr>)"
  "w_next (write_inode i pos bs w) = w_next w" "w_events (write_inode i pos bs w) = w_events w"
  "w_dirs (write_inode i pos bs w) = w_dirs w" "w_disk (write_inode i pos bs w) = w_disk w"
  "w_pend (write_inode i pos bs w) = w_pend w" "w_dir (write_inode i pos bs w) = w_dir w"
  by (simp_all add: write_inode_def)

text \<open>The well-formedness of the file system is kept by every change of an entry or a file.\<close>

lemma fs_ok_distinct: "fs_ok w \<Longrightarrow> distinct (map fst (w_dir w))"
  by (simp add: fs_ok_def)

lemma fs_ok_events [simp]: "fs_ok (w\<lparr>w_events := es\<rparr>) = fs_ok w"
  by (simp add: fs_ok_def)

lemma apply_op_simps [simp]: "apply_op [] m = m" "apply_op ((p, v) # op) m = (apply_op op m)(p := v)"
  by (simp_all add: apply_op_def)

lemma apply_ops_simps [simp]: "apply_ops [] m = m" "apply_ops (op # ops) m = apply_op op (apply_ops ops m)"
  by (simp_all add: apply_ops_def)

lemma apply_op_cases: "apply_op op m p = m p \<or> (p, apply_op op m p) \<in> set op"
proof (induction op)
  case (Cons e op)
  then show ?case by (cases e) auto
qed simp

lemma apply_ops_cases: "apply_ops ops m p = m p \<or> (p, apply_ops ops m p) \<in> set (concat ops)"
proof (induction ops)
  case (Cons op ops)
  then show ?case using apply_op_cases [of op "apply_ops ops m" p] by auto
qed simp

lemma map_of_set_entry: "map_of (w_dir (set_entry p v w)) = (map_of (w_dir w))(p := v)"
  by (rule ext) simp

lemma fs_ok_set_entry:
  assumes "fs_ok w" and "\<And>i. v = Some i \<Longrightarrow> i < w_next w"
  shows "fs_ok (set_entry p v w)"
proof -
  have "distinct (map fst (w_dir (set_entry p v w)))"
    using fs_ok_distinct [OF assms(1)] by (cases v) (simp_all add: set_entry_def distinct_update distinct_delete)
  then show ?thesis
    using assms unfolding fs_ok_def map_of_set_entry by (auto simp del: map_of_eq_Some_iff split: if_splits)
qed

lemma fs_ok_upd_inode:
  "fs_ok w \<Longrightarrow> (\<not> i_dirty (f (w_inode w i)) \<Longrightarrow> i_synced (f (w_inode w i)) = i_data (f (w_inode w i))) \<Longrightarrow> fs_ok (upd_inode i f w)"
  by (auto simp: fs_ok_def)

lemma fs_ok_write_inode: "fs_ok w \<Longrightarrow> fs_ok (write_inode i pos bs w)"
  unfolding write_inode_def by (rule fs_ok_upd_inode) simp_all

lemma fs_ok_next: "fs_ok w \<Longrightarrow> w_next w \<le> n \<Longrightarrow> fs_ok (w\<lparr>w_next := n\<rparr>)"
  unfolding fs_ok_def by (simp del: map_of_eq_Some_iff) (meson order.strict_trans2)

lemma fs_ok_new_file: "fs_ok w \<Longrightarrow> new_file p w = (r, w') \<Longrightarrow> fs_ok w'"
  by (auto simp: new_file_def empty_inode_def intro!: fs_ok_set_entry fs_ok_next fs_ok_upd_inode)

lemmas fs_ok_intros = fs_ok_set_entry fs_ok_upd_inode fs_ok_write_inode fs_ok_next fs_ok_new_file

text \<open>One \<open>read\<close> call.\<close>

lemma read_InrE:
  assumes "read n r = (Inr bs, r')" and "0 < n"
  obtains k where "0 < k" "k \<le> n" "bs = take k (rd_rest r)" "rd_rest r' = drop k (rd_rest r)"
    "rd_pos r' = rd_pos r + length bs" "rd_events r' = tl (rd_events r)"
proof (cases "rd_events r")
  case Nil
  then show ?thesis using assms by (intro that [of n]) (auto simp: read_def Let_def min.commute)
next
  case (Cons e es)
  show ?thesis
  proof (cases e)
    case Done
    then show ?thesis using assms Cons by (intro that [of n]) (auto simp: read_def Let_def min.commute)
  next
    case (Short k)
    then show ?thesis using assms Cons
      by (intro that [of "max 1 (min k n)"]) (auto simp: read_def Let_def min.commute)
  qed (use assms Cons in \<open>auto simp: read_def Let_def\<close>)
qed

lemma read_InlE:
  assumes "read n r = (Inl e, r')"
  obtains ev where "rd_events r = ev # rd_events r'" "rd_rest r' = rd_rest r" "rd_pos r' = rd_pos r"
    "e = Interrupted \<and> ev = Intr \<or> e = OtherIo \<and> \<not> ev_ok ev"
  using assms by (auto simp: read_def Let_def split: list.splits io_event.splits)

section \<open>Facts about buffered writers\<close>

text \<open>The worlds agree except for the contents of one file (and the script).\<close>

definition touches :: "nat \<Rightarrow> world \<Rightarrow> world \<Rightarrow> bool" where
  "touches i w w' \<longleftrightarrow> w_dirs w' = w_dirs w \<and> w_dir w' = w_dir w \<and> w_disk w' = w_disk w \<and> w_pend w' = w_pend w \<and>
     w_next w' = w_next w \<and> (\<forall>j. j \<noteq> i \<longrightarrow> w_inode w' j = w_inode w j)"

lemma touches_refl [simp]: "touches i w w"
  by (simp add: touches_def)

lemma touches_trans: "touches i w w' \<Longrightarrow> touches i w' w'' \<Longrightarrow> touches i w w''"
  by (simp add: touches_def)

lemma touches_events [simp]: "touches i w (w\<lparr>w_events := es\<rparr>)"
  by (simp add: touches_def)

lemma touches_write_inode [simp]: "touches i w (write_inode i pos bs (w\<lparr>w_events := es\<rparr>))"
  by (simp add: touches_def)

definition bw_ok :: "bufw \<Rightarrow> world \<Rightarrow> bool" where
  "bw_ok b w \<longleftrightarrow> bw_pos b = length (i_data (w_inode w (bw_ino b))) \<and>
     prefix (i_synced (w_inode w (bw_ino b))) (i_data (w_inode w (bw_ino b)))"

text \<open>Everything written so far, flushed or not.\<close>

definition bw_content :: "bufw \<Rightarrow> world \<Rightarrow> bytes" where
  "bw_content b w = i_data (w_inode w (bw_ino b)) @ bw_buf b"

definition bw_step :: "bufw \<Rightarrow> world \<Rightarrow> bytes \<Rightarrow> bufw \<Rightarrow> world \<Rightarrow> bool" where
  "bw_step b w bs b' w' \<longleftrightarrow> bw_ino b' = bw_ino b \<and> bw_ok b' w' \<and> bw_content b' w' = bw_content b w @ bs \<and>
     touches (bw_ino b) w w' \<and> i_synced (w_inode w' (bw_ino b)) = i_synced (w_inode w (bw_ino b)) \<and>
     w_clean w' \<and> (fs_ok w \<longrightarrow> fs_ok w')"

lemma bw_step_trans: "bw_step b w xs b' w' \<Longrightarrow> bw_step b' w' ys b'' w'' \<Longrightarrow> bw_step b w (xs @ ys) b'' w''"
  by (auto simp: bw_step_def intro: touches_trans)

lemma wp_bw_flush:
  assumes "w_clean w" and "bw_ok b w"
  shows "wp bw_flush (\<lambda>_ (b', w'). bw_step b w [] b' w' \<and> bw_buf b' = []) (\<lambda>_ _. False) (b, w)"
  using assms
  by (auto simp: wp_def bw_flush_def bw_step_def bw_ok_def bw_content_def file_write_all_clean fs_ok_write_inode)

lemma wp_bw_push:
  assumes "w_clean w" and "bw_ok b w"
  shows "wp (bw_push bs) (\<lambda>_ (b', w'). bw_step b w bs b' w') (\<lambda>_ _. False) (b, w)"
  using assms by (auto simp: wp_def bw_push_def modify_def bw_step_def bw_ok_def bw_content_def)

lemma wp_bw_direct:
  assumes "w_clean w" and "bw_ok b w" and "bw_buf b = [] \<or> bs = []"
  shows "wp (bw_direct bs) (\<lambda>_ (b', w'). bw_step b w bs b' w') (\<lambda>_ _. False) (b, w)"
  using assms
  by (auto simp: wp_def bw_direct_def bw_step_def bw_ok_def bw_content_def file_write_all_clean fs_ok_write_inode)

lemma wp_bw_write_all:
  assumes "w_clean w" and "bw_ok b w"
  shows "wp (bw_write_all X bs) (\<lambda>_ (b', w'). bw_step b w bs b' w') (\<lambda>_ _. False) (b, w)"
proof -
  have flushed: "wp (if x_bufcap X \<le> length bs then bw_direct bs else bw_push bs) (\<lambda>_ (b', w'). bw_step b w bs b' w') (\<lambda>_ _. False) (b1, w1)"
    if "bw_step b w [] b1 w1" and "x_bufcap X \<le> length bs \<longrightarrow> bw_buf b1 = [] \<or> bs = []" for b1 w1
  proof -
    have ok: "w_clean w1" "bw_ok b1 w1" using that(1) by (auto simp: bw_step_def)
    have "wp (if x_bufcap X \<le> length bs then bw_direct bs else bw_push bs) (\<lambda>_ (b', w'). bw_step b1 w1 bs b' w') (\<lambda>_ _. False) (b1, w1)"
      using that(2) wp_bw_direct [OF ok] wp_bw_push [OF ok] by simp
    then show ?thesis
      by (rule wp_conseq) (use bw_step_trans [OF that(1)] in auto)
  qed
  define spare where "spare = x_bufcap X - length (bw_buf b)"
  have self: "bw_step b w [] b w" using assms by (simp add: bw_step_def)
  show ?thesis
  proof (cases "spare < length bs")
    case True
    have "wp bw_flush (\<lambda>_. wp (if x_bufcap X \<le> length bs then bw_direct bs else bw_push bs)
        (\<lambda>_ (b', w'). bw_step b w bs b' w') (\<lambda>_ _. False)) (\<lambda>_ _. False) (b, w)"
      by (rule wp_conseq [OF wp_bw_flush [OF assms]], unfold split_paired_all prod.case) (blast intro: flushed)+
    then show ?thesis
      using True by (simp add: bw_write_all_def spare_def Let_def)
  next
    case False
    have "x_bufcap X \<le> length bs \<longrightarrow> bw_buf b = [] \<or> bs = []"
      using False by (cases bs; cases "bw_buf b") (auto simp: spare_def)
    then show ?thesis
      using False flushed [OF self] wp_bw_push [OF assms] by (auto simp: bw_write_all_def spare_def Let_def)
  qed
qed

lemma wp_bw_sync_all:
  assumes "w_clean w" and "bw_ok b w"
  shows "wp bw_sync_all (\<lambda>_ (b', w'). b' = b \<and> touches (bw_ino b) w w' \<and> w_clean w' \<and> (fs_ok w \<longrightarrow> fs_ok w') \<and>
     w_inode w' (bw_ino b) = (w_inode w (bw_ino b))\<lparr>i_synced := i_data (w_inode w (bw_ino b)), i_dirty := False\<rparr>) (\<lambda>_ _. False) (b, w)"
  using assms
  by (auto simp: wp_def bw_sync_all_def sync_all_def syscall_clean touches_def intro!: fs_ok_upd_inode)

section \<open>Facts about crashes\<close>

text \<open>An entry, live, durable or pending, leads from the path to the file.\<close>

definition reach :: "world \<Rightarrow> path \<Rightarrow> nat \<Rightarrow> bool" where
  "reach w p i \<longleftrightarrow> w_find w p = Some i \<or> w_disk w p = Some i \<or> (p, Some i) \<in> set (concat (w_pend w))"

lemma fs_ok_reach: "fs_ok w \<Longrightarrow> reach w p i \<Longrightarrow> i < w_next w"
  unfolding fs_ok_def reach_def by blast

lemma reach_events [simp]: "reach (w\<lparr>w_events := es\<rparr>) = reach w"
  by (intro ext) (simp add: reach_def)

lemma crash_entry: "crash w w' \<Longrightarrow> w_find w' p = w_disk w p \<or> (p, w_find w' p) \<in> set (concat (w_pend w))"
proof -
  assume "crash w w'"
  then obtain ops where ops: "subseq ops (w_pend w)" "map_of (w_dir w') = apply_ops ops (w_disk w)" by (auto simp: crash_def)
  have "set (concat ops) \<subseteq> set (concat (w_pend w))" using ops(1) by (auto dest: list_emb_set)
  then show ?thesis using apply_ops_cases [of ops "w_disk w" p] ops(2) by auto
qed

lemma crash_fs_ok: "fs_ok w \<Longrightarrow> crash w w' \<Longrightarrow> fs_ok w'"
proof -
  assume w: "fs_ok w" "crash w w'"
  have "i < w_next w" if "w_find w' p = Some i" for p i
    using crash_entry [OF w(2), of p] w(1) that unfolding fs_ok_def by metis
  then show ?thesis using w(2) unfolding fs_ok_def crash_def crash_inode_def by simp
qed

lemma crash_reach: "crash w w' \<Longrightarrow> reach w' p i \<Longrightarrow> reach w p i"
  using crash_entry [of w w' p] by (auto simp: reach_def crash_def simp del: map_of_eq_Some_iff)

section \<open>Facts about numbers as text\<close>

lemma of_char_digit: "d < 10 \<Longrightarrow> of_char (digit_char d) = (48 + d :: nat)"
  by (simp add: digit_char_def)

lemma parse_digits_append: "parse_digits acc (xs @ ys) = Option.bind (parse_digits acc xs) (\<lambda>a. parse_digits a ys)"
proof (induction xs arbitrary: acc)
  case (Cons c cs)
  then show ?case by (simp add: Let_def del: add_diff_assoc add_diff_assoc2 diff_add_assoc diff_add_assoc2 Nat.add_diff_assoc Nat.add_diff_assoc2)
qed simp

lemma parse_digits_zeros: "parse_digits 0 (replicate k (CHR ''0'')) = Some 0"
  by (induction k) (simp_all add: Let_def)

lemma parse_dec_digits: "n < 2 ^ 64 \<Longrightarrow> parse_digits 0 (dec_digits n) = Some n"
proof (induction n rule: dec_digits.induct)
  case (1 n)
  show ?case
  proof (cases "n < 10")
    case True
    then show ?thesis by (simp add: dec_digits.simps [of n] of_char_digit Let_def)
  next
    case False
    then have "parse_digits 0 (dec_digits (n div 10)) = Some (n div 10)"
      using "1" by simp
    moreover have "n div 10 * 10 + n mod 10 = n" by simp
    ultimately show ?thesis
      using False "1.prems" by (simp add: dec_digits.simps [of n] parse_digits_append of_char_digit Let_def)
  qed
qed

lemma dec_digits_digit: "c \<in> set (dec_digits n) \<Longrightarrow> \<exists>d<10. c = digit_char d"
proof (induction n rule: dec_digits.induct)
  case (1 n)
  have "n mod 10 < 10" by simp
  with 1 show ?case by (cases "n < 10") (auto simp: dec_digits.simps [of n] intro: exI [of _ "n mod 10"])
qed

lemma plus_not_digit: "d < 10 \<Longrightarrow> digit_char d \<noteq> CHR ''+''"
proof
  assume "d < 10" and "digit_char d = CHR ''+''"
  then have "of_char (CHR ''+'') = (48 + d :: nat)" using of_char_digit [of d] by simp
  then show False by simp
qed

lemma parse_u64_show_u64_20: "parse_u64 (show_u64_20 n) = Some n"
proof -
  define s where "s = show_u64_20 n"
  have n: "unat n < 2 ^ 64" using unsigned_less [of n] by simp
  have digits: "parse_digits 0 s = Some (unat n)"
    using parse_dec_digits [OF n] by (simp add: s_def show_u64_20_def Let_def parse_digits_append parse_digits_zeros)
  have "dec_digits (unat n) \<noteq> []" by (subst dec_digits.simps) simp
  then obtain c cs where s: "s = c # cs" by (cases s) (auto simp: s_def show_u64_20_def Let_def)
  then have "c \<in> set s" by simp
  then have "c = CHR ''0'' \<or> c \<in> set (dec_digits (unat n))" by (auto simp: s_def show_u64_20_def Let_def split: if_splits)
  then have "c \<noteq> CHR ''+''" using dec_digits_digit plus_not_digit by fastforce
  then show ?thesis using digits s by (simp add: parse_u64_def s_def [symmetric] Let_def)
qed

lemma show_u64_20_inject [simp]: "show_u64_20 a = show_u64_20 b \<longleftrightarrow> a = b"
  by (metis option.inject parse_u64_show_u64_20)

lemma strip_prefix_append [simp]: "strip_prefix p (p @ s) = Some s"
  by (simp add: strip_prefix_def)

lemma strip_suffix_append [simp]: "strip_suffix p (s @ p) = Some s"
  by (simp add: strip_suffix_def)

lemma strip_prefix_Some: "strip_prefix p s = Some t \<longleftrightarrow> s = p @ t"
proof
  assume "strip_prefix p s = Some t"
  then have "take (length p) s = p" and "drop (length p) s = t" by (simp_all add: strip_prefix_def split: if_splits)
  then show "s = p @ t" using append_take_drop_id [of "length p" s] by simp
qed simp

lemma strip_suffix_Some: "strip_suffix p s = Some t \<longleftrightarrow> s = t @ p"
proof
  assume "strip_suffix p s = Some t"
  then obtain r where "rev s = rev p @ r" and "t = rev r" by (auto simp: strip_suffix_def strip_prefix_Some)
  then have "rev (rev s) = t @ p" by (simp only: rev_append rev_rev_ident)
  then show "s = t @ p" by simp
qed simp

section \<open>Sample worlds\<close>

text \<open>An empty directory, and a directory with one file that is safely on disk; both with a script of their own.\<close>

definition empty_world :: "path \<Rightarrow> io_event list \<Rightarrow> world" where
  "empty_world d es = \<lparr>w_dirs = [d], w_dir = [], w_disk = Map.empty, w_pend = [], w_inode = (\<lambda>_. empty_inode), w_next = 0,
     w_events = es, w_ticks = 0, w_draws = 0\<rparr>"

definition file_world :: "path \<Rightarrow> bytes \<Rightarrow> io_event list \<Rightarrow> world" where
  "file_world p bs es = \<lparr>w_dirs = [butlast p], w_dir = [(p, 0)], w_disk = [p \<mapsto> 0], w_pend = [],
     w_inode = (\<lambda>_. \<lparr>i_data = bs, i_synced = bs, i_dirty = False\<rparr>), w_next = 1, w_events = es, w_ticks = 0, w_draws = 0\<rparr>"

lemma empty_world_fs_ok [simp]: "fs_ok (empty_world d es)"
  by (simp add: fs_ok_def empty_world_def empty_inode_def)

lemma file_world_fs_ok [simp]: "fs_ok (file_world p bs es)"
  by (simp add: fs_ok_def file_world_def)

lemma file_world_fields [simp]:
  "w_find (file_world p bs es) p = Some 0" "i_data (w_inode (file_world p bs es) i) = bs" "w_events (file_world p bs es) = es"
  by (simp_all add: file_world_def)

lemma empty_world_fields [simp]:
  "w_find (empty_world d es) p = None" "w_dirs (empty_world d es) = [d]" "w_events (empty_world d es) = es"
  by (simp_all add: empty_world_def)

end
