(* ===== verification/Atomic_File.thy ===== *)
theory Atomic_File
  imports Platform
begin

text \<open>
  The write-temp, \<open>fsync\<close>, rename, \<open>fsync\<close>-directory sequence shared by \<^verbatim>\<open>raft/state.rs\<close> (the hard state)
  and \<^verbatim>\<open>store/snapshot.rs\<close> (snapshots), and why it replaces a file atomically: whatever fails
  and whenever the power goes, the file holds one of the values it was given, whole.
\<close>

section \<open>Model\<close>

text \<open>\<open>write_all\<close> on a file just opened.\<close>

definition write_file :: "nat \<Rightarrow> bytes \<Rightarrow> unit io" where
  "write_file i bs w = (case file_write_all i 0 bs w of (r, _, w') \<Rightarrow> (r, w'))"

definition install_file :: "path \<Rightarrow> path \<Rightarrow> bytes \<Rightarrow> unit io" where
  "install_file tmp path bs =
     andThen (open_create_truncate tmp) (\<lambda>f.
     andThen (write_file f bs) (\<lambda>_.
     andThen (sync_all f) (\<lambda>_.
     rename_file tmp path)))"

definition replace_file :: "path \<Rightarrow> path \<Rightarrow> bytes \<Rightarrow> unit io" where
  "replace_file tmp path bs = andThen (install_file tmp path bs) (\<lambda>_. sync_dir (butlast path))"

section \<open>The invariant\<close>

text \<open>An entry value is harmless: absent if absence is allowed, or a synced file with allowed contents.\<close>

definition entry_ok :: "world \<Rightarrow> bytes option set \<Rightarrow> nat option \<Rightarrow> bool" where
  "entry_ok w vals v = (case v of None \<Rightarrow> None \<in> vals | Some i \<Rightarrow> \<not> i_dirty (w_inode w i) \<and> Some (i_data (w_inode w i)) \<in> vals)"

text \<open>The values the entry for \<open>p\<close> has or may have after a crash.\<close>

definition entries :: "world \<Rightarrow> path \<Rightarrow> nat option set" where
  "entries w p = {w_find w p, w_disk w p} \<union> {v. (p, v) \<in> set (concat (w_pend w))}"

text \<open>
  The temporary name is never a second name of a file that the real name may lead to, neither now nor
  after a crash.
\<close>

definition atomic_ok :: "world \<Rightarrow> path \<Rightarrow> path \<Rightarrow> bytes option set \<Rightarrow> bool" where
  "atomic_ok w tmp path vals \<longleftrightarrow> fs_ok w \<and> tmp \<noteq> path \<and> tmp \<noteq> [] \<and> path \<noteq> [] \<and> butlast tmp = butlast path \<and>
     (\<forall>v\<in>entries w path. entry_ok w vals v) \<and>
     (\<forall>j. w_find w tmp = Some j \<longrightarrow> Some j \<notin> entries w path) \<and>
     (\<forall>ops j. subseq ops (w_pend w) \<longrightarrow> apply_ops ops (w_disk w) tmp = Some j \<longrightarrow> apply_ops ops (w_disk w) path \<noteq> Some j)"

lemma entries_events [simp]: "entries (w\<lparr>w_events := es\<rparr>) = entries w"
  by (intro ext) (simp add: entries_def)

lemma entry_ok_events [simp]: "entry_ok (w\<lparr>w_events := es\<rparr>) = entry_ok w"
  by (intro ext) (simp add: entry_ok_def split: option.splits)

lemma atomic_ok_events [simp]: "atomic_ok (w\<lparr>w_events := es\<rparr>) = atomic_ok w"
  by (intro ext) (simp add: atomic_ok_def)

lemma atomic_ok_mono: "atomic_ok w tmp path vals \<Longrightarrow> vals \<subseteq> vals' \<Longrightarrow> atomic_ok w tmp path vals'"
  unfolding atomic_ok_def entry_ok_def by (fastforce split: option.splits)

lemma pop_event_events: "\<exists>e es. pop_event w = (e, w\<lparr>w_events := es\<rparr>)"
proof (cases "w_events w")
  case Nil
  then have "pop_event w = (Done, w\<lparr>w_events := []\<rparr>)" by (simp add: pop_event_def)
  then show ?thesis by blast
qed (auto simp: pop_event_def)

text \<open>A system call either fails and changes nothing, or does its work.\<close>

lemma wp_syscall:
  assumes "\<And>es. wp f Q E (w\<lparr>w_events := es\<rparr>)" and "\<And>es. E (Io OtherIo) (w\<lparr>w_events := es\<rparr>)"
  shows "wp (syscall f) Q E w"
proof -
  obtain e es where "pop_event w = (e, w\<lparr>w_events := es\<rparr>)" using pop_event_events by blast
  then show ?thesis using assms by (auto simp: wp_def syscall_def)
qed

text \<open>A change to the contents of a file that the real name cannot lead to.\<close>

lemma atomic_ok_upd_inode:
  assumes "atomic_ok w tmp path vals" and "Some i \<notin> entries w path" and "fs_ok (upd_inode i f w)"
  shows "atomic_ok (upd_inode i f w) tmp path vals"
proof -
  have "entries (upd_inode i f w) p = entries w p" for p by (simp add: entries_def)
  moreover have "entry_ok (upd_inode i f w) vals v" if "v \<in> entries w path" for v
    using that assms(1,2) unfolding atomic_ok_def entry_ok_def by (cases v) force+
  ultimately show ?thesis using assms(1,3) by (simp add: atomic_ok_def)
qed

lemma subseq_Cons_cases: "subseq xs (y # ys) \<Longrightarrow> subseq xs ys \<or> (\<exists>zs. xs = y # zs \<and> subseq zs ys)"
  by (cases xs) (auto split: if_splits)

lemma apply_ops_fresh:
  assumes "fs_ok w" and "subseq ops (w_pend w)" and "apply_ops ops (w_disk w) p = Some i"
  shows "i < w_next w"
proof -
  have "set (concat ops) \<subseteq> set (concat (w_pend w))" using assms(2) by (auto dest: list_emb_set)
  then have "reach w p i" using apply_ops_cases [of ops "w_disk w" p] assms(3) by (auto simp: reach_def)
  then show ?thesis using fs_ok_reach [OF assms(1)] by blast
qed

lemma atomic_ok_new_file:
  assumes "atomic_ok w tmp path vals" and "new_file tmp w = (Inr i, w')"
  shows "atomic_ok w' tmp path vals \<and> w_find w' tmp = Some i \<and> i_data (w_inode w' i) = []"
proof -
  have ok: "fs_ok w" "tmp \<noteq> path" using assms(1) by (simp_all add: atomic_ok_def)
  have w': "i = w_next w" "w_find w' tmp = Some i" "w_find w' path = w_find w path" "w_disk w' = w_disk w" "w_pend w' = [(tmp, Some i)] # w_pend w"
    "w_inode w' = (w_inode w)(i := empty_inode)"
    using assms(2) ok(2) by (auto simp: new_file_def)
  have ent: "entries w' path = entries w path" using w'(3-5) ok(2) by (auto simp: entries_def)
  have fresh: "Some i \<notin> entries w path"
    using fs_ok_reach [OF ok(1), of path i] w'(1) by (auto simp: entries_def reach_def)
  have "entry_ok w' vals v" if "v \<in> entries w path" for v
    using that assms(1) fresh w'(6) unfolding atomic_ok_def entry_ok_def by (cases v) force+
  moreover have "apply_ops ops (w_disk w') path \<noteq> Some j" if "subseq ops (w_pend w')" "apply_ops ops (w_disk w') tmp = Some j" for ops j
    using subseq_Cons_cases [OF that(1) [unfolded w'(5)]]
  proof
    assume "subseq ops (w_pend w)"
    then show ?thesis using assms(1) that(2) w'(4) by (auto simp: atomic_ok_def)
  next
    assume "\<exists>zs. ops = [(tmp, Some i)] # zs \<and> subseq zs (w_pend w)"
    then show ?thesis using that(2) ok w'(1,4) apply_ops_fresh [OF ok(1), of _ path j] by auto
  qed
  ultimately show ?thesis
    using assms ent fresh w' fs_ok_new_file [OF ok(1) assms(2)] unfolding atomic_ok_def by (auto simp: empty_inode_def simp del: map_of_eq_Some_iff)
qed

section \<open>The steps\<close>

lemma wp_open_tmp:
  assumes "atomic_ok w tmp path vals"
  shows "wp (open_create_truncate tmp) (\<lambda>i w'. atomic_ok w' tmp path vals \<and> w_find w' tmp = Some i \<and> i_data (w_inode w' i) = [])
     (\<lambda>_ w'. atomic_ok w' tmp path vals) w"
  unfolding open_create_truncate_def
proof (rule wp_syscall)
  fix es
  let ?w = "w\<lparr>w_events := es\<rparr>"
  have ok: "atomic_ok ?w tmp path vals" "fs_ok ?w" using assms by (simp_all add: atomic_ok_def)
  show "wp (\<lambda>w. case w_find w tmp of
       Some i \<Rightarrow> (Inr i, upd_inode i (\<lambda>n. n\<lparr>i_data := [], i_dirty := True\<rparr>) w)
     | None \<Rightarrow> if butlast tmp \<in> set (w_dirs w) then new_file tmp w else (Inl (Io NotFound), w))
     (\<lambda>i w'. atomic_ok w' tmp path vals \<and> w_find w' tmp = Some i \<and> i_data (w_inode w' i) = []) (\<lambda>_ w'. atomic_ok w' tmp path vals) ?w"
  proof (cases "w_find ?w tmp")
    case None
    obtain i w' where nf: "new_file tmp ?w = (Inr i, w')" by (simp add: new_file_def)
    show ?thesis using None ok(1) atomic_ok_new_file [OF ok(1) nf] nf by (simp add: wp_def)
  next
    case (Some i)
    then have "Some i \<notin> entries ?w path" using ok(1) by (auto simp: atomic_ok_def)
    moreover have "fs_ok (upd_inode i (\<lambda>n. n\<lparr>i_data := [], i_dirty := True\<rparr>) ?w)" using ok(2) by (intro fs_ok_upd_inode) simp_all
    ultimately show ?thesis using Some atomic_ok_upd_inode [OF ok(1)] by (simp add: wp_def)
  qed
qed (use assms in simp)

lemma wp_write_tmp:
  assumes "atomic_ok w tmp path vals" and "w_find w tmp = Some i" and "i_data (w_inode w i) = []"
  shows "wp (write_file i bs) (\<lambda>_ w'. atomic_ok w' tmp path vals \<and> w_find w' tmp = Some i \<and> i_data (w_inode w' i) = bs)
     (\<lambda>_ w'. atomic_ok w' tmp path vals) w"
proof -
  obtain e es where e: "pop_event w = (e, w\<lparr>w_events := es\<rparr>)" using pop_event_events by blast
  have ok: "atomic_ok (w\<lparr>w_events := es\<rparr>) tmp path vals" "fs_ok (w\<lparr>w_events := es\<rparr>)" "Some i \<notin> entries (w\<lparr>w_events := es\<rparr>) path"
    using assms(1,2) by (auto simp: atomic_ok_def)
  have "atomic_ok (write_inode i 0 ys (w\<lparr>w_events := es\<rparr>)) tmp path vals" for ys
    using atomic_ok_upd_inode [OF ok(1,3)] fs_ok_write_inode [OF ok(2), of i 0 ys] unfolding write_inode_def by blast
  then show ?thesis using assms(2,3) e
    by (cases e) (simp_all add: wp_def write_file_def file_write_all_def)
qed

lemma wp_sync_tmp:
  assumes "atomic_ok w tmp path vals" and "w_find w tmp = Some i" and "i_data (w_inode w i) = bs"
  shows "wp (sync_all i) (\<lambda>_ w'. atomic_ok w' tmp path vals \<and> w_find w' tmp = Some i \<and> i_data (w_inode w' i) = bs \<and> \<not> i_dirty (w_inode w' i))
     (\<lambda>_ w'. atomic_ok w' tmp path vals) w"
  unfolding sync_all_def
proof (rule wp_syscall)
  fix es
  let ?w = "w\<lparr>w_events := es\<rparr>" and ?f = "\<lambda>f :: inode. f\<lparr>i_synced := i_data f, i_dirty := False\<rparr>"
  have ok: "atomic_ok ?w tmp path vals" "fs_ok ?w" "Some i \<notin> entries ?w path" using assms(1,2) by (auto simp: atomic_ok_def)
  have "fs_ok (upd_inode i ?f ?w)" using ok(2) by (intro fs_ok_upd_inode) simp_all
  then show "wp (\<lambda>w. (Inr (), upd_inode i ?f w)) (\<lambda>_ w'. atomic_ok w' tmp path vals \<and> w_find w' tmp = Some i \<and> i_data (w_inode w' i) = bs \<and>
      \<not> i_dirty (w_inode w' i)) (\<lambda>_ w'. atomic_ok w' tmp path vals) ?w"
    using atomic_ok_upd_inode [OF ok(1,3)] assms(2,3) by (simp add: wp_def)
qed (use assms(1) in simp)

definition renamed :: "path \<Rightarrow> path \<Rightarrow> nat \<Rightarrow> world \<Rightarrow> world" where
  "renamed a b i w = w\<lparr>w_dir := AList.delete a (AList.update b i (w_dir w)), w_pend := [(a, None), (b, Some i)] # w_pend w\<rparr>"

lemma renamed_fields [simp]:
  "map_of (w_dir (renamed a b i w)) = (map_of (w_dir w))(b := Some i, a := None)" "w_inode (renamed a b i w) = w_inode w"
  "w_disk (renamed a b i w) = w_disk w" "w_pend (renamed a b i w) = [(a, None), (b, Some i)] # w_pend w" "w_next (renamed a b i w) = w_next w"
  "w_dirs (renamed a b i w) = w_dirs w" "w_events (renamed a b i w) = w_events w"
  by (rule ext) (simp_all add: renamed_def delete_conv' update_conv')

lemma fs_ok_renamed:
  assumes "fs_ok w" and "w_find w a = Some i" and "a \<noteq> b"
  shows "fs_ok (renamed a b i w)"
proof -
  have i: "i < w_next w" using fs_ok_reach [OF assms(1), of a i] assms(2) by (simp add: reach_def)
  have "distinct (map fst (w_dir (renamed a b i w)))"
    using fs_ok_distinct [OF assms(1)] by (simp add: renamed_def distinct_delete distinct_update)
  then show ?thesis using assms i by (auto simp: fs_ok_def fun_upd_twist simp del: map_of_eq_Some_iff split: if_splits)
qed

lemma rename_file_renamed: "rename_file a b = syscall (\<lambda>w. case w_find w a of None \<Rightarrow> (Inl (Io NotFound), w) | Some i \<Rightarrow> (Inr (), renamed a b i w))"
  by (simp only: rename_file_def renamed_def)

lemma wp_rename_tmp:
  assumes "atomic_ok w tmp path vals" and "w_find w tmp = Some i" and "i_data (w_inode w i) = bs" and "\<not> i_dirty (w_inode w i)"
  shows "wp (rename_file tmp path) (\<lambda>_ w'. atomic_ok w' tmp path (insert (Some bs) vals) \<and> w_find w' path = Some i \<and> w_find w' tmp = None \<and>
       i_data (w_inode w' i) = bs \<and> \<not> i_dirty (w_inode w' i))
     (\<lambda>_ w'. atomic_ok w' tmp path vals) w"
  unfolding rename_file_renamed
proof (rule wp_syscall)
  fix es
  define w0 where "w0 = w\<lparr>w_events := es\<rparr>"
  define op where "op = [(tmp, None), (path, Some i)]"
  define w' where "w' = renamed tmp path i w0"
  have ok: "atomic_ok w0 tmp path vals" "fs_ok w0" "tmp \<noteq> path" and tmp: "w_find w0 tmp = Some i" using assms(1,2) by (auto simp: atomic_ok_def w0_def)
  have fs: "fs_ok w'" using fs_ok_renamed [OF ok(2) tmp ok(3)] by (simp add: w'_def)
  have ent: "entries w' path \<subseteq> insert (Some i) (entries w0 path)" using ok(3) by (auto simp: entries_def w'_def)
  have "entry_ok w' (insert (Some bs) vals) v" if "v \<in> entries w' path" for v
  proof -
    have "v = Some i \<or> entry_ok w0 vals v" using that ent ok(1) by (auto simp: atomic_ok_def)
    then show ?thesis using assms(3,4) by (auto simp: entry_ok_def w'_def w0_def split: option.splits)
  qed
  moreover have "apply_ops ops (w_disk w') path \<noteq> Some j" if "subseq ops (w_pend w')" "apply_ops ops (w_disk w') tmp = Some j" for ops j
  proof -
    have "subseq ops (op # w_pend w0)" using that(1) by (simp add: w'_def op_def)
    from subseq_Cons_cases [OF this] show ?thesis
    proof
      assume "subseq ops (w_pend w0)"
      then show ?thesis using ok(1) that(2) by (auto simp: atomic_ok_def w'_def)
    next
      assume "\<exists>zs. ops = op # zs \<and> subseq zs (w_pend w0)"
      then show ?thesis using that(2) by (auto simp: op_def)
    qed
  qed
  ultimately have "atomic_ok w' tmp path (insert (Some bs) vals)"
    using fs ok(1) by (auto simp: atomic_ok_def w'_def)
  then show "wp (\<lambda>w. case w_find w tmp of None \<Rightarrow> (Inl (Io NotFound), w) | Some i \<Rightarrow> (Inr (), renamed tmp path i w))
     (\<lambda>_ w'. atomic_ok w' tmp path (insert (Some bs) vals) \<and> w_find w' path = Some i \<and> w_find w' tmp = None \<and> i_data (w_inode w' i) = bs \<and> \<not> i_dirty (w_inode w' i))
     (\<lambda>_ w'. atomic_ok w' tmp path vals) (w\<lparr>w_events := es\<rparr>)"
    using tmp ok(3) assms(3,4) by (simp add: wp_def w0_def [symmetric] w'_def [symmetric]) (simp add: w'_def w0_def)
qed (use assms(1) in simp)

lemma apply_ops_filter:
  "apply_ops (map (filter (\<lambda>(p, v). P p)) ops) m p = (if P p then apply_ops ops m p else m p)"
proof (induction ops)
  case (Cons op ops)
  have "apply_op (filter (\<lambda>(p, v). P p) op) m1 p = (if P p then apply_op op m2 p else m1 p)" if "P p \<Longrightarrow> m1 p = m2 p" for m1 m2
    using that by (induction op) auto
  then show ?case using Cons by simp
qed simp

lemma apply_op_cong: "m1 p = m2 p \<Longrightarrow> apply_op op m1 p = apply_op op m2 p"
  by (induction op) auto

lemma apply_ops_cong: "m1 p = m2 p \<Longrightarrow> apply_ops ops m1 p = apply_ops ops m2 p"
proof (induction ops)
  case (Cons op ops)
  from apply_op_cong [of "apply_ops ops m1" p "apply_ops ops m2" op] Cons show ?case by simp
qed simp

lemma apply_ops_untouched: "(\<And>v. (p, v) \<notin> set (concat ops)) \<Longrightarrow> apply_ops ops m p = m p"
  using apply_ops_cases [of ops m p] by blast

lemma fs_ok_sync_dir:
  assumes "fs_ok w"
  shows "fs_ok (w\<lparr>w_disk := (\<lambda>p. if p \<noteq> [] \<and> butlast p = d then w_find w p else w_disk w p),
     w_pend := map (filter (\<lambda>(p, _). \<not> (p \<noteq> [] \<and> butlast p = d))) (w_pend w)\<rparr>)"
proof -
  let ?P = "\<lambda>p. \<not> (p \<noteq> [] \<and> butlast p = d)" and ?m = "\<lambda>p. if p \<noteq> [] \<and> butlast p = d then w_find w p else w_disk w p"
  have "apply_ops ops ?m p = apply_ops ops (w_disk w) p" if "?P p" for p ops
    by (rule apply_ops_cong) (use that in auto)
  then have "apply_ops (map (filter (\<lambda>(p, _). ?P p)) (w_pend w)) ?m = map_of (w_dir w)"
    using assms by (intro ext) (auto simp: apply_ops_filter fs_ok_def)
  then show ?thesis using assms by (auto simp: fs_ok_def simp del: map_of_eq_Some_iff) blast+
qed

lemma wp_sync_parent:
  assumes "atomic_ok w tmp path vals" and "w_find w path = Some i" and "i_data (w_inode w i) = bs" and "\<not> i_dirty (w_inode w i)"
  shows "wp (sync_dir (butlast path)) (\<lambda>_ w'. atomic_ok w' tmp path {Some bs}) (\<lambda>_ w'. atomic_ok w' tmp path vals) w"
  unfolding sync_dir_def
proof (rule wp_syscall)
  fix es
  define w0 where "w0 = w\<lparr>w_events := es\<rparr>"
  define P where "P = (\<lambda>p :: path. \<not> (p \<noteq> [] \<and> butlast p = butlast path))"
  define w' where "w' = w0\<lparr>w_disk := (\<lambda>p. if p \<noteq> [] \<and> butlast p = butlast path then w_find w0 p else w_disk w0 p),
     w_pend := map (filter (\<lambda>(p, _). P p)) (w_pend w0)\<rparr>"
  have ok: "atomic_ok w0 tmp path vals" "fs_ok w0" and here: "\<not> P path" "\<not> P tmp"
    using assms(1) by (auto simp: atomic_ok_def w0_def P_def)
  have fs: "fs_ok w'" using fs_ok_sync_dir [OF ok(2), of "butlast path"] by (simp add: w'_def P_def)
  have ent: "entries w' path = {Some i}" using here assms(2) by (auto simp: entries_def w'_def P_def w0_def)
  have app: "apply_ops ops (w_disk w') p = w_find w0 p" if "subseq ops (w_pend w')" "\<not> P p" for ops p
  proof -
    have "(p, v) \<notin> set (concat (w_pend w'))" for v using that(2) by (auto simp: w'_def)
    then have "(p, v) \<notin> set (concat ops)" for v using that(1) by (auto dest: list_emb_set)
    then have "apply_ops ops (w_disk w') p = w_disk w' p" by (rule apply_ops_untouched)
    then show ?thesis using that(2) by (simp add: w'_def P_def)
  qed
  have "Some i \<in> entries w0 path" using assms(2) by (simp add: entries_def w0_def)
  then have "w_find w0 tmp \<noteq> Some i" using ok(1) by (auto simp: atomic_ok_def)
  then have "atomic_ok w' tmp path {Some bs}"
    using fs ok(1) ent app here assms(2-4) by (auto simp: atomic_ok_def entry_ok_def w'_def w0_def)
  then show "wp (\<lambda>w. (Inr (), w\<lparr>w_disk := (\<lambda>p. if p \<noteq> [] \<and> butlast p = butlast path then w_find w p else w_disk w p),
       w_pend := map (filter (\<lambda>(p, _). \<not> (p \<noteq> [] \<and> butlast p = butlast path))) (w_pend w)\<rparr>))
     (\<lambda>_ w'. atomic_ok w' tmp path {Some bs}) (\<lambda>_ w'. atomic_ok w' tmp path vals) (w\<lparr>w_events := es\<rparr>)"
    unfolding w'_def P_def w0_def by (simp add: wp_def)
qed (use assms(1) in simp)

section \<open>Replacement is atomic\<close>

lemma wp_replace_file:
  assumes "atomic_ok w tmp path vals"
  shows "wp (replace_file tmp path bs) (\<lambda>_ w'. atomic_ok w' tmp path {Some bs}) (\<lambda>_ w'. atomic_ok w' tmp path (insert (Some bs) vals)) w"
  unfolding replace_file_def install_file_def wp_andThen
proof (rule wp_conseq [OF wp_open_tmp [OF assms]], elim conjE)
  fix i w1 assume "atomic_ok w1 tmp path vals" "w_find w1 tmp = Some i" "i_data (w_inode w1 i) = []"
  then show "wp (write_file i bs) (\<lambda>x. wp (sync_all i) (\<lambda>x. wp (rename_file tmp path) (\<lambda>x. wp (sync_dir (butlast path))
      (\<lambda>_ w'. atomic_ok w' tmp path {Some bs}) (\<lambda>_ w'. atomic_ok w' tmp path (insert (Some bs) vals))) (\<lambda>_ w'. atomic_ok w' tmp path (insert (Some bs) vals)))
      (\<lambda>_ w'. atomic_ok w' tmp path (insert (Some bs) vals))) (\<lambda>_ w'. atomic_ok w' tmp path (insert (Some bs) vals)) w1"
  proof (rule wp_conseq [OF wp_write_tmp], elim conjE)
    fix w2 assume "atomic_ok w2 tmp path vals" "w_find w2 tmp = Some i" "i_data (w_inode w2 i) = bs"
    then show "wp (sync_all i) (\<lambda>x. wp (rename_file tmp path) (\<lambda>x. wp (sync_dir (butlast path))
      (\<lambda>_ w'. atomic_ok w' tmp path {Some bs}) (\<lambda>_ w'. atomic_ok w' tmp path (insert (Some bs) vals))) (\<lambda>_ w'. atomic_ok w' tmp path (insert (Some bs) vals)))
      (\<lambda>_ w'. atomic_ok w' tmp path (insert (Some bs) vals)) w2"
    proof (rule wp_conseq [OF wp_sync_tmp], elim conjE)
      fix w3 assume "atomic_ok w3 tmp path vals" "w_find w3 tmp = Some i" "i_data (w_inode w3 i) = bs" "\<not> i_dirty (w_inode w3 i)"
      then show "wp (rename_file tmp path) (\<lambda>x. wp (sync_dir (butlast path)) (\<lambda>_ w'. atomic_ok w' tmp path {Some bs})
         (\<lambda>_ w'. atomic_ok w' tmp path (insert (Some bs) vals))) (\<lambda>_ w'. atomic_ok w' tmp path (insert (Some bs) vals)) w3"
        by (rule wp_conseq [OF wp_rename_tmp]) (blast intro: wp_sync_parent atomic_ok_mono)+
    qed (blast intro: atomic_ok_mono)
  qed (blast intro: atomic_ok_mono)
qed (blast intro: atomic_ok_mono)

definition file_content :: "world \<Rightarrow> path \<Rightarrow> bytes option" where
  "file_content w p = map_option (\<lambda>i. i_data (w_inode w i)) (w_find w p)"

lemma file_content_events [simp]: "file_content (w\<lparr>w_events := es\<rparr>) = file_content w"
  by (intro ext) (simp add: file_content_def)

lemma atomic_ok_content: "atomic_ok w tmp path vals \<Longrightarrow> file_content w path \<in> vals"
  by (cases "w_find w path") (auto simp: atomic_ok_def entries_def entry_ok_def file_content_def)

lemma atomic_ok_crash:
  assumes "atomic_ok w tmp path vals" and "crash w w'"
  shows "atomic_ok w' tmp path vals"
proof -
  obtain ops where ops: "subseq ops (w_pend w)" "map_of (w_dir w') = apply_ops ops (w_disk w)" using assms(2) by (auto simp: crash_def)
  have w': "w_disk w' = map_of (w_dir w')" "w_pend w' = []" "fs_ok w'"
    using assms crash_fs_ok [of w w'] by (auto simp: crash_def atomic_ok_def)
  have ent: "entries w' p = {w_find w' p}" for p using w'(1,2) by (auto simp: entries_def)
  have "w_find w' path \<in> entries w path" using crash_entry [OF assms(2), of path] by (auto simp: entries_def)
  then have "entry_ok w vals (w_find w' path)" using assms(1) by (auto simp: atomic_ok_def)
  then have "entry_ok w' vals (w_find w' path)"
    using assms(2) unfolding entry_ok_def crash_def crash_inode_def by (auto split: option.splits simp del: map_of_eq_Some_iff)
  moreover have sep: "w_find w' path \<noteq> Some j" if "w_find w' tmp = Some j" for j
    using that ops assms(1) by (auto simp: atomic_ok_def simp del: map_of_eq_Some_iff)
  moreover have "apply_ops ops' (w_disk w') path \<noteq> Some j" if "subseq ops' (w_pend w')" "apply_ops ops' (w_disk w') tmp = Some j" for ops' j
    using that sep w'(1,2) by (auto dest: list_emb_Nil2 simp del: map_of_eq_Some_iff)
  ultimately show ?thesis
    using assms(1) w'(3) unfolding atomic_ok_def ent by (metis singletonD)
qed

text \<open>When nothing fails the replacement succeeds.\<close>

lemma replace_file_run:
  assumes "atomic_ok w tmp path vals" and "w_clean w" and "butlast path \<in> set (w_dirs w)"
  shows "\<exists>w'. replace_file tmp path bs w = (Inr (), w') \<and> w_clean w' \<and> w_dirs w' = w_dirs w \<and> atomic_ok w' tmp path {Some bs} \<and>
     file_content w' path = Some bs"
proof -
  have "butlast tmp = butlast path" using assms(1) by (simp add: atomic_ok_def)
  then have "\<exists>w'. replace_file tmp path bs w = (Inr (), w') \<and> w_clean w' \<and> w_dirs w' = w_dirs w"
    using assms(2,3)
    by (cases "w_find w tmp") (simp_all add: replace_file_def install_file_def andThen_def open_create_truncate_def syscall_clean write_file_def file_write_all_clean
        sync_all_def rename_file_renamed sync_dir_def new_file_def)
  then obtain w' where w': "replace_file tmp path bs w = (Inr (), w')" "w_clean w'" "w_dirs w' = w_dirs w" by blast
  have "atomic_ok w' tmp path {Some bs}" using wpD [OF wp_replace_file [OF assms(1)] w'(1)] .
  then show ?thesis using w' atomic_ok_content by blast
qed

end
