(* ===== verification/Program_Invariants.thy ===== *)
theory Program_Invariants
  imports Prelude
begin

text \<open>
  Invariants of programs in the monad of the prelude, with syntax-directed rules. \<open>preserves P m R\<close>: started in a state with \<open>P\<close>, the program ends in one, whether it succeeds or fails, and a
  value it returns satisfies \<open>R\<close>.
\<close>

named_theorems preserves_intros \<open>syntax-directed rules for invariants of programs\<close>

definition preserves :: "('s \<Rightarrow> bool) \<Rightarrow> ('e, 's, 'a) prog \<Rightarrow> ('a \<Rightarrow> bool) \<Rightarrow> bool" where
  "preserves P m R \<longleftrightarrow> (\<forall>s. P s \<longrightarrow> P (snd (m s)) \<and> (\<forall>x. fst (m s) = Inr x \<longrightarrow> R x))"

abbreviation anything :: "'a \<Rightarrow> bool" where
  "anything \<equiv> \<lambda>_. True"

lemma preservesI: "(\<And>s. P s \<Longrightarrow> wp m (\<lambda>x s'. P s' \<and> R x) (\<lambda>_. P) s) \<Longrightarrow> preserves P m R"
  unfolding preserves_def wp_def by (fastforce split: prod.splits sum.splits)

lemma preservesD: "preserves P m R \<Longrightarrow> P s \<Longrightarrow> m s = (r, s') \<Longrightarrow> P s'"
  unfolding preserves_def by (metis snd_conv)

lemma preserves_result: "preserves P m R \<Longrightarrow> P s \<Longrightarrow> m s = (Inr x, s') \<Longrightarrow> R x"
  unfolding preserves_def by (metis fst_conv)

lemma preserves_wp: "preserves P m R \<Longrightarrow> P s \<Longrightarrow> wp m (\<lambda>x s'. P s' \<and> R x) (\<lambda>_. P) s"
  unfolding preserves_def wp_def by (fastforce split: prod.splits sum.splits)

lemma preserves_weaken: "preserves P m R \<Longrightarrow> (\<And>x. R x \<Longrightarrow> R' x) \<Longrightarrow> preserves P m R'"
  by (auto simp: preserves_def)

lemma preserves_ret [preserves_intros]: "R x \<Longrightarrow> preserves P (ret x) R"
  by (simp add: preserves_def ret_def)

lemma preserves_throw [preserves_intros]: "preserves P (throw e) R"
  by (simp add: preserves_def throw_def)

lemma preserves_get_st: "preserves P get_st P"
  by (simp add: preserves_def get_st_def)

lemma preserves_modify [preserves_intros]: "(\<And>s. P s \<Longrightarrow> P (f s)) \<Longrightarrow> preserves P (modify f) anything"
  by (simp add: preserves_def modify_def)

lemma preserves_andThen:
  assumes "preserves P m R" and "\<And>x. R x \<Longrightarrow> preserves P (f x) R'"
  shows "preserves P (andThen m f) R'"
proof (rule preservesI)
  fix s assume "P s"
  then have "wp m (\<lambda>x s'. P s' \<and> R x) (\<lambda>_. P) s" using preserves_wp [OF assms(1)] by simp
  then have "wp m (\<lambda>x. wp (f x) (\<lambda>x s'. P s' \<and> R' x) (\<lambda>_. P)) (\<lambda>_. P) s"
    by (rule wp_conseq) (use preserves_wp [OF assms(2)] in auto)
  then show "wp (andThen m f) (\<lambda>x s'. P s' \<and> R' x) (\<lambda>_. P) s" by simp
qed

lemma preserves_andThen_anything [preserves_intros]:
  "preserves P m anything \<Longrightarrow> (\<And>x. preserves P (f x) R) \<Longrightarrow> preserves P (andThen m f) R"
  by (rule preserves_andThen)

lemma preserves_read [preserves_intros]:
  "(\<And>s. P s \<Longrightarrow> preserves P (f s) R) \<Longrightarrow> preserves P (andThen get_st f) R"
  by (rule preserves_andThen [OF preserves_get_st])

lemma preserves_if [preserves_intros]:
  "(b \<Longrightarrow> preserves P m R) \<Longrightarrow> (\<not> b \<Longrightarrow> preserves P m' R) \<Longrightarrow> preserves P (if b then m else m') R"
  by simp

lemma preserves_option [preserves_intros]:
  "preserves P m R \<Longrightarrow> (\<And>x. v = Some x \<Longrightarrow> preserves P (f x) R) \<Longrightarrow> preserves P (case v of None \<Rightarrow> m | Some x \<Rightarrow> f x) R"
  by (cases v) auto

lemma preserves_prod [preserves_intros]:
  "(\<And>x y. v = (x, y) \<Longrightarrow> preserves P (f x y) R) \<Longrightarrow> preserves P (case v of (x, y) \<Rightarrow> f x y) R"
  by (cases v) auto

lemma preserves_zoom:
  assumes "\<And>s. preserves (\<lambda>(t, w). P (p t s, w)) m R" and "\<And>s. p (g s) s = s"
  shows "preserves P (zoom g p m) R"
  unfolding preserves_def
proof (intro allI impI)
  fix s assume s: "P s"
  obtain a w where aw: "s = (a, w)" by (cases s)
  obtain r t w' where m: "m (g a, w) = (r, t, w')" by (cases "m (g a, w)") auto
  have s': "P (p (g a) a, w)" using s assms(2) by (simp add: aw)
  have "P (p t a, w')" using preservesD [OF assms(1) _ m, of a] s' by simp
  moreover have "R x" if "r = Inr x" for x using preserves_result [OF assms(1), of _ _ x "(t, w')"] s' m that by auto
  ultimately have "P (p t a, w') \<and> (\<forall>x. r = Inr x \<longrightarrow> R x)" by simp
  then show "P (snd (zoom g p m s)) \<and> (\<forall>x. fst (zoom g p m s) = Inr x \<longrightarrow> R x)"
    using m by (simp add: aw zoom_def)
qed

lemma preserves_outside [preserves_intros]:
  assumes "\<And>s. preserves (\<lambda>w. P (s, w)) m R"
  shows "preserves P (outside m) R"
  using assms unfolding preserves_def outside_def by (auto split: prod.splits) (metis fst_conv snd_conv)+

lemma preserves_for_each [preserves_intros]:
  "(\<And>x. x \<in> set xs \<Longrightarrow> preserves P (f x) anything) \<Longrightarrow> preserves P (for_each xs f) anything"
  by (induction xs) (auto intro!: preserves_intros)

text \<open>The same at one state.\<close>

lemma run_inv: "preserves P m R \<Longrightarrow> P s \<Longrightarrow> P (snd (m s))"
  by (simp add: preserves_def)

lemma run_inv_andThen:
  "P (snd (m s)) \<Longrightarrow> (\<And>x s'. m s = (Inr x, s') \<Longrightarrow> P s' \<Longrightarrow> P (snd (f x s'))) \<Longrightarrow> P (snd (andThen m f s))"
  by (auto simp: andThen_def split: prod.splits sum.splits)

end
