(* ===== verification/World_Frame.thy ===== *)
theory World_Frame
  imports Atomic_File Program_Invariants
begin

text \<open>
  What an operation leaves alone. The components of a node share one file system: the log in its
  directory, snapshots in theirs, the hard state in a file of its own. The frame relation
  \<open>spares\<close> says that a program kept a set of paths and a set of files as they were, on disk as well
  as in the cache, whatever failed on the way; each primitive gets a rule for it.
\<close>

section \<open>The frame relation\<close>

text \<open>The files \<open>I\<close> are reachable through the paths \<open>S\<close> only.\<close>

definition walled :: "path set \<Rightarrow> nat set \<Rightarrow> world \<Rightarrow> bool" where
  "walled S I w \<longleftrightarrow> fs_ok w \<and> (\<forall>i\<in>I. i < w_next w) \<and> (\<forall>p i. reach w p i \<and> i \<in> I \<longrightarrow> p \<in> S)"

text \<open>Whatever a crash may make of the paths \<open>S\<close> in \<open>w'\<close> it could have made of them in \<open>w\<close>.\<close>

definition disk_frame :: "path set \<Rightarrow> world \<Rightarrow> world \<Rightarrow> bool" where
  "disk_frame S w w' \<longleftrightarrow> (\<forall>ops'. subseq ops' (w_pend w') \<longrightarrow>
     (\<exists>ops. subseq ops (w_pend w) \<and> (\<forall>p\<in>S. apply_ops ops' (w_disk w') p = apply_ops ops (w_disk w) p)))"

definition spares :: "path set \<Rightarrow> nat set \<Rightarrow> world \<Rightarrow> world \<Rightarrow> bool" where
  "spares S I w w' \<longleftrightarrow> walled S I w' \<and> (\<forall>i\<in>I. w_inode w' i = w_inode w i) \<and> set (w_dirs w) \<subseteq> set (w_dirs w') \<and> w_next w \<le> w_next w' \<and>
     (\<forall>p\<in>S. w_find w' p = w_find w p \<and> entries w' p \<subseteq> entries w p) \<and> disk_frame S w w'"

lemma spares_refl: "walled S I w \<Longrightarrow> spares S I w w"
  by (auto simp: spares_def disk_frame_def)

lemma disk_frame_trans: "disk_frame S w w' \<Longrightarrow> disk_frame S w' w'' \<Longrightarrow> disk_frame S w w''"
  unfolding disk_frame_def by metis

lemma spares_trans: "spares S I w w' \<Longrightarrow> spares S I w' w'' \<Longrightarrow> spares S I w w''"
  using disk_frame_trans [of S w w' w''] unfolding spares_def by (simp add: subset_iff)

lemma spares_mono: "spares S I w w' \<Longrightarrow> J \<subseteq> I \<Longrightarrow> spares S J w w'"
  by (auto simp: spares_def walled_def)

lemma spares_walled: "spares S I w w' \<Longrightarrow> walled S I w'"
  by (simp add: spares_def)

lemma walled_fs_ok: "walled S I w \<Longrightarrow> fs_ok w"
  by (simp add: walled_def)

text \<open>The script, the clock and the random numbers are not part of the frame.\<close>

lemma walled_script [simp]:
  "walled S I (w\<lparr>w_events := es\<rparr>) = walled S I w" "walled S I (w\<lparr>w_ticks := n\<rparr>) = walled S I w" "walled S I (w\<lparr>w_draws := n\<rparr>) = walled S I w"
  by (simp_all add: walled_def fs_ok_def reach_def)

lemma disk_frame_script [simp]:
  "disk_frame S w (w'\<lparr>w_events := es\<rparr>) = disk_frame S w w'" "disk_frame S w (w'\<lparr>w_ticks := n\<rparr>) = disk_frame S w w'"
  "disk_frame S w (w'\<lparr>w_draws := n\<rparr>) = disk_frame S w w'"
  by (simp_all add: disk_frame_def)

lemma spares_script [simp]:
  "spares S I w (w'\<lparr>w_events := es\<rparr>) = spares S I w w'" "spares S I w (w'\<lparr>w_ticks := n\<rparr>) = spares S I w w'"
  "spares S I w (w'\<lparr>w_draws := n\<rparr>) = spares S I w w'"
  by (simp_all add: spares_def entries_def)

text \<open>The two kinds of change: to a file outside \<open>I\<close>, and to entries outside \<open>S\<close>.\<close>

lemma spares_upd_inode:
  assumes "spares S I w0 w" and "i \<notin> I" and "fs_ok (upd_inode i f w)"
  shows "spares S I w0 (upd_inode i f w)"
proof -
  have "reach (upd_inode i f w) = reach w" "entries (upd_inode i f w) = entries w" by (intro ext; simp add: reach_def entries_def)+
  then show ?thesis using assms by (auto simp: spares_def walled_def disk_frame_def)
qed

lemma spares_change:
  assumes "spares S I w0 w" and "fs_ok w'" and "w_next w \<le> w_next w'" and "\<forall>i\<in>I. w_inode w' i = w_inode w i" and "set (w_dirs w) \<subseteq> set (w_dirs w')"
    and "\<And>p. p \<in> S \<Longrightarrow> w_find w' p = w_find w p \<and> entries w' p \<subseteq> entries w p" and "\<And>p i. reach w' p i \<Longrightarrow> i \<in> I \<Longrightarrow> reach w p i \<or> p \<in> S"
    and "disk_frame S w w'"
  shows "spares S I w0 w'"
proof (rule spares_trans [OF assms(1)])
  have "walled S I w" using assms(1) by (simp add: spares_def)
  then have "walled S I w'" using assms(2,3,7) unfolding walled_def by (meson order.strict_trans2)
  then show "spares S I w w'" using assms(3-6,8) by (simp add: spares_def)
qed

lemma apply_op_other: "p \<notin> fst ` set op \<Longrightarrow> apply_op op m p = m p"
  by (induction op) auto

lemma disk_frame_op:
  assumes "w_disk w' = w_disk w" and "w_pend w' = op # w_pend w" and "fst ` set op \<inter> S = {}"
  shows "disk_frame S w w'"
  unfolding disk_frame_def
proof (intro allI impI)
  fix ops' assume "subseq ops' (w_pend w')"
  then consider "subseq ops' (w_pend w)" | zs where "ops' = op # zs" "subseq zs (w_pend w)"
    using subseq_Cons_cases assms(2) by metis
  then show "\<exists>ops. subseq ops (w_pend w) \<and> (\<forall>p\<in>S. apply_ops ops' (w_disk w') p = apply_ops ops (w_disk w) p)"
  proof cases
    case 2
    have "apply_ops ops' (w_disk w') p = apply_ops zs (w_disk w) p" if "p \<in> S" for p
      using that assms(1,3) apply_op_other [of p op "apply_ops zs (w_disk w)"] unfolding 2(1) by auto
    then show ?thesis using 2(2) by blast
  qed (use assms(1) in auto)
qed

lemma spares_op:
  assumes "spares S I w0 w" and "fs_ok w'" and "w_next w \<le> w_next w'" and "\<forall>i\<in>I. w_inode w' i = w_inode w i" and "w_dirs w' = w_dirs w"
    and "w_disk w' = w_disk w" and "w_pend w' = op # w_pend w" and "fst ` set op \<inter> S = {}" and "\<And>p. p \<in> S \<Longrightarrow> w_find w' p = w_find w p"
    and "\<And>p i. i \<in> I \<Longrightarrow> w_find w' p = Some i \<or> (p, Some i) \<in> set op \<Longrightarrow> reach w p i"
  shows "spares S I w0 w'"
proof (rule spares_change [OF assms(1-4)])
  show "w_find w' p = w_find w p \<and> entries w' p \<subseteq> entries w p" if "p \<in> S" for p
    using that assms(6-9) by (auto simp: entries_def)
  show "reach w p i \<or> p \<in> S" if "reach w' p i" "i \<in> I" for p i
    using that assms(6,7) assms(10) [of i p] by (auto simp: reach_def)
  show "disk_frame S w w'" using assms(6-8) by (rule disk_frame_op)
qed (use assms(5) in simp)

section \<open>Rules for the primitives\<close>

abbreviation keeps :: "path set \<Rightarrow> nat set \<Rightarrow> world \<Rightarrow> 'a io \<Rightarrow> world \<Rightarrow> bool" where
  "keeps S I w0 m \<equiv> wp m (\<lambda>_ w'. spares S I w0 w') (\<lambda>_ w'. spares S I w0 w')"

lemma keeps_syscall:
  assumes "spares S I w0 w" and "\<And>es. keeps S I w0 f (w\<lparr>w_events := es\<rparr>)"
  shows "keeps S I w0 (syscall f) w"
  by (rule wp_syscall) (use assms in simp_all)

lemma keeps_pure:
  assumes "spares S I w0 w"
  shows "keeps S I w0 (read_dir d) w" and "keeps S I w0 (dir_exists d) w" and "keeps S I w0 (file_len i) w" and "keeps S I w0 (read_file p) w"
    and "keeps S I w0 (instant_now X) w" and "keeps S I w0 (gen_range X lo hi) w"
  using assms
  by (simp_all add: wp_def read_dir_def dir_exists_def file_len_def read_file_def instant_now_def gen_range_def syscall_def pop_event_def
      split: list.splits option.splits)

lemma wp_open_existing:
  assumes "spares S I w0 w" and "p \<notin> S"
  shows "wp (open_existing p) (\<lambda>i w'. spares S I w0 w' \<and> i \<notin> I) (\<lambda>_ w'. spares S I w0 w') w"
  unfolding open_existing_def
  by (rule wp_syscall) (use assms in \<open>auto simp: wp_def spares_def walled_def reach_def split: option.splits\<close>)

lemma wp_new_file:
  assumes "spares S I w0 w" and "p \<notin> S" and "w_find w p = None"
  shows "wp (new_file p) (\<lambda>i w'. spares S I w0 w' \<and> i \<notin> I \<and> i < w_next w') (\<lambda>_ _. False) w"
proof -
  obtain i w' where nf: "new_file p w = (Inr i, w')" by (simp add: new_file_def)
  then have w': "i = w_next w" "w_next w' = Suc (w_next w)" "w_inode w' = (w_inode w)(i := empty_inode)" "w_dirs w' = w_dirs w"
    "\<And>q. w_find w' q = (if q = p then Some i else w_find w q)" "w_disk w' = w_disk w" "w_pend w' = [(p, Some i)] # w_pend w"
    by (auto simp: new_file_def)
  have ok: "walled S I w" "fs_ok w" using assms(1) by (simp_all add: spares_def walled_def)
  have i: "i \<notin> I" using ok(1) w'(1) by (auto simp: walled_def)
  have "spares S I w0 w'"
    by (rule spares_op [OF assms(1) fs_ok_new_file [OF ok(2) nf] _ _ w'(4,6,7)])
      (use w' i assms(2) in \<open>auto simp: reach_def split: if_splits\<close>)
  then show ?thesis using nf i w'(1,2) by (simp add: wp_def)
qed

lemma wp_open_create_new:
  assumes "spares S I w0 w" and "p \<notin> S"
  shows "wp (open_create_new p) (\<lambda>i w'. spares S I w0 w' \<and> i \<notin> I) (\<lambda>_ w'. spares S I w0 w') w"
  unfolding open_create_new_def
proof (rule wp_syscall)
  fix es
  have "spares S I w0 (w\<lparr>w_events := es\<rparr>)" using assms(1) by simp
  from wp_new_file [OF this assms(2)]
  show "wp (\<lambda>w. case w_find w p of Some _ \<Rightarrow> (Inl (Io AlreadyExists), w)
       | None \<Rightarrow> if butlast p \<in> set (w_dirs w) then new_file p w else (Inl (Io NotFound), w))
     (\<lambda>i w'. spares S I w0 w' \<and> i \<notin> I) (\<lambda>_ w'. spares S I w0 w') (w\<lparr>w_events := es\<rparr>)"
    using assms(1) by (auto simp: wp_def simp del: map_of_eq_Some_iff split: option.splits sum.splits)
qed (use assms in simp)

lemma wp_open_create_truncate:
  assumes "spares S I w0 w" and "p \<notin> S"
  shows "wp (open_create_truncate p) (\<lambda>i w'. spares S I w0 w' \<and> i \<notin> I) (\<lambda>_ w'. spares S I w0 w') w"
  unfolding open_create_truncate_def
proof (rule wp_syscall)
  fix es
  let ?w = "w\<lparr>w_events := es\<rparr>"
  have ok: "spares S I w0 ?w" "fs_ok ?w" "walled S I ?w" using assms(1) by (simp_all add: spares_def walled_def)
  have new: "wp (new_file p) (\<lambda>i w'. spares S I w0 w' \<and> i \<notin> I) (\<lambda>_ _. False) ?w" if "w_find ?w p = None"
    using wp_conseq [OF wp_new_file [OF ok(1) assms(2) that]] by simp
  have old: "i \<notin> I \<and> spares S I w0 (upd_inode i (\<lambda>n. n\<lparr>i_data := [], i_dirty := True\<rparr>) ?w)" if "w_find ?w p = Some i" for i
  proof
    show "i \<notin> I" using ok(3) assms(2) that by (auto simp: walled_def reach_def)
    have "fs_ok (upd_inode i (\<lambda>n. n\<lparr>i_data := [], i_dirty := True\<rparr>) ?w)" using ok(2) by (intro fs_ok_upd_inode) simp_all
    then show "spares S I w0 (upd_inode i (\<lambda>n. n\<lparr>i_data := [], i_dirty := True\<rparr>) ?w)" using spares_upd_inode [OF ok(1) \<open>i \<notin> I\<close>] by simp
  qed
  show "wp (\<lambda>w. case w_find w p of
       Some i \<Rightarrow> (Inr i, upd_inode i (\<lambda>n. n\<lparr>i_data := [], i_dirty := True\<rparr>) w)
     | None \<Rightarrow> if butlast p \<in> set (w_dirs w) then new_file p w else (Inl (Io NotFound), w))
     (\<lambda>i w'. spares S I w0 w' \<and> i \<notin> I) (\<lambda>_ w'. spares S I w0 w') ?w"
    using new old ok(1) by (cases "w_find ?w p") (auto simp: wp_def simp del: map_of_eq_Some_iff split: sum.splits)
qed (use assms in simp)

lemma keeps_file_write_all:
  assumes "spares S I w0 w" and "i \<notin> I" and "file_write_all i pos bs w = (r, n, w')"
  shows "spares S I w0 w'"
proof -
  obtain ev es where ev: "pop_event w = (ev, w\<lparr>w_events := es\<rparr>)" using pop_event_events by blast
  have ok: "spares S I w0 (w\<lparr>w_events := es\<rparr>)" "fs_ok (w\<lparr>w_events := es\<rparr>)" using assms(1) by (auto simp: spares_def walled_def)
  have "spares S I w0 (write_inode i pos ys (w\<lparr>w_events := es\<rparr>))" for ys
    using spares_upd_inode [OF ok(1) assms(2)] fs_ok_write_inode [OF ok(2), of i pos ys] unfolding write_inode_def by blast
  then show ?thesis using ev assms(3) by (cases ev) (auto simp: file_write_all_def)
qed

lemma keeps_write_file:
  assumes "spares S I w0 w" and "i \<notin> I"
  shows "keeps S I w0 (write_file i bs) w"
  using keeps_file_write_all [OF assms, of 0 bs] by (auto simp: wp_def write_file_def split: prod.splits sum.splits)

lemma keeps_upd_inode:
  assumes "spares S I w0 w" and "i \<notin> I" and "\<And>n. \<not> i_dirty (f n) \<Longrightarrow> i_synced (f n) = i_data (f n)"
  shows "keeps S I w0 (syscall (\<lambda>w. (Inr (), upd_inode i f w))) w"
proof (rule keeps_syscall [OF assms(1)])
  fix es
  have ok: "spares S I w0 (w\<lparr>w_events := es\<rparr>)" "fs_ok (w\<lparr>w_events := es\<rparr>)" using assms(1) by (auto simp: spares_def walled_def)
  have "fs_ok (upd_inode i f (w\<lparr>w_events := es\<rparr>))" using ok(2) assms(3) by (intro fs_ok_upd_inode) simp_all
  then show "keeps S I w0 (\<lambda>w. (Inr (), upd_inode i f w)) (w\<lparr>w_events := es\<rparr>)"
    using spares_upd_inode [OF ok(1) assms(2)] by (simp add: wp_def)
qed

lemma keeps_sync_all: "spares S I w0 w \<Longrightarrow> i \<notin> I \<Longrightarrow> keeps S I w0 (sync_all i) w"
  unfolding sync_all_def by (rule keeps_upd_inode) simp_all

lemma keeps_set_len: "spares S I w0 w \<Longrightarrow> i \<notin> I \<Longrightarrow> keeps S I w0 (set_len i n) w"
  unfolding set_len_def by (rule keeps_upd_inode) simp_all

lemma keeps_rename:
  assumes "spares S I w0 w" and "a \<notin> S" and "b \<notin> S" and "a \<noteq> b"
  shows "keeps S I w0 (rename_file a b) w"
  unfolding rename_file_renamed
proof (rule keeps_syscall [OF assms(1)])
  fix es
  let ?w = "w\<lparr>w_events := es\<rparr>"
  have ok: "spares S I w0 ?w" "fs_ok ?w" "walled S I ?w" using assms(1) by (simp_all add: spares_def walled_def)
  have "spares S I w0 (renamed a b i ?w)" if i: "w_find ?w a = Some i" for i
  proof -
    have "i \<notin> I" using ok(3) i assms(2) by (auto simp: walled_def reach_def)
    then show ?thesis
      by (intro spares_op [OF ok(1) fs_ok_renamed [OF ok(2) i assms(4)]])
        (use assms(2,3) in \<open>auto simp: reach_def simp del: map_of_eq_Some_iff split: if_splits\<close>)
  qed
  then show "keeps S I w0 (\<lambda>w. case w_find w a of None \<Rightarrow> (Inl (Io NotFound), w) | Some i \<Rightarrow> (Inr (), renamed a b i w)) ?w"
    using ok(1) by (auto simp: wp_def simp del: map_of_eq_Some_iff split: option.splits)
qed

lemma keeps_remove_file:
  assumes "spares S I w0 w" and "p \<notin> S"
  shows "keeps S I w0 (remove_file p) w"
  unfolding remove_file_def
proof (rule keeps_syscall [OF assms(1)])
  fix es
  let ?w = "w\<lparr>w_events := es\<rparr>"
  have ok: "spares S I w0 ?w" "fs_ok ?w" using assms(1) by (simp_all add: spares_def walled_def)
  have "spares S I w0 (set_entry p None ?w)"
    by (rule spares_op [OF ok(1) fs_ok_set_entry [OF ok(2)]]) (use assms(2) in \<open>auto simp: reach_def split: if_splits\<close>)
  then show "keeps S I w0 (\<lambda>w. case w_find w p of None \<Rightarrow> (Inl (Io NotFound), w) | Some _ \<Rightarrow> (Inr (), set_entry p None w)) ?w"
    using ok(1) by (auto simp: wp_def simp del: map_of_eq_Some_iff split: option.splits)
qed

lemma keeps_create_dir_all:
  assumes "spares S I w0 w"
  shows "keeps S I w0 (create_dir_all d) w"
  unfolding create_dir_all_def
proof (rule keeps_syscall [OF assms])
  fix es
  have "fs_ok (w\<lparr>w_dirs := ds\<rparr>) = fs_ok w" "reach (w\<lparr>w_dirs := ds\<rparr>) = reach w" "entries (w\<lparr>w_dirs := ds\<rparr>) = entries w" for w :: world and ds
    by (simp add: fs_ok_def) (intro ext, simp add: reach_def entries_def)+
  then show "keeps S I w0 (\<lambda>w. (Inr (), if d \<in> set (w_dirs w) then w else w\<lparr>w_dirs := d # w_dirs w\<rparr>)) (w\<lparr>w_events := es\<rparr>)"
    using assms by (auto simp: wp_def spares_def walled_def disk_frame_def)
qed

text \<open>Synchronising a directory makes what is in the cache the only possibility.\<close>

lemma subseq_map_conv: "subseq xs (map f ys) \<Longrightarrow> \<exists>zs. subseq zs ys \<and> xs = map f zs"
proof (induction ys arbitrary: xs)
  case (Cons y ys)
  from subseq_Cons_cases [OF Cons.prems [unfolded list.map]] show ?case
  proof
    assume "subseq xs (map f ys)"
    then show ?thesis using Cons.IH by (meson list_emb_Cons)
  next
    assume "\<exists>zs. xs = f y # zs \<and> subseq zs (map f ys)"
    then obtain zs us where "xs = f y # zs" "subseq us ys" "zs = map f us" using Cons.IH by blast
    then show ?thesis by (intro exI [of _ "y # us"]) simp
  qed
qed (auto dest: list_emb_Nil2)

lemma keeps_sync_dir:
  assumes "spares S I w0 w" and "(\<forall>p\<in>S. p \<noteq> [] \<and> butlast p = d) \<or> (\<forall>p\<in>S. \<not> (p \<noteq> [] \<and> butlast p = d))"
  shows "keeps S I w0 (sync_dir d) w"
  unfolding sync_dir_def
proof (rule keeps_syscall [OF assms(1)])
  fix es
  define v where "v = w\<lparr>w_events := es\<rparr>"
  define P where "P = (\<lambda>p :: path. \<not> (p \<noteq> [] \<and> butlast p = d))"
  define v' where "v' = v\<lparr>w_disk := (\<lambda>p. if p \<noteq> [] \<and> butlast p = d then w_find v p else w_disk v p),
       w_pend := map (filter (\<lambda>(p, _). P p)) (w_pend v)\<rparr>"
  have ok: "spares S I w0 v" "fs_ok v" using assms(1) by (simp_all add: spares_def walled_def v_def)
  have live: "apply_ops (w_pend v) (w_disk v) p = w_find v p" for p using ok(2) by (simp add: fs_ok_def)
  have "disk_frame S v v'"
    unfolding disk_frame_def
  proof (intro allI impI)
    fix ops' assume "subseq ops' (w_pend v')"
    then obtain ops where ops: "subseq ops (w_pend v)" "ops' = map (filter (\<lambda>(p, _). P p)) ops"
      using subseq_map_conv [of ops' _ "w_pend v"] unfolding v'_def by (simp, blast)
    have eq: "apply_ops ops' (w_disk v') p = (if P p then apply_ops ops (w_disk v) p else w_find v p)" for p
      using apply_ops_cong [of "w_disk v'" p "w_disk v" ops] unfolding ops(2) apply_ops_filter by (auto simp: v'_def P_def)
    from assms(2) show "\<exists>ops. subseq ops (w_pend v) \<and> (\<forall>p\<in>S. apply_ops ops' (w_disk v') p = apply_ops ops (w_disk v) p)"
    proof
      assume "\<forall>p\<in>S. p \<noteq> [] \<and> butlast p = d"
      then show ?thesis using live eq by (intro exI [of _ "w_pend v"]) (auto simp: P_def)
    next
      assume "\<forall>p\<in>S. \<not> (p \<noteq> [] \<and> butlast p = d)"
      then show ?thesis using eq ops(1) by (intro exI [of _ ops]) (auto simp: P_def)
    qed
  qed
  then have "spares S I w0 v'"
    by (intro spares_change [OF ok(1)])
      (use fs_ok_sync_dir [OF ok(2), of d] in \<open>auto simp: v'_def P_def entries_def reach_def simp del: map_of_eq_Some_iff split: if_splits\<close>)
  then show "keeps S I w0 (\<lambda>w. (Inr (), w\<lparr>w_disk := (\<lambda>p. if p \<noteq> [] \<and> butlast p = d then w_find w p else w_disk w p),
       w_pend := map (filter (\<lambda>(p, _). \<not> (p \<noteq> [] \<and> butlast p = d))) (w_pend w)\<rparr>)) (w\<lparr>w_events := es\<rparr>)"
    by (simp add: wp_def v_def [symmetric] v'_def P_def)
qed

lemma keeps_replace_file:
  assumes "spares S I w0 w" and "tmp \<notin> S" and "path \<notin> S" and "tmp \<noteq> path" and "path \<noteq> []"
    and "(\<forall>p\<in>S. p \<noteq> [] \<and> butlast p = butlast path) \<or> (\<forall>p\<in>S. \<not> (p \<noteq> [] \<and> butlast p = butlast path))"
  shows "keeps S I w0 (replace_file tmp path bs) w"
  unfolding replace_file_def install_file_def wp_andThen
proof (rule wp_conseq [OF wp_open_create_truncate [OF assms(1,2)]], elim conjE)
  fix i w1 assume "spares S I w0 w1" "i \<notin> I"
  then show "wp (write_file i bs) (\<lambda>x. wp (sync_all i) (\<lambda>x. wp (rename_file tmp path) (\<lambda>x. wp (sync_dir (butlast path)) (\<lambda>_. spares S I w0)
      (\<lambda>_. spares S I w0)) (\<lambda>_. spares S I w0)) (\<lambda>_. spares S I w0)) (\<lambda>_. spares S I w0) w1"
    by (intro wp_conseq [OF keeps_write_file] wp_conseq [OF keeps_sync_all] wp_conseq [OF keeps_rename [OF _ assms(2-4)]] keeps_sync_dir [OF _ assms(6)])
qed

section \<open>The rules as invariants of programs\<close>

lemma preserves_spares_pure [preserves_intros]:
  "preserves (spares S I w0) (read_dir d) anything" "preserves (spares S I w0) (dir_exists d) anything"
  "preserves (spares S I w0) (file_len i) anything" "preserves (spares S I w0) (read_file p) anything"
  "preserves (spares S I w0) (instant_now X) anything" "preserves (spares S I w0) (gen_range X lo hi) anything"
  "preserves (spares S I w0) (create_dir_all d) anything"
  by (rule preservesI; simp add: keeps_pure keeps_create_dir_all)+

lemma preserves_spares_open:
  "p \<notin> S \<Longrightarrow> preserves (spares S I w0) (open_existing p) (\<lambda>i. i \<notin> I)"
  "p \<notin> S \<Longrightarrow> preserves (spares S I w0) (open_create_new p) (\<lambda>i. i \<notin> I)"
  "p \<notin> S \<Longrightarrow> preserves (spares S I w0) (open_create_truncate p) (\<lambda>i. i \<notin> I)"
  by (rule preservesI; simp add: wp_open_existing wp_open_create_new wp_open_create_truncate)+

lemma preserves_spares_file [preserves_intros]:
  "i \<notin> I \<Longrightarrow> preserves (spares S I w0) (sync_all i) anything"
  "i \<notin> I \<Longrightarrow> preserves (spares S I w0) (set_len i n) anything"
  "p \<notin> S \<Longrightarrow> preserves (spares S I w0) (remove_file p) anything"
  "i \<notin> I \<Longrightarrow> preserves (spares S I w0) (write_file i bs) anything"
  by (rule preservesI; simp add: keeps_sync_all keeps_set_len keeps_remove_file keeps_write_file)+

lemma preserves_spares_reader [preserves_intros]: "preserves (spares S I w0) (with_reader i m) anything"
  by (rule preservesI) (simp add: wp_def with_reader_def split: prod.splits sum.splits)

lemma preserves_install_file [preserves_intros]:
  assumes "tmp \<notin> S" and "path \<notin> S" and "tmp \<noteq> path"
  shows "preserves (spares S I w0) (install_file tmp path bs) anything"
  unfolding install_file_def
proof (rule preserves_andThen [OF preserves_spares_open(3) [OF assms(1)]])
  fix i assume i: "i \<notin> I"
  have "preserves (spares S I w0) (rename_file tmp path) anything" by (rule preservesI) (simp add: keeps_rename assms)
  then show "preserves (spares S I w0) (andThen (write_file i bs) (\<lambda>_. andThen (sync_all i) (\<lambda>_. rename_file tmp path))) anything"
    using i by (intro preserves_intros)
qed

lemma preserves_sync_dir [preserves_intros]:
  "\<forall>p\<in>S. \<not> (p \<noteq> [] \<and> butlast p = d) \<Longrightarrow> preserves (spares S I w0) (sync_dir d) anything"
  by (rule preservesI) (simp add: keeps_sync_dir)

section \<open>Who owns which files\<close>

text \<open>The files that the paths \<open>S\<close> lead to or may lead to after a crash.\<close>

definition files_of :: "world \<Rightarrow> path set \<Rightarrow> nat set" where
  "files_of w S = {i. \<exists>p\<in>S. reach w p i}"

text \<open>A component owns its paths: what they lead to is not reached from elsewhere.\<close>

abbreviation owned :: "world \<Rightarrow> path set \<Rightarrow> bool" where
  "owned w S \<equiv> walled S (files_of w S) w"

lemma reach_entries: "reach w p i \<longleftrightarrow> Some i \<in> entries w p"
  by (auto simp: reach_def entries_def)

lemma files_of_script [simp]: "files_of (w\<lparr>w_events := es\<rparr>) = files_of w"
  by (intro ext) (simp add: files_of_def)

lemma ownedI:
  "fs_ok w \<Longrightarrow> (\<And>p q i. p \<in> S \<Longrightarrow> reach w p i \<Longrightarrow> reach w q i \<Longrightarrow> q \<in> S) \<Longrightarrow> owned w S"
  using fs_ok_reach [of w] by (auto simp: walled_def files_of_def)

lemma spares_files_of: "spares S I w w' \<Longrightarrow> files_of w' S \<subseteq> files_of w S"
  unfolding files_of_def reach_entries spares_def by blast

lemma owned_spares:
  assumes "spares S (files_of w S) w w'"
  shows "owned w' S"
  using assms spares_files_of [OF assms] by (auto simp: spares_def walled_def)

text \<open>A component that works on its own paths reaches only its own files and new ones.\<close>

definition stays_in :: "path set \<Rightarrow> world \<Rightarrow> world \<Rightarrow> bool" where
  "stays_in S w w' \<longleftrightarrow> fs_ok w' \<and> w_next w \<le> w_next w' \<and> set (w_dirs w) \<subseteq> set (w_dirs w') \<and>
     (\<forall>q j. reach w' q j \<longrightarrow> reach w q j \<or> q \<in> S \<and> (w_next w \<le> j \<or> j \<in> files_of w S))"

lemma stays_in_refl: "fs_ok w \<Longrightarrow> stays_in S w w"
  by (simp add: stays_in_def)

lemma stays_in_files: "stays_in S w w' \<Longrightarrow> i \<in> files_of w' S \<Longrightarrow> i \<in> files_of w S \<or> w_next w \<le> i"
  by (auto simp: stays_in_def files_of_def)

lemma owned_stays_in:
  assumes "owned w S" and "stays_in S w w'"
  shows "owned w' S"
proof (rule ownedI)
  show "fs_ok w'" using assms(2) by (simp add: stays_in_def)
  fix p q i assume p: "p \<in> S" "reach w' p i" and q: "reach w' q i"
  have "i \<in> files_of w S \<or> w_next w \<le> i" using stays_in_files [OF assms(2)] p by (auto simp: files_of_def)
  moreover have "reach w q i \<or> q \<in> S" using q assms(2) by (auto simp: stays_in_def)
  moreover have "i < w_next w" if "reach w q i" using that assms(1) fs_ok_reach by (auto simp: walled_def)
  ultimately show "q \<in> S" using assms(1) by (auto simp: walled_def)
qed

lemma stays_in_step:
  assumes "stays_in S w0 w" and "fs_ok w'" and "w_next w \<le> w_next w'" and "set (w_dirs w) \<subseteq> set (w_dirs w')"
    and "\<And>q j. reach w' q j \<Longrightarrow> reach w q j \<or> q \<in> S \<and> (w_next w \<le> j \<or> j \<in> files_of w S)"
  shows "stays_in S w0 w'"
  unfolding stays_in_def
proof (intro conjI allI impI)
  fix q j assume "reach w' q j"
  then consider "reach w q j" | "q \<in> S" "w_next w \<le> j" | "q \<in> S" "j \<in> files_of w S" using assms(5) by blast
  then show "reach w0 q j \<or> q \<in> S \<and> (w_next w0 \<le> j \<or> j \<in> files_of w0 S)"
  proof cases
    case 3
    then show ?thesis using stays_in_files [OF assms(1)] by blast
  qed (use assms(1) in \<open>auto simp: stays_in_def\<close>)
qed (use assms in \<open>auto simp: stays_in_def\<close>)

lemma stays_in_script [simp]: "stays_in S w (w'\<lparr>w_events := es\<rparr>) = stays_in S w w'"
  by (simp add: stays_in_def)

abbreviation stays :: "path set \<Rightarrow> world \<Rightarrow> 'a io \<Rightarrow> world \<Rightarrow> bool" where
  "stays S w0 m \<equiv> wp m (\<lambda>_ w'. stays_in S w0 w') (\<lambda>_ w'. stays_in S w0 w')"

lemma stays_upd_inode:
  assumes "stays_in S w0 w" and "\<And>n. \<not> i_dirty (f n) \<Longrightarrow> i_synced (f n) = i_data (f n)"
  shows "stays_in S w0 (upd_inode i f w)"
proof -
  have "reach (upd_inode i f w) = reach w" by (intro ext) (simp add: reach_def)
  moreover have "fs_ok (upd_inode i f w)" using assms by (intro fs_ok_upd_inode) (auto simp: stays_in_def)
  ultimately show ?thesis using assms(1) by (intro stays_in_step [OF assms(1)]) auto
qed

lemma stays_open_create_truncate:
  assumes "stays_in S w0 w" and "p \<in> S"
  shows "stays S w0 (open_create_truncate p) w"
  unfolding open_create_truncate_def
proof (rule wp_syscall)
  fix es
  let ?w = "w\<lparr>w_events := es\<rparr>"
  have ok: "stays_in S w0 ?w" "fs_ok ?w" using assms(1) by (simp_all add: stays_in_def)
  have new: "stays_in S w0 w'" if nf: "new_file p ?w = (r, w')" for r w'
  proof (rule stays_in_step [OF ok(1) fs_ok_new_file [OF ok(2) nf]])
    show "reach ?w q j \<or> q \<in> S \<and> (w_next ?w \<le> j \<or> j \<in> files_of ?w S)" if "reach w' q j" for q j
      using that nf assms(2) by (auto simp: new_file_def reach_def split: if_splits)
  qed (use nf in \<open>auto simp: new_file_def\<close>)
  show "stays S w0 (\<lambda>w. case w_find w p of
       Some i \<Rightarrow> (Inr i, upd_inode i (\<lambda>n. n\<lparr>i_data := [], i_dirty := True\<rparr>) w)
     | None \<Rightarrow> if butlast p \<in> set (w_dirs w) then new_file p w else (Inl (Io NotFound), w)) ?w"
    using new ok(1) stays_upd_inode [OF ok(1), of "\<lambda>n. n\<lparr>i_data := [], i_dirty := True\<rparr>"]
    by (auto simp: wp_def simp del: map_of_eq_Some_iff split: option.splits prod.splits sum.splits)
qed (use assms in simp)

lemma stays_write_file: "stays_in S w0 w \<Longrightarrow> stays S w0 (write_file i bs) w"
  using stays_upd_inode [of S w0 w] unfolding write_file_def file_write_all_def pop_event_def write_inode_def wp_def
  by (auto split: list.splits io_event.splits prod.splits intro!: stays_upd_inode)

lemma stays_sync_all: "stays_in S w0 w \<Longrightarrow> stays S w0 (sync_all i) w"
  unfolding sync_all_def by (rule wp_syscall) (auto simp: wp_def intro!: stays_upd_inode)

lemma stays_rename:
  assumes "stays_in S w0 w" and "b \<in> S" and "a \<in> S" and "a \<noteq> b"
  shows "stays S w0 (rename_file a b) w"
  unfolding rename_file_renamed
proof (rule wp_syscall)
  fix es
  let ?w = "w\<lparr>w_events := es\<rparr>"
  have ok: "stays_in S w0 ?w" "fs_ok ?w" using assms(1) by (simp_all add: stays_in_def)
  have "stays_in S w0 (renamed a b i ?w)" if i: "w_find ?w a = Some i" for i
  proof (rule stays_in_step [OF ok(1) fs_ok_renamed [OF ok(2) i assms(4)]])
    have "i \<in> files_of ?w S" using i assms(3) by (auto simp: files_of_def reach_def)
    then show "reach ?w q j \<or> q \<in> S \<and> (w_next ?w \<le> j \<or> j \<in> files_of ?w S)" if "reach (renamed a b i ?w) q j" for q j
      using that assms(2) by (auto simp: reach_def simp del: map_of_eq_Some_iff split: if_splits)
  qed simp_all
  then show "stays S w0 (\<lambda>w. case w_find w a of None \<Rightarrow> (Inl (Io NotFound), w) | Some i \<Rightarrow> (Inr (), renamed a b i w)) ?w"
    using ok(1) by (auto simp: wp_def simp del: map_of_eq_Some_iff split: option.splits)
qed (use assms in simp)

lemma stays_sync_dir:
  assumes "stays_in S w0 w"
  shows "stays S w0 (sync_dir d) w"
  unfolding sync_dir_def
proof (rule wp_syscall)
  fix es
  let ?w = "w\<lparr>w_events := es\<rparr>"
  let ?w' = "?w\<lparr>w_disk := (\<lambda>p. if p \<noteq> [] \<and> butlast p = d then w_find ?w p else w_disk ?w p),
       w_pend := map (filter (\<lambda>(p, _). \<not> (p \<noteq> [] \<and> butlast p = d))) (w_pend ?w)\<rparr>"
  have ok: "stays_in S w0 ?w" "fs_ok ?w" using assms by (simp_all add: stays_in_def)
  have "stays_in S w0 ?w'"
    by (rule stays_in_step [OF ok(1) fs_ok_sync_dir [OF ok(2), of d]])
      (auto simp: reach_def simp del: map_of_eq_Some_iff split: if_splits)
  then show "stays S w0 (\<lambda>w. (Inr (), w\<lparr>w_disk := (\<lambda>p. if p \<noteq> [] \<and> butlast p = d then w_find w p else w_disk w p),
       w_pend := map (filter (\<lambda>(p, _). \<not> (p \<noteq> [] \<and> butlast p = d))) (w_pend w)\<rparr>)) ?w"
    by (simp add: wp_def)
qed (use assms in simp)

lemma stays_create_dir_all:
  assumes "stays_in S w0 w"
  shows "stays S w0 (create_dir_all d) w"
  unfolding create_dir_all_def
proof (rule wp_syscall)
  fix es
  have "fs_ok (w\<lparr>w_dirs := ds\<rparr>) = fs_ok w" "reach (w\<lparr>w_dirs := ds\<rparr>) = reach w" for w :: world and ds
    by (simp add: fs_ok_def) (intro ext, simp add: reach_def)
  then show "stays S w0 (\<lambda>w. (Inr (), if d \<in> set (w_dirs w) then w else w\<lparr>w_dirs := d # w_dirs w\<rparr>)) (w\<lparr>w_events := es\<rparr>)"
    using assms by (auto simp: wp_def stays_in_def)
qed (use assms in simp)

lemma stays_install_file:
  assumes "stays_in S w0 w" and "tmp \<in> S" and "path \<in> S" and "tmp \<noteq> path"
  shows "stays S w0 (install_file tmp path bs) w"
  unfolding install_file_def wp_andThen
  by (intro wp_conseq [OF stays_open_create_truncate [OF assms(1,2)]] wp_conseq [OF stays_write_file] wp_conseq [OF stays_sync_all]
      stays_rename assms)

section \<open>Frames and replacement\<close>

text \<open>A replaceable file stays what it is under everything that spares its two names and the files behind the real one.\<close>

definition own_inodes :: "world \<Rightarrow> path \<Rightarrow> nat set" where
  "own_inodes w path = {i. Some i \<in> entries w path}"

lemma atomic_ok_spares:
  assumes "atomic_ok w tmp path vals" and "spares S (own_inodes w path) w w'" and "tmp \<in> S" and "path \<in> S"
  shows "atomic_ok w' tmp path vals"
proof -
  have sub: "entries w' path \<subseteq> entries w path" "w_find w' tmp = w_find w tmp" "fs_ok w'"
    using assms(2-4) by (auto simp: spares_def walled_def)
  have "entry_ok w' vals v" if "v \<in> entries w' path" for v
  proof -
    have v: "v \<in> entries w path" "entry_ok w vals v" using that sub(1) assms(1) by (auto simp: atomic_ok_def)
    then have "w_inode w' i = w_inode w i" if "v = Some i" for i using assms(2) that by (auto simp: spares_def own_inodes_def)
    then show ?thesis using v(2) by (auto simp: entry_ok_def split: option.splits)
  qed
  moreover have "apply_ops ops (w_disk w') path \<noteq> Some j" if "subseq ops (w_pend w')" "apply_ops ops (w_disk w') tmp = Some j" for ops j
  proof -
    have "disk_frame S w w'" using assms(2) by (simp add: spares_def)
    from this [unfolded disk_frame_def, THEN spec, THEN mp, OF that(1)]
    obtain ops0 where ops0: "subseq ops0 (w_pend w)" "\<forall>p\<in>S. apply_ops ops (w_disk w') p = apply_ops ops0 (w_disk w) p" by (elim exE conjE)
    then have "apply_ops ops0 (w_disk w) tmp = Some j" "apply_ops ops (w_disk w') path = apply_ops ops0 (w_disk w) path"
      using assms(3,4) that(2) by simp_all
    then show ?thesis using assms(1) ops0(1) by (simp add: atomic_ok_def)
  qed
  ultimately show ?thesis using assms(1) sub unfolding atomic_ok_def by (auto simp del: map_of_eq_Some_iff)
qed

end
