(* ===== verification/Memtable.thy ===== *)
theory Memtable
  imports Prelude "HOL-Library.List_Lexorder"
begin

text \<open>
  The state machine, \<^verbatim>\<open>src/store/memtable.rs\<close>: commands, the ordered map they are folded into, and the
  index of the last one applied. The ordered map (\<open>BTreeMap\<close>) is a list sorted by key; its contract
  is a locale.
\<close>

section \<open>Ordered maps\<close>

text \<open>The part of \<open>BTreeMap\<close> that the store uses.\<close>

locale ordered_map =
  fixes invar :: "'m \<Rightarrow> bool" and empty :: 'm and insert :: "'k \<Rightarrow> 'v \<Rightarrow> 'm \<Rightarrow> 'm" and remove :: "'k \<Rightarrow> 'm \<Rightarrow> 'm"
    and lookup :: "'m \<Rightarrow> 'k \<rightharpoonup> 'v" and size :: "'m \<Rightarrow> nat"
  assumes invar_empty: "invar empty" and lookup_empty: "lookup empty = Map.empty"
    and invar_insert: "invar m \<Longrightarrow> invar (insert k v m)" and lookup_insert: "invar m \<Longrightarrow> lookup (insert k v m) = (lookup m)(k \<mapsto> v)"
    and invar_remove: "invar m \<Longrightarrow> invar (remove k m)" and lookup_remove: "invar m \<Longrightarrow> lookup (remove k m) = (lookup m)(k := None)"
    and size_card: "invar m \<Longrightarrow> size m = card (dom (lookup m))"
    and finite_dom: "invar m \<Longrightarrow> finite (dom (lookup m))"
    and ext: "invar m \<Longrightarrow> invar n \<Longrightarrow> lookup m = lookup n \<Longrightarrow> m = n"
begin

lemma size_zero: "invar m \<Longrightarrow> size m = 0 \<longleftrightarrow> m = empty"
  using size_card [of m] finite_dom [of m] ext [OF _ invar_empty, of m] by (auto simp: lookup_empty)

lemma insert_insert: "invar m \<Longrightarrow> insert k v (insert k u m) = insert k v m"
  by (rule ext) (simp_all add: invar_insert lookup_insert)

lemma remove_insert: "invar m \<Longrightarrow> remove k (insert k v m) = remove k m"
  by (rule ext) (simp_all add: invar_insert invar_remove lookup_insert lookup_remove)

end

type_synonym btree = "(bytes \<times> bytes) list"

fun bt_insert :: "bytes \<Rightarrow> bytes \<Rightarrow> btree \<Rightarrow> btree" where
  "bt_insert k v [] = [(k, v)]"
| "bt_insert k v ((j, u) # m) = (if k < j then (k, v) # (j, u) # m else if k = j then (k, v) # m else (j, u) # bt_insert k v m)"

fun bt_remove :: "bytes \<Rightarrow> btree \<Rightarrow> btree" where
  "bt_remove k [] = []"
| "bt_remove k ((j, u) # m) = (if k = j then m else (j, u) # bt_remove k m)"

abbreviation bt_get :: "btree \<Rightarrow> bytes \<Rightarrow> bytes option" where
  "bt_get \<equiv> map_of"

definition bt_sorted :: "btree \<Rightarrow> bool" where
  "bt_sorted m \<longleftrightarrow> sorted_wrt (<) (map fst m)"

lemma bt_sorted_simps [simp]: "bt_sorted []" "bt_sorted ((k, v) # m) \<longleftrightarrow> (\<forall>j\<in>fst ` set m. k < j) \<and> bt_sorted m"
  by (simp_all add: bt_sorted_def)

lemma keys_bt_insert: "fst ` set (bt_insert k v m) = insert k (fst ` set m)"
  by (induction k v m rule: bt_insert.induct) (simp_all add: insert_commute)

lemma bt_sorted_insert: "bt_sorted m \<Longrightarrow> bt_sorted (bt_insert k v m)"
proof (induction k v m rule: bt_insert.induct)
  case (2 k v j u m)
  consider "k < j" | "k = j" | "j < k" by fastforce
  then show ?case
  proof cases
    case 1
    then show ?thesis using 2 by (auto intro: less_trans)
  next
    case 2
    then show ?thesis using "2.prems" by simp
  next
    case 3
    then have "\<not> k < j" "k \<noteq> j" by auto
    with 3 show ?thesis using 2 by (simp add: keys_bt_insert)
  qed
qed simp

lemma keys_bt_remove: "j \<in> fst ` set (bt_remove k m) \<Longrightarrow> j \<in> fst ` set m"
  by (induction k m rule: bt_remove.induct) (auto split: if_splits)

lemma bt_sorted_remove: "bt_sorted m \<Longrightarrow> bt_sorted (bt_remove k m)"
proof (induction k m rule: bt_remove.induct)
  case (2 k j u m)
  have "i \<in> fst ` set (bt_remove k m) \<Longrightarrow> j < i" for i using keys_bt_remove [of i k m] "2.prems" by auto
  then show ?case using 2 by (cases "k = j") simp_all
qed simp

lemma bt_get_insert: "bt_get (bt_insert k v m) = (bt_get m)(k \<mapsto> v)"
  by (induction k v m rule: bt_insert.induct) (simp_all add: fun_eq_iff)

lemma bt_get_absent: "\<forall>j\<in>fst ` set m. k < j \<Longrightarrow> bt_get m k = None"
  by (auto simp: map_of_eq_None_iff)

lemma bt_get_remove: "bt_sorted m \<Longrightarrow> bt_get (bt_remove k m) = (bt_get m)(k := None)"
proof (induction k m rule: bt_remove.induct)
  case (2 k j u m)
  show ?case
  proof (cases "k = j")
    case True
    then have "bt_get m k = None" using "2.prems" bt_get_absent by simp
    then show ?thesis using True by (auto simp: fun_eq_iff)
  next
    case False
    then show ?thesis using 2 by (auto simp: fun_eq_iff)
  qed
qed simp

lemma bt_distinct: "bt_sorted m \<Longrightarrow> distinct (map fst m)"
  by (auto simp: bt_sorted_def strict_sorted_iff)

lemma bt_ext: "bt_sorted m \<Longrightarrow> bt_sorted n \<Longrightarrow> bt_get m = bt_get n \<Longrightarrow> m = n"
proof (rule map_sorted_distinct_set_unique [of fst])
  assume m: "bt_sorted m" "bt_sorted n" "bt_get m = bt_get n"
  have "set m = {(k, v). bt_get m k = Some v}" "set n = {(k, v). bt_get n k = Some v}"
    using m(1,2)[THEN bt_distinct] by auto
  then show "set m = set n" using m(3) by simp
  show "inj_on fst (set m \<union> set n)" using m \<open>set m = set n\<close> bt_distinct [OF m(1)] by (simp add: distinct_map)
qed (auto simp: bt_sorted_def strict_sorted_iff)

interpretation bt: ordered_map bt_sorted "[]" bt_insert bt_remove bt_get length
proof
  fix m :: btree assume m: "bt_sorted m"
  show "length m = card (dom (bt_get m))"
    using bt_distinct [OF m] by (metis dom_map_of_conv_image_fst distinct_card length_map list.set_map)
  show "finite (dom (bt_get m))" by (rule finite_dom_map_of)
qed (auto simp: bt_sorted_insert bt_get_insert bt_sorted_remove bt_get_remove bt_ext)

section \<open>Model\<close>

datatype command = Put bytes bytes | Delete bytes | Noop

record memtable =
  mt_map :: btree
  mt_last_applied :: u64

definition memtable_new :: memtable where
  "memtable_new = \<lparr>mt_map = [], mt_last_applied = 0\<rparr>"

definition from_parts :: "btree \<Rightarrow> u64 \<Rightarrow> memtable" where
  "from_parts data last_applied = \<lparr>mt_map = data, mt_last_applied = last_applied\<rparr>"

definition memtable_apply :: "u64 \<Rightarrow> command \<Rightarrow> memtable \<Rightarrow> memtable" where
  "memtable_apply index command t =
     (if index \<le> mt_last_applied t then t
      else let m = (case command of
               Put key value \<Rightarrow> bt_insert key value (mt_map t)
             | Delete key \<Rightarrow> bt_remove key (mt_map t)
             | Noop \<Rightarrow> mt_map t)
        in t\<lparr>mt_map := m, mt_last_applied := index\<rparr>)"

definition memtable_get :: "memtable \<Rightarrow> bytes \<Rightarrow> bytes option" where
  "memtable_get t key = bt_get (mt_map t) key"

definition memtable_len :: "memtable \<Rightarrow> nat" where
  "memtable_len t = length (mt_map t)"

definition memtable_is_empty :: "memtable \<Rightarrow> bool" where
  "memtable_is_empty t \<longleftrightarrow> mt_map t = []"

section \<open>What the table means\<close>

text \<open>The abstract state machine.\<close>

fun exec :: "command \<Rightarrow> (bytes \<rightharpoonup> bytes) \<Rightarrow> (bytes \<rightharpoonup> bytes)" where
  "exec (Put k v) m = m(k \<mapsto> v)"
| "exec (Delete k) m = m(k := None)"
| "exec Noop m = m"

text \<open>Applying the commands with consecutive indices starting at \<open>b\<close>.\<close>

primrec apply_from :: "nat \<Rightarrow> command list \<Rightarrow> memtable \<Rightarrow> memtable" where
  "apply_from b [] t = t"
| "apply_from b (c # cs) t = apply_from (Suc b) cs (memtable_apply (of_nat b) c t)"

lemma apply_from_append: "apply_from b (xs @ ys) t = apply_from (b + length xs) ys (apply_from b xs t)"
  by (induction xs arbitrary: b t) auto

lemma memtable_apply_old: "index \<le> mt_last_applied t \<Longrightarrow> memtable_apply index c t = t"
  by (simp add: memtable_apply_def)

lemma memtable_apply_new:
  assumes "mt_last_applied t < index" and "bt_sorted (mt_map t)"
  shows "bt_sorted (mt_map (memtable_apply index c t))" and "mt_last_applied (memtable_apply index c t) = index"
    and "memtable_get (memtable_apply index c t) = exec c (memtable_get t)"
proof -
  have new: "\<not> index \<le> mt_last_applied t" using assms(1) by simp
  show "bt_sorted (mt_map (memtable_apply index c t))"
    using assms(2) new by (cases c) (simp_all add: memtable_apply_def bt.invar_insert bt.invar_remove)
  show "mt_last_applied (memtable_apply index c t) = index"
    using new by (simp add: memtable_apply_def Let_def)
  show "memtable_get (memtable_apply index c t) = exec c (memtable_get t)"
    using assms(2) new by (cases c) (simp_all add: memtable_apply_def memtable_get_def [abs_def] bt.lookup_insert bt.lookup_remove)
qed

lemma apply_from_old:
  "b + length cs < u64_bound \<Longrightarrow> b + length cs \<le> Suc (unat (mt_last_applied t)) \<Longrightarrow> apply_from b cs t = t"
proof (induction cs arbitrary: b)
  case (Cons c cs)
  have "(of_nat b :: u64) \<le> mt_last_applied t" using Cons.prems by (simp add: word_le_nat_alt u64_unat_of_nat)
  then show ?case using Cons by (simp add: memtable_apply_old)
qed simp

lemma apply_from_run:
  "Suc (unat (mt_last_applied t)) = b \<Longrightarrow> b + length cs < u64_bound \<Longrightarrow> bt_sorted (mt_map t) \<Longrightarrow>
   bt_sorted (mt_map (apply_from b cs t)) \<and> Suc (unat (mt_last_applied (apply_from b cs t))) = b + length cs \<and>
   memtable_get (apply_from b cs t) = fold exec cs (memtable_get t)"
proof (induction cs arbitrary: b t)
  case (Cons c cs)
  have "mt_last_applied t < of_nat b" using Cons.prems by (simp add: word_less_nat_alt u64_unat_of_nat)
  note new = memtable_apply_new [OF this Cons.prems(3), of c]
  have "Suc (unat (mt_last_applied (memtable_apply (of_nat b) c t))) = Suc b"
    using new(2) Cons.prems(2) by (simp add: u64_unat_of_nat)
  from Cons.IH [OF this _ new(1)] have "bt_sorted (mt_map (apply_from b (c # cs) t)) \<and>
     Suc (unat (mt_last_applied (apply_from b (c # cs) t))) = Suc b + length cs \<and>
     memtable_get (apply_from b (c # cs) t) = fold exec cs (memtable_get (memtable_apply (of_nat b) c t))"
    using Cons.prems(2) by (simp only: apply_from.simps list.size)
  then show ?case unfolding new(3) by (simp del: apply_from.simps)
qed simp

section \<open>Properties\<close>

text \<open>C32. Applying committed commands in order makes the table the state machine's map: lookups agree with executing the
  commands one by one, the keys stay sorted and distinct, the size is the number of keys, and \<open>last_applied\<close> counts.\<close>

theorem memtable_refines:
  assumes "bt_sorted (mt_map t)" and "unat (mt_last_applied t) + length cs + 1 < 2 ^ 64"
  shows "let t' = apply_from (Suc (unat (mt_last_applied t))) cs t in
     memtable_get t' = fold exec cs (memtable_get t) \<and> bt_sorted (mt_map t') \<and>
     memtable_len t' = card (dom (memtable_get t')) \<and> mt_last_applied t' = mt_last_applied t + of_nat (length cs)"
proof -
  define t' where "t' = apply_from (Suc (unat (mt_last_applied t))) cs t"
  have r: "bt_sorted (mt_map t')" "unat (mt_last_applied t') = unat (mt_last_applied t) + length cs"
    "memtable_get t' = fold exec cs (memtable_get t)"
    using apply_from_run [OF refl _ assms(1), of cs] assms(2) by (auto simp: t'_def)
  have "mt_last_applied t' = of_nat (unat (mt_last_applied t) + length cs)" unfolding r(2) [symmetric] by simp
  then show ?thesis
    using r bt.size_card [OF r(1)] by (simp add: Let_def t'_def [symmetric] memtable_len_def memtable_get_def [abs_def])
qed

theorem memtable_refines_witness:
  "let t' = apply_from (Suc (unat (mt_last_applied memtable_new))) [Put [1] [2], Noop, Put [0] [3], Delete [1]] memtable_new in
     memtable_get t' = fold exec [Put [1] [2], Noop, Put [0] [3], Delete [1]] (memtable_get memtable_new) \<and> bt_sorted (mt_map t') \<and>
     memtable_len t' = card (dom (memtable_get t')) \<and>
     mt_last_applied t' = mt_last_applied memtable_new + of_nat (length [Put [1] [2], Noop, Put [0] [3], Delete [1]])"
  by (rule memtable_refines [of memtable_new "[Put [1] [2], Noop, Put [0] [3], Delete [1]]"])
    (simp add: memtable_new_def bt_sorted_def, simp add: memtable_new_def)

text \<open>C33. Replay is idempotent: a table that reflects the first \<open>k\<close> commands (a snapshot, say) and is then fed the whole log from
  any index at or below \<open>k + 1\<close> ends up equal to the table fed every command once, bit for bit.\<close>

theorem memtable_replay:
  assumes "k \<le> length cs" and "b \<le> k" and "length cs + 1 < 2 ^ 64" and "t = apply_from 1 (take k cs) memtable_new"
  shows "apply_from (Suc b) (drop b cs) t = apply_from 1 cs memtable_new"
proof -
  have last: "Suc (unat (mt_last_applied t)) = 1 + k"
    using apply_from_run [of memtable_new 1 "take k cs"] assms by (simp add: memtable_new_def)
  have split: "drop b cs = drop b (take k cs) @ drop k cs"
    using assms(1,2) by (metis append_take_drop_id drop_append le_add_diff_inverse length_take min.absorb2 diff_is_0_eq' drop0)
  have "apply_from (Suc b) (drop b (take k cs)) t = t"
    using last assms(1-3) by (intro apply_from_old) auto
  then have "apply_from (Suc b) (drop b cs) t = apply_from (1 + k) (drop k cs) t"
    using assms(1,2) by (simp add: split apply_from_append)
  also have "\<dots> = apply_from 1 (take k cs @ drop k cs) memtable_new"
    using assms(1,4) by (simp only: apply_from_append length_take min.absorb2)
  finally show ?thesis by simp
qed

theorem memtable_replay_witness:
  "apply_from (Suc 1) (drop 1 [Put [1] [2], Put [3] [4], Delete [1]]) (apply_from 1 (take 2 [Put [1] [2], Put [3] [4], Delete [1]]) memtable_new) =
   apply_from 1 [Put [1] [2], Put [3] [4], Delete [1]] memtable_new"
  by (rule memtable_replay [of 2 "[Put [1] [2], Put [3] [4], Delete [1]]" 1
        "apply_from 1 (take 2 [Put [1] [2], Put [3] [4], Delete [1]]) memtable_new"])
    (simp, simp, simp, rule refl)

end
