(* ===== verification/Node_Config.thy ===== *)
theory Node_Config
  imports Platform
begin

text \<open>
  Node configuration, \<^verbatim>\<open>src/config.rs\<close>, and the choice of it in \<^verbatim>\<open>src/main.rs\<close>: defaults, the TOML form,
  validation, the paths under the data directory, cluster size and quorum, peers given as flags.
  Durations are in nanoseconds. Parsing of TOML and of socket addresses and the check for valid UTF-8
  are parameters.
\<close>

section \<open>Model\<close>

record peer =
  peer_id :: u64
  peer_addr :: string

record config =
  cfg_id :: u64
  cfg_listen_addr :: string
  cfg_peers :: "peer list"
  cfg_data_dir :: path
  cfg_heartbeat_interval :: nat
  cfg_election_start :: nat   \<comment> \<open>\<open>election_timeout.start\<close>\<close>
  cfg_election_end :: nat     \<comment> \<open>\<open>election_timeout.end\<close>\<close>
  cfg_segment_max_bytes :: u64
  cfg_snapshot_threshold :: u64

text \<open>\<open>Duration::from_millis\<close>, and \<open>as_millis() as u64\<close>.\<close>

definition from_millis :: "u64 \<Rightarrow> nat" where
  "from_millis ms = unat ms * 1000000"

definition as_millis :: "nat \<Rightarrow> u64" where
  "as_millis d = of_nat (d div 1000000)"

definition config_new :: "u64 \<Rightarrow> string \<Rightarrow> path \<Rightarrow> config" where
  "config_new node_id listen_addr data_dir = \<lparr>cfg_id = node_id, cfg_listen_addr = listen_addr, cfg_peers = [], cfg_data_dir = data_dir,
     cfg_heartbeat_interval = from_millis 50, cfg_election_start = from_millis 150, cfg_election_end = from_millis 300,
     cfg_segment_max_bytes = 64 * 1024 * 1024, cfg_snapshot_threshold = 10000\<rparr>"

definition with_peers :: "peer list \<Rightarrow> config \<Rightarrow> config" where
  "with_peers peers c = c\<lparr>cfg_peers := peers\<rparr>"

definition wal_dir :: "config \<Rightarrow> path" where
  "wal_dir c = join_path (cfg_data_dir c) ''wal''"

definition snapshot_dir :: "config \<Rightarrow> path" where
  "snapshot_dir c = join_path (cfg_data_dir c) ''snapshots''"

definition hard_state_path :: "config \<Rightarrow> path" where
  "hard_state_path c = join_path (cfg_data_dir c) ''hard_state''"

definition cluster_size :: "config \<Rightarrow> nat" where
  "cluster_size c = length (cfg_peers c) + 1"

definition config_quorum :: "config \<Rightarrow> nat" where
  "config_quorum c = cluster_size c div 2 + 1"

text \<open>\<open>ids.windows(2).any(|w| w[0] == w[1])\<close>.\<close>

fun adjacent_equal :: "u64 list \<Rightarrow> bool" where
  "adjacent_equal (a # b # xs) = (a = b \<or> adjacent_equal (b # xs))"
| "adjacent_equal _ = False"

definition validate :: "config \<Rightarrow> error + unit" where
  "validate c =
     (if cfg_id c = 0 then Inl (Config ''node id must be non-zero'')
      else if cfg_election_start c \<le> cfg_heartbeat_interval c
        then Inl (Config ''election timeout must be larger than the heartbeat interval'')
      else if cfg_election_end c \<le> cfg_election_start c
        then Inl (Config ''election timeout range must be non-empty (start < end)'')
      else let ids = sort (map peer_id (cfg_peers c) @ [cfg_id c]) in
        if adjacent_equal ids then Inl (Config ''duplicate node id in cluster'')
        else Inr ())"

text \<open>The TOML document as parsed: fields that may be missing are optional.\<close>

record raw_config =
  raw_id :: u64
  raw_listen_addr :: string
  raw_peers :: "(u64 \<times> string) list option"
  raw_data_dir :: path
  raw_heartbeat_ms :: "u64 option"
  raw_election_min_ms :: "u64 option"
  raw_election_max_ms :: "u64 option"
  raw_segment_max_bytes :: "u64 option"
  raw_snapshot_threshold :: "u64 option"

record file_config =
  fc_id :: u64
  fc_listen_addr :: string
  fc_peers :: "(u64 \<times> string) list"
  fc_data_dir :: path
  fc_heartbeat_ms :: u64
  fc_election_min_ms :: u64
  fc_election_max_ms :: u64
  fc_segment_max_bytes :: u64
  fc_snapshot_threshold :: u64

definition default_heartbeat_ms :: u64 where "default_heartbeat_ms = 50"
definition default_election_min_ms :: u64 where "default_election_min_ms = 150"
definition default_election_max_ms :: u64 where "default_election_max_ms = 300"
definition default_segment_max_bytes :: u64 where "default_segment_max_bytes = 64 * 1024 * 1024"
definition default_snapshot_threshold :: u64 where "default_snapshot_threshold = 10000"

definition or_default :: "'a \<Rightarrow> 'a option \<Rightarrow> 'a" where
  "or_default d v = (case v of None \<Rightarrow> d | Some x \<Rightarrow> x)"

definition fill_defaults :: "raw_config \<Rightarrow> file_config" where
  "fill_defaults r = \<lparr>fc_id = raw_id r, fc_listen_addr = raw_listen_addr r, fc_peers = or_default [] (raw_peers r), fc_data_dir = raw_data_dir r,
     fc_heartbeat_ms = or_default default_heartbeat_ms (raw_heartbeat_ms r),
     fc_election_min_ms = or_default default_election_min_ms (raw_election_min_ms r),
     fc_election_max_ms = or_default default_election_max_ms (raw_election_max_ms r),
     fc_segment_max_bytes = or_default default_segment_max_bytes (raw_segment_max_bytes r),
     fc_snapshot_threshold = or_default default_snapshot_threshold (raw_snapshot_threshold r)\<rparr>"

text \<open>Outside code: UTF-8 validity, the TOML parser and the socket-address parser (an address stands for itself).\<close>

record ext_conf = ext +
  x_utf8 :: "bytes \<Rightarrow> bool"
  x_toml :: "bytes \<Rightarrow> string + raw_config"
  x_parse_addr :: "string \<Rightarrow> string + string"

definition into_config :: "('x) ext_conf_scheme \<Rightarrow> file_config \<Rightarrow> error + config" where
  "into_config X f = (case x_parse_addr X (fc_listen_addr f) of
     Inl e \<Rightarrow> Inl (Config (''invalid listen_addr: '' @ e))
   | Inr addr \<Rightarrow>
       let cfg = \<lparr>cfg_id = fc_id f, cfg_listen_addr = addr, cfg_peers = map (\<lambda>(i, a). \<lparr>peer_id = i, peer_addr = a\<rparr>) (fc_peers f),
         cfg_data_dir = fc_data_dir f, cfg_heartbeat_interval = from_millis (fc_heartbeat_ms f),
         cfg_election_start = from_millis (fc_election_min_ms f), cfg_election_end = from_millis (fc_election_max_ms f),
         cfg_segment_max_bytes = fc_segment_max_bytes f, cfg_snapshot_threshold = fc_snapshot_threshold f\<rparr>
       in case validate cfg of Inl e \<Rightarrow> Inl e | Inr _ \<Rightarrow> Inr cfg)"

definition from_file :: "('x) ext_conf_scheme \<Rightarrow> path \<Rightarrow> config io" where
  "from_file X path = andThen (read_file path) (\<lambda>text w.
     if \<not> x_utf8 X text then (Inl (Io OtherIo), w)
     else case x_toml X text of
       Inl e \<Rightarrow> (Inl (Config (''invalid TOML: '' @ e)), w)
     | Inr raw \<Rightarrow> (into_config X (fill_defaults raw), w))"

text \<open>Peers as flags: \<open>id=host:port\<close>, split at the first equals sign.\<close>

fun split_once :: "char \<Rightarrow> string \<Rightarrow> (string \<times> string) option" where
  "split_once c [] = None"
| "split_once c (x # xs) = (if x = c then Some ([], xs) else map_option (map_prod (Cons x) id) (split_once c xs))"

definition parse_peer :: "string \<Rightarrow> string + peer" where
  "parse_peer s = (case split_once (CHR ''='') s of
     None \<Rightarrow> Inl (''expected `id=host:port`, got `'' @ s @ ''`'')
   | Some (i, addr) \<Rightarrow> (case parse_u64 i of
       None \<Rightarrow> Inl (''invalid peer id in `'' @ s @ ''`'')
     | Some n \<Rightarrow> Inr \<lparr>peer_id = n, peer_addr = addr\<rparr>))"

record cli =
  cli_id :: u64
  cli_listen :: string
  cli_data_dir :: path
  cli_peers :: "peer list"
  cli_config :: "path option"

text \<open>The configuration \<open>main\<close> runs with.\<close>

definition main_config :: "('x) ext_conf_scheme \<Rightarrow> cli \<Rightarrow> config io" where
  "main_config X c =
     andThen (case cli_config c of
         Some path \<Rightarrow> from_file X path
       | None \<Rightarrow> ret (with_peers (cli_peers c) (config_new (cli_id c) (cli_listen c) (cli_data_dir c)))) (\<lambda>cfg w.
     (case validate cfg of Inl e \<Rightarrow> (Inl e, w) | Inr _ \<Rightarrow> (Inr cfg, w)))"

section \<open>Validation\<close>

lemma adjacent_equal_sorted: "sorted xs \<Longrightarrow> adjacent_equal xs \<longleftrightarrow> \<not> distinct xs"
proof (induction xs rule: adjacent_equal.induct)
  case (1 a b xs)
  then have IH: "adjacent_equal (b # xs) \<longleftrightarrow> \<not> distinct (b # xs)" by simp
  have "a \<in> set xs \<Longrightarrow> a = b" using "1.prems" by (auto intro: antisym)
  then show ?case using IH by auto
qed auto

lemma validate_iff:
  "validate c = Inr () \<longleftrightarrow> cfg_id c \<noteq> 0 \<and> cfg_heartbeat_interval c < cfg_election_start c \<and>
     cfg_election_start c < cfg_election_end c \<and> distinct (cfg_id c # map peer_id (cfg_peers c))"
proof -
  have "adjacent_equal (sort (map peer_id (cfg_peers c) @ [cfg_id c])) \<longleftrightarrow> \<not> distinct (cfg_id c # map peer_id (cfg_peers c))"
    by (subst adjacent_equal_sorted) auto
  then show ?thesis by (auto simp: validate_def Let_def simp del: distinct.simps)
qed

text \<open>In milliseconds the timeout range of a configuration read from a file is still non-empty.\<close>

lemma as_millis_from_millis [simp]: "as_millis (from_millis ms) = ms"
  by (simp add: as_millis_def from_millis_def)

lemma into_config_Inr:
  "into_config X f = Inr c \<Longrightarrow> validate c = Inr () \<and> cfg_election_start c = from_millis (fc_election_min_ms f) \<and>
     cfg_election_end c = from_millis (fc_election_max_ms f)"
  by (auto simp: into_config_def Let_def split: sum.splits)

section \<open>Quorums\<close>

text \<open>What consensus needs of quorums: any two have a member in common.\<close>

locale quorum_system =
  fixes quorum :: "'n set \<Rightarrow> bool" and nodes :: "'n set"
  assumes finite_nodes: "finite nodes"
    and intersect: "quorum Q \<Longrightarrow> quorum R \<Longrightarrow> Q \<subseteq> nodes \<Longrightarrow> R \<subseteq> nodes \<Longrightarrow> Q \<inter> R \<noteq> {}"
begin

text \<open>If every member of a quorum voted for one candidate, no quorum voted for another.\<close>

lemma votes_agree:
  assumes "quorum {n\<in>nodes. vote n = Some a}" and "quorum {n\<in>nodes. vote n = Some b}"
  shows "a = b"
proof -
  have "{n\<in>nodes. vote n = Some a} \<inter> {n\<in>nodes. vote n = Some b} \<noteq> {}"
    using assms by (intro intersect) auto
  then show ?thesis by auto
qed

end

definition majority :: "nat \<Rightarrow> 'n set \<Rightarrow> bool" where
  "majority n Q \<longleftrightarrow> n div 2 + 1 \<le> card Q"

lemma majorities_intersect:
  assumes "finite nodes" and "card nodes \<le> n" and "majority n Q" and "majority n R" and "Q \<subseteq> nodes" and "R \<subseteq> nodes"
  shows "Q \<inter> R \<noteq> {}"
proof
  assume "Q \<inter> R = {}"
  then have "card Q + card R = card (Q \<union> R)" using assms finite_subset by (metis card_Un_disjoint)
  also have "\<dots> \<le> card nodes" using assms by (intro card_mono) auto
  finally show False using assms(2-4) by (simp add: majority_def)
qed

text \<open>The nodes of a cluster, as one of them sees it.\<close>

definition cluster :: "config \<Rightarrow> u64 set" where
  "cluster c = insert (cfg_id c) (peer_id ` set (cfg_peers c))"

lemma card_cluster_le: "card (cluster c) \<le> cluster_size c"
proof -
  have "card (peer_id ` set (cfg_peers c)) \<le> length (cfg_peers c)"
    using card_length [of "map peer_id (cfg_peers c)"] by simp
  then show ?thesis
    using card_insert_le_m1 [of "Suc (length (cfg_peers c))" "peer_id ` set (cfg_peers c)" "cfg_id c"]
    by (simp add: cluster_def cluster_size_def)
qed

interpretation cq: quorum_system "majority (cluster_size c)" "cluster c" for c :: config
proof
  show "finite (cluster c)" by (simp add: cluster_def)
  fix Q R assume "majority (cluster_size c) Q" "majority (cluster_size c) R" "Q \<subseteq> cluster c" "R \<subseteq> cluster c"
  then show "Q \<inter> R \<noteq> {}" using majorities_intersect [OF \<open>finite (cluster c)\<close> card_cluster_le] by blast
qed

end
