(* ===== verification/Raft_State.thy ===== *)
theory Raft_State
  imports World_Frame Memtable Node_Config
begin

text \<open>
  The vocabulary of consensus and the state that must survive a crash, \<^verbatim>\<open>src/raft/state.rs\<close>: roles, log entries,
  and the hard state (term and vote) with its atomic persistence.
\<close>

section \<open>Model\<close>

datatype role = Follower | Candidate | Leader

record log_entry =
  le_term :: u64
  le_index :: u64
  le_command :: command

record hard_state =
  hs_term :: u64
  hs_voted_for :: "u64 option"

definition default_hard_state :: hard_state where
  "default_hard_state = \<lparr>hs_term = 0, hs_voted_for = None\<rparr>"

record snapshot_meta =
  sm_index :: u64
  sm_term :: u64

record snapshot_file =
  sf_meta :: snapshot_meta
  sf_data :: btree

text \<open>Outside code: \<^verbatim>\<open>bincode\<close> on the four types the crate serialises.\<close>

record ext_node = ext_conf +
  x_ser_hard :: "hard_state \<Rightarrow> bytes option"
  x_de_hard :: "bytes \<Rightarrow> hard_state option"
  x_ser_entry :: "log_entry \<Rightarrow> bytes option"
  x_de_entry :: "bytes \<Rightarrow> log_entry option"
  x_ser_snap :: "snapshot_file \<Rightarrow> bytes option"
  x_de_snap :: "bytes \<Rightarrow> snapshot_file option"
  x_ser_command :: "command \<Rightarrow> bytes option"
  x_de_command :: "bytes \<Rightarrow> command option"

text \<open>The documented behaviour of a serialiser: what it writes, it reads back.\<close>

definition codec :: "('a \<Rightarrow> bytes option) \<Rightarrow> (bytes \<Rightarrow> 'a option) \<Rightarrow> 'a set \<Rightarrow> bool" where
  "codec ser de A \<longleftrightarrow> (\<forall>x\<in>A. \<exists>bs. ser x = Some bs \<and> de bs = Some x)"

lemma codecE:
  assumes "codec ser de A" and "x \<in> A"
  obtains bs where "ser x = Some bs" and "de bs = Some x"
  using assms by (auto simp: codec_def)

definition path_parent :: "path \<Rightarrow> path option" where
  "path_parent p = (if p = [] then None else Some (butlast p))"

definition on_parent :: "path \<Rightarrow> (path \<Rightarrow> unit io) \<Rightarrow> unit io" where
  "on_parent p f = (case path_parent p of None \<Rightarrow> ret () | Some d \<Rightarrow> f d)"

definition tmp_path :: "path \<Rightarrow> path" where
  "tmp_path p = push_str p ''.tmp''"

definition hard_load :: "('x) ext_node_scheme \<Rightarrow> path \<Rightarrow> hard_state io" where
  "hard_load X path w = (case read_file path w of
     (Inr bytes, w') \<Rightarrow> (case x_de_hard X bytes of None \<Rightarrow> (Inl Encode, w') | Some h \<Rightarrow> (Inr h, w'))
   | (Inl e, w') \<Rightarrow> if e = Io NotFound then (Inr default_hard_state, w') else (Inl e, w'))"

definition hard_persist :: "('x) ext_node_scheme \<Rightarrow> hard_state \<Rightarrow> path \<Rightarrow> unit io" where
  "hard_persist X h path =
     andThen (on_parent path create_dir_all) (\<lambda>_.
     case x_ser_hard X h of None \<Rightarrow> throw Encode | Some bytes \<Rightarrow>
     andThen (install_file (tmp_path path) path bytes) (\<lambda>_.
     on_parent path sync_dir))"

section \<open>What the file holds\<close>

definition hard_paths :: "path \<Rightarrow> path set" where
  "hard_paths path = {tmp_path path, path}"

definition stored_hard :: "('x) ext_node_scheme \<Rightarrow> bytes option \<Rightarrow> hard_state option" where
  "stored_hard X v = (case v of None \<Rightarrow> Some default_hard_state | Some bs \<Rightarrow> x_de_hard X bs)"

text \<open>Now and after any crash the file holds one of the states \<open>hs\<close>, and no other path leads to it.\<close>

definition hard_file :: "('x) ext_node_scheme \<Rightarrow> world \<Rightarrow> path \<Rightarrow> hard_state set \<Rightarrow> bool" where
  "hard_file X w path hs \<longleftrightarrow> atomic_ok w (tmp_path path) path {v. \<exists>h\<in>hs. stored_hard X v = Some h} \<and> owned w (hard_paths path)"

lemma hard_file_fs_ok: "hard_file X w path hs \<Longrightarrow> fs_ok w"
  by (simp add: hard_file_def atomic_ok_def)

lemma hard_file_path: "hard_file X w path hs \<Longrightarrow> path \<noteq> [] \<and> tmp_path path \<noteq> path"
  by (simp add: hard_file_def atomic_ok_def)

lemma hard_file_mono: "hard_file X w path hs \<Longrightarrow> hs \<subseteq> hs' \<Longrightarrow> hard_file X w path hs'"
  unfolding hard_file_def by (auto intro: atomic_ok_mono)

lemma hard_file_script [simp]: "hard_file X (w\<lparr>w_events := es\<rparr>) path hs = hard_file X w path hs"
  by (simp add: hard_file_def)

lemma hard_file_crash: "hard_file X w path hs \<Longrightarrow> crash w w' \<Longrightarrow> hard_file X w' path hs"
  unfolding hard_file_def
proof (elim conjE, intro conjI)
  assume o: "owned w (hard_paths path)" and c: "crash w w'"
  show "owned w' (hard_paths path)"
  proof (rule ownedI)
    show "fs_ok w'" using crash_fs_ok [OF _ c] o by (simp add: walled_def)
    show "q \<in> hard_paths path" if "p \<in> hard_paths path" "reach w' p i" "reach w' q i" for p q i
      using that(1) crash_reach [OF c that(2)] crash_reach [OF c that(3)] o unfolding walled_def files_of_def by blast
  qed
qed (rule atomic_ok_crash)

lemma hard_file_spares:
  assumes "hard_file X w path hs" and "spares (hard_paths path) (files_of w (hard_paths path)) w w'"
  shows "hard_file X w' path hs"
proof -
  have "own_inodes w path \<subseteq> files_of w (hard_paths path)"
    by (auto simp: own_inodes_def files_of_def reach_entries hard_paths_def)
  then have "spares (hard_paths path) (own_inodes w path) w w'" using assms(2) spares_mono by blast
  then show ?thesis
    using assms(1) atomic_ok_spares owned_spares [OF assms(2)] by (auto simp: hard_file_def hard_paths_def)
qed

lemma stored_codec: "codec (x_ser_hard X) (x_de_hard X) UNIV \<Longrightarrow> x_ser_hard X h = Some bs \<Longrightarrow> stored_hard X (Some bs) = Some h"
  by (auto simp: stored_hard_def elim: codecE [of _ _ _ h])

lemma wp_atomic_ok_create_dir:
  "atomic_ok w tmp path vals \<Longrightarrow> wp (create_dir_all d) (\<lambda>_ w'. atomic_ok w' tmp path vals) (\<lambda>_ w'. atomic_ok w' tmp path vals) w"
  unfolding create_dir_all_def
proof (rule wp_syscall)
  fix es
  have "fs_ok (w\<lparr>w_dirs := ds\<rparr>) = fs_ok w" "entries (w\<lparr>w_dirs := ds\<rparr>) = entries w" "entry_ok (w\<lparr>w_dirs := ds\<rparr>) = entry_ok w" for w :: world and ds
    by (simp add: fs_ok_def) (intro ext, simp add: entries_def entry_ok_def split: option.splits)+
  then show "atomic_ok w tmp path vals \<Longrightarrow> wp (\<lambda>w. (Inr (), if d \<in> set (w_dirs w) then w else w\<lparr>w_dirs := d # w_dirs w\<rparr>))
      (\<lambda>_ w'. atomic_ok w' tmp path vals) (\<lambda>_ w'. atomic_ok w' tmp path vals) (w\<lparr>w_events := es\<rparr>)"
    by (auto simp: wp_def atomic_ok_def)
qed simp

lemma hard_persist_replace:
  assumes "path \<noteq> []" and "x_ser_hard X h = Some bs"
  shows "hard_persist X h path = andThen (create_dir_all (butlast path)) (\<lambda>_. replace_file (tmp_path path) path bs)"
  using assms by (simp add: hard_persist_def on_parent_def path_parent_def replace_file_def)

text \<open>Whatever fails, the file holds an old state or the new one; success means the new one.\<close>

lemma wp_hard_persist:
  assumes "hard_file X w path hs" and "codec (x_ser_hard X) (x_de_hard X) UNIV"
  shows "wp (hard_persist X h path) (\<lambda>_ w'. hard_file X w' path {h} \<and> stays_in (hard_paths path) w w')
     (\<lambda>_ w'. hard_file X w' path (insert h hs) \<and> stays_in (hard_paths path) w w') w"
proof -
  let ?S = "hard_paths path" and ?vals = "{v. \<exists>h\<in>hs. stored_hard X v = Some h}"
  obtain bs where bs: "x_ser_hard X h = Some bs" using assms(2) by (auto elim: codecE)
  have st: "stored_hard X (Some bs) = Some h" using stored_codec [OF assms(2) bs] .
  have p: "path \<noteq> []" "tmp_path path \<noteq> path" "atomic_ok w (tmp_path path) path ?vals" "owned w ?S" "fs_ok w"
    using assms(1) hard_file_path [OF assms(1)] hard_file_fs_ok [OF assms(1)] by (auto simp: hard_file_def)
  let ?m = "andThen (create_dir_all (butlast path)) (\<lambda>_. replace_file (tmp_path path) path bs)"
  have stays: "stays ?S w ?m w"
    unfolding wp_andThen replace_file_def
    by (intro wp_conseq [OF stays_create_dir_all] wp_conseq [OF stays_install_file] stays_sync_dir stays_in_refl p)
      (simp_all add: hard_paths_def p stays_in_refl)
  have atomic: "wp ?m (\<lambda>_ w'. atomic_ok w' (tmp_path path) path {Some bs}) (\<lambda>_ w'. atomic_ok w' (tmp_path path) path (insert (Some bs) ?vals)) w"
    unfolding wp_andThen
    by (intro wp_conseq [OF wp_atomic_ok_create_dir [OF p(3)]] wp_replace_file) (auto intro: atomic_ok_mono)
  have ok: "hard_file X w' path hs'" if "stays_in ?S w w'" "atomic_ok w' (tmp_path path) path vals" "vals \<subseteq> {v. \<exists>h\<in>hs'. stored_hard X v = Some h}" for w' hs' vals
    using that owned_stays_in [OF p(4)] atomic_ok_mono unfolding hard_file_def by blast
  show ?thesis
    unfolding hard_persist_replace [OF p(1) bs]
    using wp_conj [OF stays atomic]
    by (elim wp_conseq) (use st ok [of _ "{Some bs}" "{h}"] ok [of _ "insert (Some bs) ?vals" "insert h hs"] in auto)
qed

text \<open>When nothing fails it succeeds.\<close>

lemma hard_persist_run:
  assumes "hard_file X w path hs" and "codec (x_ser_hard X) (x_de_hard X) UNIV" and "w_clean w"
  shows "\<exists>w'. hard_persist X h path w = (Inr (), w') \<and> w_clean w' \<and> hard_file X w' path {h}"
proof -
  obtain bs where bs: "x_ser_hard X h = Some bs" using assms(2) by (auto elim: codecE)
  have p: "path \<noteq> []" "tmp_path path \<noteq> path" using hard_file_path [OF assms(1)] by simp_all
  let ?m = "andThen (create_dir_all (butlast path)) (\<lambda>_. replace_file (tmp_path path) path bs)"
  have b: "butlast (tmp_path path) = butlast path" using assms(1) by (simp add: hard_file_def atomic_ok_def)
  have "\<exists>w'. ?m w = (Inr (), w') \<and> w_clean w'"
    using assms(3) b
    by (cases "w_find w (tmp_path path)") (auto simp: create_dir_all_def replace_file_def install_file_def andThen_def open_create_truncate_def syscall_clean
        write_file_def file_write_all_clean sync_all_def rename_file_renamed sync_dir_def new_file_def)
  moreover have "hard_persist X h path = ?m" by (rule hard_persist_replace [OF p(1) bs])
  ultimately obtain w' where w': "hard_persist X h path w = (Inr (), w')" "w_clean w'" by auto
  show ?thesis using w' wpD [OF wp_hard_persist [OF assms(1,2)] w'(1)] by blast
qed

lemma wp_hard_load:
  assumes "hard_file X w path hs"
  shows "wp (hard_load X path) (\<lambda>h w'. h \<in> hs \<and> (\<exists>es. w' = w\<lparr>w_events := es\<rparr>)) (\<lambda>_ w'. \<exists>es. w' = w\<lparr>w_events := es\<rparr>) w"
proof -
  obtain e es where e: "pop_event w = (e, w\<lparr>w_events := es\<rparr>)" using pop_event_events by blast
  have c: "file_content w path \<in> {v. \<exists>h\<in>hs. stored_hard X v = Some h}" using assms unfolding hard_file_def by (elim conjE) (rule atomic_ok_content)
  show ?thesis
    using e c by (auto simp: wp_def hard_load_def read_file_def syscall_def file_content_def stored_hard_def simp del: map_of_eq_Some_iff split: option.splits)
qed

lemma hard_load_run:
  assumes "hard_file X w path hs" and "w_clean w"
  shows "\<exists>h\<in>hs. hard_load X path w = (Inr h, w\<lparr>w_events := tl (w_events w)\<rparr>)"
proof -
  have "file_content w path \<in> {v. \<exists>h\<in>hs. stored_hard X v = Some h}"
    using assms(1) unfolding hard_file_def by (elim conjE) (rule atomic_ok_content)
  then show ?thesis
    using assms(2) by (auto simp: hard_load_def read_file_def syscall_clean file_content_def stored_hard_def simp del: map_of_eq_Some_iff split: option.splits)
qed

section \<open>Round trips of outside code, for witnesses\<close>

text \<open>A self-delimiting encoding, a concrete instance of the serialisers.\<close>

definition enc_bytes :: "bytes \<Rightarrow> bytes" where
  "enc_bytes bs = concat (map (\<lambda>b. [1, b]) bs) @ [0]"

fun dec_bytes :: "bytes \<Rightarrow> (bytes \<times> bytes) option" where
  "dec_bytes (t # b # rest) = (if t = 0 then Some ([], b # rest) else map_option (map_prod (Cons b) id) (dec_bytes rest))"
| "dec_bytes [t] = (if t = 0 then Some ([], []) else None)"
| "dec_bytes [] = None"

lemma dec_enc_bytes [simp]: "dec_bytes (enc_bytes bs @ rest) = Some (bs, rest)"
proof (induction bs)
  case Nil
  show ?case by (cases rest) (simp_all add: enc_bytes_def)
qed (simp add: enc_bytes_def)

definition enc_u64 :: "u64 \<Rightarrow> bytes" where
  "enc_u64 n = enc_bytes (map (\<lambda>c. of_nat (of_char c)) (show_u64_20 n))"

definition dec_u64 :: "bytes \<Rightarrow> (u64 \<times> bytes) option" where
  "dec_u64 bs = Option.bind (dec_bytes bs) (\<lambda>(ds, rest). map_option (\<lambda>n. (n, rest)) (parse_u64 (map (\<lambda>b. char_of (unat b)) ds)))"

lemma char_byte: "char_of (unat (of_nat (of_char c) :: u8)) = c"
  by (simp add: unat_of_nat)

lemma dec_enc_u64 [simp]: "dec_u64 (enc_u64 n @ rest) = Some (n, rest)"
  by (simp add: dec_u64_def enc_u64_def comp_def char_byte parse_u64_show_u64_20)

definition enc_hard :: "hard_state \<Rightarrow> bytes" where
  "enc_hard h = enc_u64 (hs_term h) @ (case hs_voted_for h of None \<Rightarrow> [] | Some v \<Rightarrow> enc_u64 v)"

definition dec_hard :: "bytes \<Rightarrow> hard_state option" where
  "dec_hard bs = Option.bind (dec_u64 bs) (\<lambda>(t, rest). if rest = [] then Some \<lparr>hs_term = t, hs_voted_for = None\<rparr>
     else map_option (\<lambda>(v, _). \<lparr>hs_term = t, hs_voted_for = Some v\<rparr>) (dec_u64 rest))"

lemma dec_enc_hard: "dec_hard (enc_hard h) = Some h"
proof (cases h)
  case (fields t v)
  have "enc_u64 x \<noteq> []" for x by (simp add: enc_u64_def enc_bytes_def)
  then show ?thesis
    using dec_enc_u64 [of t "[]"] dec_enc_u64 [of _ "[]"] by (cases v) (simp_all add: fields dec_hard_def enc_hard_def)
qed

fun enc_command :: "command \<Rightarrow> bytes" where
  "enc_command (Put k v) = 0 # enc_bytes k @ enc_bytes v"
| "enc_command (Delete k) = 1 # enc_bytes k"
| "enc_command Noop = [2]"

definition dec_command :: "bytes \<Rightarrow> command option" where
  "dec_command bs = (case bs of [] \<Rightarrow> None | t # rest \<Rightarrow>
     if t = 0 then Option.bind (dec_bytes rest) (\<lambda>(k, rest). map_option (\<lambda>(v, _). Put k v) (dec_bytes rest))
     else if t = 1 then map_option (\<lambda>(k, _). Delete k) (dec_bytes rest) else Some Noop)"

lemma dec_enc_command [simp]: "dec_command (enc_command c) = Some c"
  using dec_enc_bytes [of _ "[]"] by (cases c) (simp_all add: dec_command_def)

definition enc_entry :: "log_entry \<Rightarrow> bytes" where
  "enc_entry e = enc_u64 (le_term e) @ enc_u64 (le_index e) @ enc_command (le_command e)"

definition dec_entry :: "bytes \<Rightarrow> log_entry option" where
  "dec_entry bs = Option.bind (dec_u64 bs) (\<lambda>(t, rest). Option.bind (dec_u64 rest) (\<lambda>(i, rest).
     map_option (\<lambda>c. \<lparr>le_term = t, le_index = i, le_command = c\<rparr>) (dec_command rest)))"

lemma dec_enc_entry: "dec_entry (enc_entry e) = Some e"
  by (cases e) (simp add: dec_entry_def enc_entry_def)

fun enc_pairs :: "btree \<Rightarrow> bytes" where
  "enc_pairs [] = []"
| "enc_pairs ((k, v) # m) = enc_bytes k @ enc_bytes v @ enc_pairs m"

fun dec_pairs :: "nat \<Rightarrow> bytes \<Rightarrow> btree option" where
  "dec_pairs 0 bs = None"
| "dec_pairs (Suc n) bs = (if bs = [] then Some [] else Option.bind (dec_bytes bs) (\<lambda>(k, bs).
     Option.bind (dec_bytes bs) (\<lambda>(v, bs). map_option (Cons (k, v)) (dec_pairs n bs))))"

lemma dec_enc_pairs: "length (enc_pairs m) < n \<Longrightarrow> dec_pairs n (enc_pairs m) = Some m"
proof (induction m arbitrary: n rule: enc_pairs.induct)
  case 1
  then show ?case by (cases n) simp_all
next
  case (2 k v m)
  have ne: "length (enc_bytes k) = Suc (2 * length k)" by (induction k) (simp_all add: enc_bytes_def)
  obtain n' where n': "n = Suc n'" using "2.prems" by (cases n) auto
  then have "length (enc_pairs m) < n'" using "2.prems" ne by simp
  then show ?case using "2.IH" ne by (auto simp: n')
qed

definition enc_snap :: "snapshot_file \<Rightarrow> bytes" where
  "enc_snap f = enc_u64 (sm_index (sf_meta f)) @ enc_u64 (sm_term (sf_meta f)) @ enc_pairs (sf_data f)"

definition dec_snap :: "bytes \<Rightarrow> snapshot_file option" where
  "dec_snap bs = Option.bind (dec_u64 bs) (\<lambda>(i, rest). Option.bind (dec_u64 rest) (\<lambda>(t, rest).
     map_option (\<lambda>m. \<lparr>sf_meta = \<lparr>sm_index = i, sm_term = t\<rparr>, sf_data = m\<rparr>) (dec_pairs (Suc (length rest)) rest)))"

lemma dec_enc_snap: "dec_snap (enc_snap f) = Some f"
proof -
  obtain i t m where "f = \<lparr>sf_meta = \<lparr>sm_index = i, sm_term = t\<rparr>, sf_data = m\<rparr>" by (metis snapshot_file.cases snapshot_meta.cases)
  then show ?thesis by (simp add: dec_snap_def enc_snap_def dec_enc_pairs del: dec_pairs.simps)
qed

definition sample_node :: ext_node where
  "sample_node = \<lparr>x_crc = sample_crc, x_clock = (\<lambda>n. n), x_range = (\<lambda>_ lo _. lo), x_bufcap = 16,
     x_utf8 = (\<lambda>_. True), x_toml = (\<lambda>_. Inl []), x_parse_addr = Inr,
     x_ser_hard = (\<lambda>h. Some (enc_hard h)), x_de_hard = dec_hard, x_ser_entry = (\<lambda>e. Some (enc_entry e)), x_de_entry = dec_entry,
     x_ser_snap = (\<lambda>f. Some (enc_snap f)), x_de_snap = dec_snap, x_ser_command = (\<lambda>c. Some (enc_command c)), x_de_command = dec_command\<rparr>"

lemma sample_codecs [simp]:
  "codec (x_ser_hard sample_node) (x_de_hard sample_node) A" "codec (x_ser_entry sample_node) (x_de_entry sample_node) B"
  "codec (x_ser_snap sample_node) (x_de_snap sample_node) C" "codec (x_ser_command sample_node) (x_de_command sample_node) D"
  by (simp_all add: codec_def sample_node_def dec_enc_hard dec_enc_entry dec_enc_snap)

section \<open>Properties\<close>

text \<open>C6. Persisting the hard state is atomic: whatever fails during \<open>persist\<close> and whenever the power goes, \<open>load\<close> then finds either the
  state that was there before or the new one, whole; and after \<open>persist\<close> has returned \<open>Ok\<close> it finds the new one.\<close>

theorem hard_persist_atomic:
  assumes "codec (x_ser_hard X) (x_de_hard X) UNIV" and "hard_file X w path {old}" and "hard_persist X new path w = (r, w1)"
    and "w2 = w1 \<or> crash w1 w2" and "w_clean w2"
  shows "\<exists>h w3. hard_load X path w2 = (Inr h, w3) \<and> h \<in> {old, new} \<and> (r = Inr () \<longrightarrow> h = new)"
proof -
  have "hard_file X w1 path (if r = Inr () then {new} else {new, old})"
    using wp_hard_persist [OF assms(2,1), of new] assms(3) by (cases r) (auto simp: wp_def)
  then have "hard_file X w2 path (if r = Inr () then {new} else {new, old})" using assms(4) hard_file_crash by blast
  from hard_load_run [OF this assms(5)] show ?thesis by (auto split: if_splits)
qed

text \<open>A disk without a hard state yet.\<close>

lemma hard_file_fresh:
  assumes "fs_ok w" and "path \<noteq> []" and "tmp_path path \<notin> {[], path}" and "butlast (tmp_path path) = butlast path" and "\<And>p i. p \<in> hard_paths path \<Longrightarrow> \<not> reach w p i"
  shows "hard_file X w path {default_hard_state}"
proof -
  have "v = None" if "v \<in> entries w path" for v
    using that assms(5) [of path] by (cases v) (auto simp: reach_entries hard_paths_def)
  then have "entry_ok w {v. \<exists>h\<in>{default_hard_state}. stored_hard X v = Some h} v" if "v \<in> entries w path" for v
    using that by (cases v) (force simp: entry_ok_def stored_hard_def)+
  moreover have "w_find w (tmp_path path) = None"
    using assms(5) [of "tmp_path path"] by (cases "w_find w (tmp_path path)") (auto simp: reach_def hard_paths_def)
  moreover have "apply_ops ops (w_disk w) (tmp_path path) \<noteq> Some j" if "subseq ops (w_pend w)" for ops j
  proof
    assume "apply_ops ops (w_disk w) (tmp_path path) = Some j"
    then have "reach w (tmp_path path) j"
      using apply_ops_cases [of ops "w_disk w" "tmp_path path"] list_emb_set [OF that] by (fastforce simp: reach_def)
    then show False using assms(5) [of "tmp_path path"] by (simp add: hard_paths_def)
  qed
  ultimately have "atomic_ok w (tmp_path path) path {v. \<exists>h\<in>{default_hard_state}. stored_hard X v = Some h}"
    using assms(1-4) by (simp add: atomic_ok_def)
  moreover have "owned w (hard_paths path)" using assms(1,5) by (intro ownedI) auto
  ultimately show ?thesis by (simp add: hard_file_def)
qed

lemma empty_world_reach [simp]: "\<not> reach (empty_world d es) p i"
  by (simp add: reach_def empty_world_def)

theorem hard_persist_atomic_witness:
  "let w = empty_world [''data''] [Done, Done, Fail 3]; path = [''data'', ''hard_state'']; new = \<lparr>hs_term = 3, hs_voted_for = Some 2\<rparr>;
       (r, w1) = hard_persist sample_node new path w
   in r \<noteq> Inr () \<and> (\<exists>h w3. hard_load sample_node path w1 = (Inr h, w3) \<and> h \<in> {default_hard_state, new} \<and> (r = Inr () \<longrightarrow> h = new))"
proof -
  let ?w = "empty_world [''data''] [Done, Done, Fail 3]" and ?path = "[''data'', ''hard_state'']" and ?new = "\<lparr>hs_term = 3, hs_voted_for = Some 2\<rparr>"
  obtain r w1 where p: "hard_persist sample_node ?new ?path ?w = (r, w1)" by (cases "hard_persist sample_node ?new ?path ?w")
  have f: "hard_file sample_node ?w ?path {default_hard_state}"
    by (rule hard_file_fresh) (simp_all add: tmp_path_def push_str_def)
  have "r = Inl (Io OtherIo) \<and> w_events w1 = []"
    using p by (auto simp: hard_persist_def sample_node_def on_parent_def path_parent_def andThen_def create_dir_all_def syscall_def pop_event_def
        empty_world_def install_file_def open_create_truncate_def tmp_path_def push_str_def new_file_def write_file_def file_write_all_def
        set_entry_def upd_inode_def write_inode_def)
  then show ?thesis
    using hard_persist_atomic [OF sample_codecs(1) f p, of w1] p by (simp add: Let_def)
qed

end
