(* ===== verification/Snapshot_Store.thy ===== *)
theory Snapshot_Store
  imports Raft_State
begin

text \<open>
  Snapshots and the store, \<^verbatim>\<open>src/store/snapshot.rs\<close> and \<^verbatim>\<open>src/store/mod.rs\<close>: writing the table as a file that appears
  whole or not at all, finding the newest one again, and the policy that decides when to take one.
\<close>

section \<open>Model\<close>

definition SNAPSHOT_PREFIX :: string where "SNAPSHOT_PREFIX = ''snapshot-''"
definition SNAPSHOT_SUFFIX :: string where "SNAPSHOT_SUFFIX = ''.snap''"

definition default_meta :: snapshot_meta where
  "default_meta = \<lparr>sm_index = 0, sm_term = 0\<rparr>"

definition snapshot_path :: "path \<Rightarrow> u64 \<Rightarrow> path" where
  "snapshot_path d index = join_path d (SNAPSHOT_PREFIX @ show_u64_20 index @ SNAPSHOT_SUFFIX)"

definition with_extension :: "path \<Rightarrow> string \<Rightarrow> path" where
  "with_extension p e = push_str (push_str p ''.'') e"

text \<open>The body of the loop over a directory: the index a file name stands for.\<close>

definition snapshot_index :: "string \<Rightarrow> u64 option" where
  "snapshot_index name = (case strip_prefix SNAPSHOT_PREFIX name of None \<Rightarrow> None
     | Some rest \<Rightarrow> (case strip_suffix SNAPSHOT_SUFFIX rest of None \<Rightarrow> None | Some digits \<Rightarrow> parse_u64 digits))"

definition discover :: "path \<Rightarrow> (u64 \<times> path) list io" where
  "discover d = andThen (dir_exists d) (\<lambda>yes.
     if \<not> yes then ret [] else
     andThen (read_dir d) (\<lambda>names.
     ret (List.map_filter (\<lambda>name. map_option (\<lambda>index. (index, join_path d name)) (snapshot_index name)) names)))"

text \<open>\<open>let _ = m\<close>: the outcome is dropped, the effect stays.\<close>

definition ignoring :: "'a io \<Rightarrow> unit io" where
  "ignoring m w = (Inr (), snd (m w))"

definition snapshot_write :: "('x) ext_node_scheme \<Rightarrow> path \<Rightarrow> snapshot_meta \<Rightarrow> memtable \<Rightarrow> path io" where
  "snapshot_write X d meta table =
     andThen (create_dir_all d) (\<lambda>_.
     case x_ser_snap X \<lparr>sf_meta = meta, sf_data = mt_map table\<rparr> of None \<Rightarrow> throw Encode | Some bytes \<Rightarrow>
     let final_path = snapshot_path d (sm_index meta); tmp = with_extension final_path ''tmp'' in
     andThen (install_file tmp final_path bytes) (\<lambda>_.
     andThen (sync_dir d) (\<lambda>_.
     andThen (discover d) (\<lambda>found.
     andThen (for_each found (\<lambda>(index, path). if index \<noteq> sm_index meta then ignoring (remove_file path) else ret ())) (\<lambda>_.
     ret final_path)))))"

text \<open>\<open>max_by_key\<close>: the last of the maximal elements.\<close>

fun max_by_key :: "('a \<Rightarrow> 'k::linorder) \<Rightarrow> 'a list \<Rightarrow> 'a option" where
  "max_by_key f [] = None"
| "max_by_key f (x # xs) = (case max_by_key f xs of None \<Rightarrow> Some x | Some y \<Rightarrow> Some (if f y < f x then x else y))"

definition load_latest :: "('x) ext_node_scheme \<Rightarrow> path \<Rightarrow> (snapshot_meta \<times> memtable) option io" where
  "load_latest X d = andThen (discover d) (\<lambda>found.
     case max_by_key fst found of None \<Rightarrow> ret None | Some (_, path) \<Rightarrow>
     andThen (read_file path) (\<lambda>bytes.
     case x_de_snap X bytes of None \<Rightarrow> throw Encode
     | Some file \<Rightarrow> ret (Some (sf_meta file, from_parts (sf_data file) (sm_index (sf_meta file))))))"

record store =
  st_snapshot_dir :: path
  st_memtable :: memtable
  st_snapshot_threshold :: u64
  st_last_snapshot :: snapshot_meta

type_synonym 'a store_io = "(error, store \<times> world, 'a) prog"

definition store_open :: "('x) ext_node_scheme \<Rightarrow> config \<Rightarrow> store io" where
  "store_open X cfg = andThen (load_latest X (snapshot_dir cfg)) (\<lambda>found.
     let (last_snapshot, table) = (case found of Some (meta, table) \<Rightarrow> (meta, table) | None \<Rightarrow> (default_meta, memtable_new)) in
     ret \<lparr>st_snapshot_dir = snapshot_dir cfg, st_memtable = table, st_snapshot_threshold = cfg_snapshot_threshold cfg,
       st_last_snapshot = last_snapshot\<rparr>)"

definition store_apply :: "u64 \<Rightarrow> command \<Rightarrow> store \<Rightarrow> store" where
  "store_apply index command s = s\<lparr>st_memtable := memtable_apply index command (st_memtable s)\<rparr>"

definition store_get :: "store \<Rightarrow> bytes \<Rightarrow> bytes option" where
  "store_get s key = memtable_get (st_memtable s) key"

definition store_last_applied :: "store \<Rightarrow> u64" where
  "store_last_applied s = mt_last_applied (st_memtable s)"

definition store_len :: "store \<Rightarrow> nat" where
  "store_len s = memtable_len (st_memtable s)"

definition store_is_empty :: "store \<Rightarrow> bool" where
  "store_is_empty s \<longleftrightarrow> memtable_is_empty (st_memtable s)"

definition should_snapshot :: "store \<Rightarrow> bool" where
  "should_snapshot s \<longleftrightarrow> st_snapshot_threshold s \<le> saturating_sub (store_last_applied s) (sm_index (st_last_snapshot s))"

definition store_snapshot :: "('x) ext_node_scheme \<Rightarrow> u64 \<Rightarrow> snapshot_meta store_io" where
  "store_snapshot X last_included_term = andThen get_st (\<lambda>(s, _).
     let meta = \<lparr>sm_index = mt_last_applied (st_memtable s), sm_term = last_included_term\<rparr> in
     andThen (outside (snapshot_write X (st_snapshot_dir s) meta (st_memtable s))) (\<lambda>_.
     andThen (modify (map_prod (\<lambda>s. s\<lparr>st_last_snapshot := meta\<rparr>) id)) (\<lambda>_.
     ret meta)))"

section \<open>Files of others\<close>

lemma preserves_ignoring [preserves_intros]: "preserves P m anything \<Longrightarrow> preserves P (ignoring m) anything"
  by (simp add: preserves_def ignoring_def)

lemma preserves_discover: "preserves (spares S I w0) (discover d) (\<lambda>found. \<forall>(index, path)\<in>set found. path \<noteq> [] \<and> butlast path = d)"
  unfolding discover_def
  by (intro preserves_andThen_anything [OF preserves_spares_pure(2)] preserves_andThen_anything [OF preserves_spares_pure(1)] preserves_if preserves_ret)
    (auto simp: List.map_filter_def split: option.splits)

lemma snapshot_path_facts:
  "butlast (snapshot_path d n) = d" "snapshot_path d n \<noteq> []" "butlast (with_extension (snapshot_path d n) e) = d"
  "with_extension (snapshot_path d n) e \<noteq> []" "with_extension (snapshot_path d n) e \<noteq> snapshot_path d n"
  by (simp_all add: snapshot_path_def with_extension_def)

lemma preserves_snapshot_write [preserves_intros]:
  assumes "\<forall>p\<in>S. \<not> (p \<noteq> [] \<and> butlast p = d)"
  shows "preserves (spares S I w0) (snapshot_write X d meta table) anything"
proof -
  have out: "p \<notin> S" if "p \<noteq> []" "butlast p = d" for p using assms that by blast
  have clean: "preserves (spares S I w0) (for_each found (\<lambda>(index, path). if index \<noteq> sm_index meta then ignoring (remove_file path) else ret ())) anything"
    if "\<forall>(index, path)\<in>set found. path \<noteq> [] \<and> butlast path = d" for found
  proof (rule preserves_for_each)
    fix x assume mem: "x \<in> set found"
    obtain index path where x: "x = (index, path)" by (cases x)
    have "path \<notin> S" using mem that out x by auto
    with x show "preserves (spares S I w0) (case x of (index, path) \<Rightarrow> if index \<noteq> sm_index meta then ignoring (remove_file path) else ret ()) anything"
      by (simp, intro conjI impI preserves_intros TrueI)
  qed
  show ?thesis
    unfolding snapshot_write_def Let_def
    by (intro preserves_andThen_anything [OF preserves_spares_pure(7)] preserves_option preserves_throw
        preserves_andThen_anything [OF preserves_install_file] preserves_andThen_anything [OF preserves_sync_dir [OF assms]]
        preserves_andThen [OF preserves_discover] preserves_andThen_anything [OF clean] preserves_ret out)
      (simp_all add: snapshot_path_facts)
qed

end
