(* ===== verification/Wal_Record.thy ===== *)
theory Wal_Record
  imports Platform
begin

unbundle bit_operations_syntax

text \<open>
  Record framing, \<^verbatim>\<open>src/wal/record.rs\<close>: the definitions follow the file; the lemmas show that
  reading a stream in pieces computes a pure parser, that the parser accepts exactly what the
  writer produces, and how torn and damaged records are told apart.
\<close>

section \<open>Model\<close>

definition HEADER_LEN :: nat where
  "HEADER_LEN = 8"

definition MAX_RECORD_LEN :: u32 where
  "MAX_RECORD_LEN = 64 * 1024 * 1024"

datatype record_read = Entry bytes | Eof | Truncated | Corrupt

text \<open>\<open>u32::to_le_bytes\<close> and \<open>u32::from_le_bytes\<close>.\<close>

definition le_bytes :: "u32 \<Rightarrow> bytes" where
  "le_bytes v = [ucast v, ucast (drop_bit 8 v), ucast (drop_bit 16 v), ucast (drop_bit 24 v)]"

definition from_le_bytes :: "bytes \<Rightarrow> u32" where
  "from_le_bytes bs = foldr (\<lambda>b acc. push_bit 8 acc OR ucast b) bs 0"

text \<open>\<open>write_record\<close> is generic in the writer; \<open>wr\<close> is its \<open>write_all\<close>.\<close>

definition write_record :: "('x) ext_scheme \<Rightarrow> (bytes \<Rightarrow> (error, 's, unit) prog) \<Rightarrow> bytes \<Rightarrow> (error, 's, nat) prog" where
  "write_record X wr payload =
     (let len = (of_nat (length payload) :: u32);
          len_bytes = le_bytes len;
          crc = x_crc X (len_bytes @ payload)
      in andThen (wr (le_bytes crc)) (\<lambda>_.
         andThen (wr len_bytes) (\<lambda>_.
         andThen (wr payload) (\<lambda>_.
         ret (HEADER_LEN + length payload)))))"

text \<open>The loop of \<open>fill\<close>: the bytes read so far are returned, their number is the result.\<close>

function fill :: "nat \<Rightarrow> reader \<Rightarrow> (error + bytes) \<times> reader" where
  "fill n r = (if n = 0 then (Inr [], r) else
     (case read n r of
        (Inl Interrupted, r') \<Rightarrow> fill n r'
      | (Inl e, r') \<Rightarrow> (Inl (Io e), r')
      | (Inr bs, r') \<Rightarrow> if bs = [] then (Inr [], r')
          else (case fill (n - length bs) r' of (Inl e, r'') \<Rightarrow> (Inl e, r'') | (Inr bs', r'') \<Rightarrow> (Inr (bs @ bs'), r''))))"
  by pat_completeness auto
termination
proof (relation "measure (\<lambda>(n, r). length (rd_rest r) + length (rd_events r))", goal_cases)
  case 1
  show ?case by simp
next
  case (2 n r x r' e)
  then have "read n r = (Inl Interrupted, r')" by simp
  then show ?case by (auto elim!: read_InlE)
next
  case (3 n r x r' bs)
  then have "read n r = (Inr bs, r')" by simp
  then obtain k where "0 < k" "bs = take k (rd_rest r)" "rd_rest r' = drop k (rd_rest r)" "rd_events r' = tl (rd_events r)"
    using 3(1) by (auto elim: read_InrE)
  then show ?case using 3(4) by (cases "rd_rest r") auto
qed

definition read_record :: "('x) ext_scheme \<Rightarrow> (error, reader, record_read) prog" where
  "read_record X = andThen (fill HEADER_LEN) (\<lambda>header.
     if length header = 0 then ret Eof
     else if length header < HEADER_LEN then ret Truncated
     else let crc = from_le_bytes (take 4 header); len = from_le_bytes (take 4 (drop 4 header)) in
       if MAX_RECORD_LEN < len then ret Corrupt
       else andThen (fill (unat len)) (\<lambda>payload.
         if length payload < unat len then ret Truncated
         else if x_crc X (le_bytes len @ payload) \<noteq> crc then ret Corrupt
         else ret (Entry payload)))"

section \<open>Byte order\<close>

lemma length_le_bytes [simp]: "length (le_bytes v) = 4"
  by (simp add: le_bytes_def)

lemma le_bytes_neq_Nil [simp]: "le_bytes v \<noteq> []"
  by (simp add: le_bytes_def)

lemma bit_from_le_bytes:
  "bit (from_le_bytes [a, b, c, d]) n \<longleftrightarrow>
     (if n < 8 then bit a n else if n < 16 then bit b (n - 8) else if n < 24 then bit c (n - 16) else n < 32 \<and> bit d (n - 24))"
proof -
  have small: "\<not> bit x m" if "8 \<le> m" for x :: u8 and m
    using that by (auto dest: bit_imp_le_length)
  consider "n < 8" | "8 \<le> n" "n < 16" | "16 \<le> n" "n < 24" | "24 \<le> n" by linarith
  then show ?thesis
    by cases (auto simp: from_le_bytes_def bit_or_iff bit_push_bit_iff bit_ucast_iff small)
qed

lemma from_le_bytes_le_bytes [simp]: "from_le_bytes (le_bytes v) = v"
proof (rule bit_eqI)
  fix n
  assume "possible_bit TYPE(u32) n"
  then have n: "n < 32" by simp
  consider "n < 8" | "8 \<le> n" "n < 16" | "16 \<le> n" "n < 24" | "24 \<le> n" by linarith
  then show "bit (from_le_bytes (le_bytes v)) n = bit v n"
    by cases (use n in \<open>auto simp: bit_from_le_bytes le_bytes_def bit_ucast_iff bit_drop_bit_eq\<close>)
qed

lemma le_bytes_from_le_bytes:
  assumes "length bs = 4"
  shows "le_bytes (from_le_bytes bs) = bs"
proof -
  obtain a b c d where bs: "bs = [a, b, c, d]"
    using assms by (auto simp: numeral_eq_Suc length_Suc_conv)
  have "ucast (drop_bit k (from_le_bytes bs)) = x"
    if "\<And>n. n < 8 \<Longrightarrow> bit (from_le_bytes bs) (k + n) = bit x n" for k and x :: u8
    by (rule bit_eqI) (use that in \<open>simp add: bit_ucast_iff bit_drop_bit_eq\<close>)
  from this [of 0 a] this [of 8 b] this [of 16 c] this [of 24 d] show ?thesis
    by (simp add: le_bytes_def bs bit_from_le_bytes)
qed

section \<open>Reading in pieces\<close>

lemma suffix_clean: "es = xs @ ys \<Longrightarrow> clean es \<Longrightarrow> clean ys"
  by simp

declare fill.simps [simp del]

text \<open>However the reads are cut up or interrupted, \<open>fill\<close> returns the next bytes of the input.\<close>

lemma fill_result:
  "fill n r = (Inr bs, r') \<Longrightarrow> bs = take n (rd_rest r) \<and> rd_rest r' = drop n (rd_rest r) \<and>
     rd_pos r' = rd_pos r + length bs \<and> suffix (rd_events r') (rd_events r)"
proof (induction n r arbitrary: bs r' rule: fill.induct)
  case (1 n r)
  show ?case
  proof (cases "n = 0")
    case True
    with "1.prems" show ?thesis by (simp add: fill.simps)
  next
    case n: False
    obtain x r1 where rd: "read n r = (x, r1)" by fastforce
    show ?thesis
    proof (cases x)
      case (Inl e)
      with rd obtain ev where ev: "rd_events r = ev # rd_events r1" "rd_rest r1 = rd_rest r" "rd_pos r1 = rd_pos r"
        "e = Interrupted \<or> e = OtherIo"
        by (auto elim: read_InlE)
      have e: "e = Interrupted" and "fill n r1 = (Inr bs, r')"
        using "1.prems" rd Inl n ev(4) by (auto simp: fill.simps [of n r])
      then show ?thesis
        using "1.IH"(1) [OF n rd [symmetric]] Inl ev by (auto intro: suffix_ConsI)
    next
      case (Inr b1)
      with rd n obtain k where k: "0 < k" "k \<le> n" "b1 = take k (rd_rest r)" "rd_rest r1 = drop k (rd_rest r)"
        "rd_pos r1 = rd_pos r + length b1" "rd_events r1 = tl (rd_events r)"
        by (auto elim: read_InrE)
      have sfx: "suffix (rd_events r1) (rd_events r)" by (simp add: k(6))
      show ?thesis
      proof (cases "b1 = []")
        case True
        then show ?thesis using "1.prems" rd Inr n k sfx by (auto simp: fill.simps [of n r])
      next
        case False
        then obtain b2 where b2: "fill (n - length b1) r1 = (Inr b2, r')" and bs: "bs = b1 @ b2"
          using "1.prems" rd Inr n by (auto simp: fill.simps [of n r] split: prod.splits sum.splits)
        have IH: "b2 = take (n - length b1) (rd_rest r1)" "rd_rest r' = drop (n - length b1) (rd_rest r1)"
          "rd_pos r' = rd_pos r1 + length b2" "suffix (rd_events r') (rd_events r1)"
          using "1.IH"(2) [OF n rd [symmetric] Inr False b2] by auto
        have "take n (rd_rest r) = b1 @ b2"
          using k(1-3) by (cases "k \<le> length (rd_rest r)") (auto simp: IH(1) k(4) take_add [symmetric])
        moreover have "rd_rest r' = drop n (rd_rest r)"
          using k(1-3) by (cases "k \<le> length (rd_rest r)") (auto simp: IH(2) k(4))
        ultimately show ?thesis using IH k sfx bs by (auto intro: suffix_order.trans)
      qed
    qed
  qed
qed

lemma fill_clean: "clean (rd_events r) \<Longrightarrow> \<exists>bs r'. fill n r = (Inr bs, r')"
proof (induction n r rule: fill.induct)
  case (1 n r)
  show ?case
  proof (cases "n = 0")
    case True
    then show ?thesis by (simp add: fill.simps)
  next
    case n: False
    obtain x r1 where rd: "read n r = (x, r1)" by fastforce
    show ?thesis
    proof (cases x)
      case (Inl e)
      with rd "1.prems" have "e = Interrupted" and "clean (rd_events r1)"
        by (auto elim!: read_InlE)
      then show ?thesis
        using "1.IH"(1) [OF n rd [symmetric]] Inl n rd by (auto simp: fill.simps [of n r])
    next
      case (Inr b1)
      with rd n have "clean (rd_events r1)"
        using "1.prems" by (auto elim!: read_InrE)
      then show ?thesis
        using "1.IH"(2) [OF n rd [symmetric] Inr] Inr n rd
        by (cases "b1 = []") (fastforce simp: fill.simps [of n r])+
    qed
  qed
qed

section \<open>A pure view of the format\<close>

definition max_payload :: nat where
  "max_payload = unat MAX_RECORD_LEN"

lemma max_payload_eq: "max_payload = 67108864"
  by (simp add: max_payload_def MAX_RECORD_LEN_def)

text \<open>The bytes of one record.\<close>

definition frame :: "('x) ext_scheme \<Rightarrow> bytes \<Rightarrow> bytes" where
  "frame X p = (let lb = le_bytes (of_nat (length p)) in le_bytes (x_crc X (lb @ p)) @ lb @ p)"

text \<open>One step of a parser over the whole remaining input: the verdict and what is left unread.\<close>

definition parse_record :: "('x) ext_scheme \<Rightarrow> bytes \<Rightarrow> record_read \<times> bytes" where
  "parse_record X bs =
     (if bs = [] then (Eof, [])
      else if length bs < HEADER_LEN then (Truncated, [])
      else let crc = from_le_bytes (take 4 bs); len = from_le_bytes (take 4 (drop 4 bs)); n = unat len; body = drop 8 bs in
        if MAX_RECORD_LEN < len then (Corrupt, body)
        else if length body < n then (Truncated, [])
        else if x_crc X (le_bytes len @ take n body) \<noteq> crc then (Corrupt, drop n body)
        else (Entry (take n body), drop n body))"

lemma length_frame [simp]: "length (frame X p) = HEADER_LEN + length p"
  by (simp add: frame_def Let_def HEADER_LEN_def)

lemma frame_neq_Nil [simp]: "frame X p \<noteq> []"
  by (simp add: frame_def Let_def le_bytes_def)

text \<open>\<open>read_record\<close>, once the header and (if asked for) the payload are in hand.\<close>

lemma read_record_cases:
  assumes "read_record X r = (Inr out, r')"
  obtains (short) h where "fill HEADER_LEN r = (Inr h, r')" "length h < HEADER_LEN"
      "out = (if h = [] then Eof else Truncated)"
  | (oversize) h where "fill HEADER_LEN r = (Inr h, r')" "\<not> length h < HEADER_LEN"
      "MAX_RECORD_LEN < from_le_bytes (take 4 (drop 4 h))" "out = Corrupt"
  | (full) h r1 p len where "fill HEADER_LEN r = (Inr h, r1)" "\<not> length h < HEADER_LEN"
      "len = from_le_bytes (take 4 (drop 4 h))" "\<not> MAX_RECORD_LEN < len" "fill (unat len) r1 = (Inr p, r')"
      "out = (if length p < unat len then Truncated
              else if x_crc X (le_bytes len @ p) \<noteq> from_le_bytes (take 4 h) then Corrupt else Entry p)"
proof -
  obtain x r1 where x: "fill HEADER_LEN r = (x, r1)" by fastforce
  then obtain h where f: "fill HEADER_LEN r = (Inr h, r1)"
    using assms by (cases x) (simp_all add: read_record_def andThen_def)
  define len where "len = from_le_bytes (take 4 (drop 4 h))"
  show thesis
  proof (cases "length h < HEADER_LEN")
    case True
    then have "r' = r1" and "out = (if h = [] then Eof else Truncated)"
      using assms f by (simp_all add: read_record_def andThen_def ret_def split: if_splits)
    then show thesis using short f True by blast
  next
    case h: False
    then have h0: "h \<noteq> []" by (auto simp: HEADER_LEN_def)
    show thesis
    proof (cases "MAX_RECORD_LEN < len")
      case True
      then show thesis
        using assms f h h0 oversize by (simp add: read_record_def andThen_def ret_def Let_def len_def)
    next
      case False
      obtain y r2 where y: "fill (unat len) r1 = (y, r2)" by fastforce
      then obtain p where g: "fill (unat len) r1 = (Inr p, r2)"
        using assms f h h0 False by (cases y) (simp_all add: read_record_def andThen_def Let_def len_def [symmetric])
      have "r' = r2" and "out = (if length p < unat len then Truncated
              else if x_crc X (le_bytes len @ p) \<noteq> from_le_bytes (take 4 h) then Corrupt else Entry p)"
        using assms f g h h0 False
        by (simp_all add: read_record_def andThen_def ret_def Let_def len_def [symmetric] split: if_splits)
      then show thesis using full f g h False len_def by blast
    qed
  qed
qed

lemma read_record_result:
  assumes "read_record X r = (Inr out, r')"
  shows "parse_record X (rd_rest r) = (out, rd_rest r') \<and>
    rd_pos r' = rd_pos r + (length (rd_rest r) - length (rd_rest r')) \<and> suffix (rd_events r') (rd_events r)"
  using assms
proof (cases rule: read_record_cases)
  case (short h)
  have f: "h = take 8 (rd_rest r)" "rd_rest r' = drop 8 (rd_rest r)" "rd_pos r' = rd_pos r + length h"
    "suffix (rd_events r') (rd_events r)"
    using fill_result [OF short(1)] by (auto simp: HEADER_LEN_def)
  have "length (rd_rest r) < 8"
    using short(2) f(1) by (auto simp: HEADER_LEN_def)
  then show ?thesis using f short(3) by (simp add: parse_record_def HEADER_LEN_def)
next
  case (oversize h)
  have f: "h = take 8 (rd_rest r)" "rd_rest r' = drop 8 (rd_rest r)" "rd_pos r' = rd_pos r + length h"
    "suffix (rd_events r') (rd_events r)"
    using fill_result [OF oversize(1)] by (auto simp: HEADER_LEN_def)
  have n: "8 \<le> length (rd_rest r)"
    using oversize(2) f(1) by (auto simp: HEADER_LEN_def)
  then have "take 4 (drop 4 h) = take 4 (drop 4 (rd_rest r))" and "rd_rest r \<noteq> []"
    by (auto simp: f(1) take_drop)
  then show ?thesis using f n oversize by (simp add: parse_record_def Let_def HEADER_LEN_def)
next
  case (full h r1 p len)
  have f: "h = take 8 (rd_rest r)" "rd_rest r1 = drop 8 (rd_rest r)" "rd_pos r1 = rd_pos r + length h"
    "suffix (rd_events r1) (rd_events r)"
    using fill_result [OF full(1)] by (auto simp: HEADER_LEN_def)
  have n: "8 \<le> length (rd_rest r)"
    using full(2) f(1) by (auto simp: HEADER_LEN_def)
  then have hd4: "take 4 (drop 4 h) = take 4 (drop 4 (rd_rest r))" "take 4 h = take 4 (rd_rest r)" "rd_rest r \<noteq> []"
    by (auto simp: f(1) take_drop)
  have g: "p = take (unat len) (drop 8 (rd_rest r))" "rd_rest r' = drop (unat len) (drop 8 (rd_rest r))"
    "rd_pos r' = rd_pos r + length h + length p" "suffix (rd_events r') (rd_events r)"
    using fill_result [OF full(5)] f by (auto intro: suffix_order.trans)
  have pos: "rd_pos r' = rd_pos r + (length (rd_rest r) - length (rd_rest r'))"
    using n by (simp add: g f(1))
  have sh: "length p < unat len \<longleftrightarrow> length (drop 8 (rd_rest r)) < unat len"
    by (auto simp: g(1))
  have "parse_record X (rd_rest r) = (out, rd_rest r')"
    using n full(3,4,6) hd4 g(1,2) sh
    by (simp add: parse_record_def Let_def HEADER_LEN_def)
  then show ?thesis using pos g(4) by simp
qed

lemma read_record_clean: "clean (rd_events r) \<Longrightarrow> \<exists>out r'. read_record X r = (Inr out, r')"
proof -
  assume c: "clean (rd_events r)"
  obtain h r1 where f1: "fill HEADER_LEN r = (Inr h, r1)"
    using fill_clean [OF c] by blast
  have "clean (rd_events r1)"
    using fill_result [OF f1] c by (auto simp: suffix_def)
  then obtain p r2 where "fill (unat (from_le_bytes (take 4 (drop 4 h)))) r1 = (Inr p, r2)"
    using fill_clean by blast
  with f1 show ?thesis
    by (simp add: read_record_def andThen_def ret_def Let_def)
qed

section \<open>The record format as an interface\<close>

text \<open>
  What the segment layer relies on: an encoder and a one-step parser such that parsing an
  encoded record gives it back, only encoded records are accepted, and a proper prefix of an
  encoded record is recognised as torn.
\<close>

locale record_format =
  fixes enc :: "bytes \<Rightarrow> bytes"
    and dec :: "bytes \<Rightarrow> record_read \<times> bytes"
    and limit :: nat
  assumes dec_enc: "length p \<le> limit \<Longrightarrow> dec (enc p @ t) = (Entry p, t)"
    and dec_Entry: "dec bs = (Entry p, t) \<Longrightarrow> bs = enc p @ t \<and> length p \<le> limit"
    and dec_Nil: "dec [] = (Eof, [])"
    and dec_Eof: "fst (dec bs) = Eof \<Longrightarrow> bs = []"
    and dec_torn: "length p \<le> limit \<Longrightarrow> strict_prefix bs (enc p) \<Longrightarrow> bs \<noteq> [] \<Longrightarrow> dec bs = (Truncated, [])"
    and enc_neq_Nil: "enc p \<noteq> []"
begin

lemma enc_prefix_free:
  assumes "length p \<le> limit" and "length q \<le> limit" and "enc p @ s = enc q @ t"
  shows "p = q \<and> s = t"
proof -
  have "(Entry p, s) = dec (enc q @ t)"
    using dec_enc [OF assms(1), of s] assms(3) by metis
  then show ?thesis
    using dec_enc [OF assms(2), of t] by simp
qed

text \<open>A run of records followed by something that is not a record can be read in one way only.\<close>

lemma frames_unique:
  assumes "\<forall>p\<in>set ps. length p \<le> limit" and "\<forall>q\<in>set qs. length q \<le> limit"
    and "concat (map enc ps) @ s = concat (map enc qs) @ t"
    and "\<nexists>p u. dec s = (Entry p, u)" and "\<nexists>p u. dec t = (Entry p, u)"
  shows "ps = qs \<and> s = t"
  using assms
proof (induction ps arbitrary: qs)
  case Nil
  show ?case
  proof (cases qs)
    case (Cons q qs')
    then have "dec s = (Entry q, concat (map enc qs') @ t)"
      using Nil.prems(2,3) by (simp add: dec_enc)
    then show ?thesis using Nil.prems(4) by blast
  qed (use Nil in simp)
next
  case (Cons p ps)
  show ?case
  proof (cases qs)
    case Nil
    then have "t = enc p @ (concat (map enc ps) @ s)"
      using Cons.prems(3) by simp
    then have "dec t = (Entry p, concat (map enc ps) @ s)"
      using Cons.prems(1) by (simp only: dec_enc list.set_intros)
    then show ?thesis using Cons.prems(5) by blast
  next
    case (Cons q qs')
    have "enc p @ (concat (map enc ps) @ s) = enc q @ (concat (map enc qs') @ t)"
      using Cons.prems(3) Cons by simp
    moreover have "length p \<le> limit" and "length q \<le> limit"
      using Cons.prems(1,2) Cons by simp_all
    ultimately have eq: "p = q" "concat (map enc ps) @ s = concat (map enc qs') @ t"
      using enc_prefix_free by blast+
    have "ps = qs' \<and> s = t"
      by (rule Cons.IH) (use Cons.prems Cons eq in simp_all)
    then show ?thesis using eq(1) Cons by simp
  qed
qed

text \<open>Cutting a run of records anywhere leaves whole records and at most one torn one.\<close>

lemma take_frames:
  "n \<le> length (concat (map enc ps)) \<Longrightarrow> \<exists>k t. k \<le> length ps \<and> take n (concat (map enc ps)) = concat (map enc (take k ps)) @ t \<and>
     (t = [] \<or> (k < length ps \<and> strict_prefix t (enc (ps ! k)) \<and> t \<noteq> []))"
proof (induction ps arbitrary: n)
  case Nil
  then show ?case by simp
next
  case (Cons p ps)
  show ?case
  proof (cases "n < length (enc p)")
    case True
    then have "take n (concat (map enc (p # ps))) = concat (map enc (take 0 (p # ps))) @ take n (enc p)"
      by simp
    moreover have "strict_prefix (take n (enc p)) (enc p)"
      using True by (rule strict_prefix_take)
    ultimately show ?thesis
      by (intro exI [of _ 0] exI [of _ "take n (enc p)"]) auto
  next
    case False
    then have "n - length (enc p) \<le> length (concat (map enc ps))"
      using Cons.prems by simp
    then obtain k t where kt: "k \<le> length ps" "take (n - length (enc p)) (concat (map enc ps)) = concat (map enc (take k ps)) @ t"
      "t = [] \<or> (k < length ps \<and> strict_prefix t (enc (ps ! k)) \<and> t \<noteq> [])"
      using Cons.IH by blast
    then show ?thesis using False
      by (intro exI [of _ "Suc k"] exI [of _ t]) auto
  qed
qed

end

lemma parse_record_frame:
  assumes "length p \<le> max_payload"
  shows "parse_record X (frame X p @ t) = (Entry p, t)"
proof -
  define len where "len = (of_nat (length p) :: u32)"
  have u: "unat len = length p" and le: "\<not> MAX_RECORD_LEN < len"
    using assms by (auto simp: len_def max_payload_def MAX_RECORD_LEN_def unat_of_nat word_less_nat_alt)
  show ?thesis
    using u le by (simp add: parse_record_def frame_def Let_def HEADER_LEN_def len_def [symmetric])
qed

lemma parse_record_Entry:
  assumes "parse_record X bs = (Entry p, t)"
  shows "bs = frame X p @ t" and "length p \<le> max_payload"
proof -
  define crc len where "crc = from_le_bytes (take 4 bs)" and "len = from_le_bytes (take 4 (drop 4 bs))"
  have L: "8 \<le> length bs" "\<not> MAX_RECORD_LEN < len" "unat len \<le> length bs - 8"
    and p: "p = take (unat len) (drop 8 bs)" "t = drop (unat len) (drop 8 bs)"
    and c: "x_crc X (le_bytes len @ p) = crc"
    using assms by (auto simp: parse_record_def Let_def crc_def len_def HEADER_LEN_def split: if_splits)
  have "length p = unat len" using p L by simp
  then have len: "of_nat (length p) = len" by simp
  have "le_bytes crc = take 4 bs" and "le_bytes len = take 4 (drop 4 bs)"
    using L by (simp_all add: crc_def len_def le_bytes_from_le_bytes)
  moreover have "bs = take 4 bs @ take 4 (drop 4 bs) @ p @ t"
  proof -
    have "drop 4 bs = take 4 (drop 4 bs) @ drop 8 bs"
      using append_take_drop_id [of 4 "drop 4 bs"] by simp
    moreover have "drop 8 bs = p @ t" unfolding p by (simp del: drop_drop)
    ultimately show ?thesis using append_take_drop_id [of 4 bs] by simp
  qed
  moreover have "frame X p = le_bytes crc @ le_bytes len @ p"
    by (simp add: frame_def Let_def len c)
  ultimately show "bs = frame X p @ t" by simp
  show "length p \<le> max_payload"
    using \<open>length p = unat len\<close> L(2) by (simp add: max_payload_def word_less_nat_alt)
qed

lemma parse_record_torn:
  assumes "length p \<le> max_payload" and "strict_prefix bs (frame X p)" and "bs \<noteq> []"
  shows "parse_record X bs = (Truncated, [])"
proof -
  define len where "len = (of_nat (length p) :: u32)"
  have u: "unat len = length p" and le: "\<not> MAX_RECORD_LEN < len"
    using assms by (auto simp: len_def max_payload_def MAX_RECORD_LEN_def unat_of_nat word_less_nat_alt)
  obtain s where s: "frame X p = bs @ s" "s \<noteq> []"
    using assms(2) by (auto simp: strict_prefix_def prefix_def)
  have lt: "length bs < 8 + length p"
    using arg_cong [OF s(1), of length] s(2) by (cases s) (auto simp: HEADER_LEN_def)
  show ?thesis
  proof (cases "length bs < 8")
    case True
    then show ?thesis using assms(3) by (simp add: parse_record_def HEADER_LEN_def)
  next
    case False
    then have "take 4 (drop 4 bs) = take 4 (drop 4 (frame X p))"
      using s(1) by simp
    also have "\<dots> = le_bytes len"
      by (simp add: frame_def Let_def len_def)
    finally have "from_le_bytes (take 4 (drop 4 bs)) = len" by simp
    moreover have "length bs - 8 < length p" using False lt by linarith
    ultimately show ?thesis
      using False u le assms(3) by (simp add: parse_record_def Let_def HEADER_LEN_def)
  qed
qed

interpretation rf: record_format "frame X" "parse_record X" max_payload for X :: "('x) ext_scheme"
proof unfold_locales
  show "fst (parse_record X bs) = Eof \<Longrightarrow> bs = []" for bs
    by (auto simp: parse_record_def Let_def split: if_splits)
  show "parse_record X [] = (Eof, [])"
    by (simp add: parse_record_def)
  show "bs = frame X p @ t \<and> length p \<le> max_payload" if "parse_record X bs = (Entry p, t)" for bs p t
    using parse_record_Entry [OF that] by blast
qed (rule parse_record_frame parse_record_torn frame_neq_Nil; assumption?)+

section \<open>Properties\<close>

text \<open>\<open>write_all\<close> of \<open>impl Write for Vec<u8>\<close>.\<close>

definition vec_write_all :: "bytes \<Rightarrow> (error, bytes, unit) prog" where
  "vec_write_all bs = modify (\<lambda>v. v @ bs)"

lemma write_record_vec:
  "write_record X vec_write_all p buf = (Inr (HEADER_LEN + length p), buf @ frame X p)"
  by (simp add: write_record_def vec_write_all_def andThen_def modify_def ret_def frame_def Let_def)

text \<open>Reading from an input whose next bytes are known.\<close>

lemma read_record_parse:
  assumes "clean (rd_events r)" and "parse_record X (rd_rest r) = (out, t)"
  shows "\<exists>r'. read_record X r = (Inr out, r') \<and> rd_rest r' = t \<and>
     rd_pos r' = rd_pos r + (length (rd_rest r) - length t) \<and> clean (rd_events r')"
proof -
  obtain out' r' where r': "read_record X r = (Inr out', r')"
    using read_record_clean [OF assms(1)] by blast
  note res = read_record_result [OF r']
  have "clean (rd_events r')"
    using res assms(1) by (auto simp: suffix_def)
  then show ?thesis using res r' assms(2) by auto
qed

text \<open>C36. Whatever \<open>write_record\<close> appends for a payload within \<open>MAX_RECORD_LEN\<close>, \<open>read_record\<close> gives
  back, however the reads are cut up or interrupted, and the reader is left exactly behind it.\<close>

theorem record_roundtrip:
  assumes "length p \<le> unat MAX_RECORD_LEN" and "clean evs"
  shows "\<exists>out r'. write_record X vec_write_all p buf = (Inr (HEADER_LEN + length p), buf @ out) \<and>
     read_record X \<lparr>rd_rest = out @ t, rd_pos = k, rd_events = evs\<rparr> = (Inr (Entry p), r') \<and>
     rd_rest r' = t \<and> rd_pos r' = k + HEADER_LEN + length p"
proof -
  have "parse_record X (frame X p @ t) = (Entry p, t)"
    using assms(1) by (intro rf.dec_enc) (simp add: max_payload_def)
  then show ?thesis
    using read_record_parse [of "\<lparr>rd_rest = frame X p @ t, rd_pos = k, rd_events = evs\<rparr>" X] assms(2)
    by (auto simp: write_record_vec)
qed

theorem record_roundtrip_witness:
  "\<exists>out r'. write_record sample_ext vec_write_all [104, 105] [] = (Inr (HEADER_LEN + length [104 :: u8, 105]), [] @ out) \<and>
     read_record sample_ext \<lparr>rd_rest = out @ [1, 2, 3], rd_pos = 0, rd_events = [Short 3, Intr, Short 1]\<rparr> = (Inr (Entry [104, 105]), r') \<and>
     rd_rest r' = [1, 2, 3] \<and> rd_pos r' = 0 + HEADER_LEN + length [104 :: u8, 105]"
  by (rule record_roundtrip) (simp_all add: MAX_RECORD_LEN_def)

text \<open>C37. A write torn anywhere inside a record (some but not all of its bytes reached the file) reads as
  \<open>Truncated\<close>, never as data and never as corruption.\<close>

theorem record_torn:
  assumes "write_record X vec_write_all p [] = (Inr n, out)" and "length p \<le> unat MAX_RECORD_LEN"
    and "0 < k" and "k < n" and "clean evs"
  shows "\<exists>r'. read_record X \<lparr>rd_rest = take k out, rd_pos = pos, rd_events = evs\<rparr> = (Inr Truncated, r')"
proof -
  have out: "out = frame X p" and n: "n = HEADER_LEN + length p"
    using assms(1) by (auto simp: write_record_vec)
  have "strict_prefix (take k out) (frame X p)"
    unfolding out using assms(4) n by (intro strict_prefix_take) simp
  moreover have "take k out \<noteq> []"
    using assms(3) by (simp add: out)
  ultimately have "parse_record X (take k out) = (Truncated, [])"
    using assms(2) by (intro rf.dec_torn) (simp_all add: max_payload_def)
  then show ?thesis
    using read_record_parse [of "\<lparr>rd_rest = take k out, rd_pos = pos, rd_events = evs\<rparr>" X] assms(5) by auto
qed

theorem record_torn_witness:
  "\<exists>r'. read_record sample_ext \<lparr>rd_rest = take 9 (frame sample_ext [104, 105]), rd_pos = 0, rd_events = [Intr]\<rparr> = (Inr Truncated, r')"
  by (rule record_torn [where p = "[104, 105]" and n = 10]) (simp_all add: write_record_vec HEADER_LEN_def MAX_RECORD_LEN_def)

text \<open>C38. \<open>read_record\<close> hands out a payload only if the bytes it consumed are exactly what \<open>write_record\<close>
  would have written for that payload; the payload is then within \<open>MAX_RECORD_LEN\<close>.\<close>

theorem record_accepts_only_written:
  assumes "read_record X r = (Inr (Entry p), r')"
  shows "\<exists>n out. write_record X vec_write_all p [] = (Inr n, out) \<and> rd_rest r = out @ rd_rest r' \<and>
     rd_pos r' = rd_pos r + n \<and> length p \<le> unat MAX_RECORD_LEN"
proof -
  note res = read_record_result [OF assms]
  then have "rd_rest r = frame X p @ rd_rest r'" and "length p \<le> max_payload"
    using rf.dec_Entry by blast+
  then show ?thesis using res by (simp add: write_record_vec max_payload_def)
qed

theorem record_accepts_only_written_witness:
  "\<exists>n out. write_record sample_ext vec_write_all [] [] = (Inr n, out) \<and>
     frame sample_ext [] @ [9] = out @ [9] \<and> (8::nat) = 0 + n \<and> length ([] :: bytes) \<le> unat MAX_RECORD_LEN"
proof -
  have "read_record sample_ext \<lparr>rd_rest = frame sample_ext [] @ [9], rd_pos = 0, rd_events = []\<rparr>
     = (Inr (Entry []), \<lparr>rd_rest = [9], rd_pos = 8, rd_events = []\<rparr>)"
    by (simp add: read_record_def andThen_def ret_def fill.simps read_def frame_def sample_ext_def sample_crc_def
        le_bytes_def from_le_bytes_def HEADER_LEN_def MAX_RECORD_LEN_def)
  from record_accepts_only_written [OF this] show ?thesis by simp
qed

text \<open>C39. A complete record whose stored checksum does not match its length and payload is reported as
  \<open>Corrupt\<close>, one whose checksum matches as an entry; either way the reader moves to the next record.\<close>

theorem record_damage_detected:
  assumes "len \<le> MAX_RECORD_LEN" and "length q = unat len" and "clean evs"
  shows "\<exists>r'. read_record X \<lparr>rd_rest = le_bytes crc @ le_bytes len @ q @ t, rd_pos = k, rd_events = evs\<rparr>
       = (Inr (if x_crc X (le_bytes len @ q) = crc then Entry q else Corrupt), r') \<and> rd_rest r' = t"
proof -
  have "parse_record X (le_bytes crc @ le_bytes len @ q @ t)
      = (if x_crc X (le_bytes len @ q) = crc then Entry q else Corrupt, t)"
    using assms(1,2) by (simp add: parse_record_def Let_def HEADER_LEN_def not_less)
  then show ?thesis
    using read_record_parse [of "\<lparr>rd_rest = le_bytes crc @ le_bytes len @ q @ t, rd_pos = k, rd_events = evs\<rparr>" X] assms(3)
    by auto
qed

theorem record_damage_detected_witness:
  "\<exists>r1 r2. read_record sample_ext \<lparr>rd_rest = le_bytes 0 @ le_bytes 2 @ [7, 8] @ [5], rd_pos = 0, rd_events = [Intr, Short 2]\<rparr> = (Inr Corrupt, r1) \<and> rd_rest r1 = [5] \<and>
     read_record sample_ext \<lparr>rd_rest = le_bytes (sample_crc (le_bytes (2 :: u32) @ [7, 8])) @ le_bytes 2 @ [7, 8] @ [5], rd_pos = 0, rd_events = []\<rparr> =
       (Inr (Entry [7, 8]), r2) \<and> rd_rest r2 = [5]"
proof -
  have crc: "x_crc sample_ext = sample_crc" by (simp add: sample_ext_def)
  have ne: "sample_crc (le_bytes (2 :: u32) @ [7, 8]) \<noteq> 0" by code_simp
  have len: "(2 :: u32) \<le> MAX_RECORD_LEN" "length [7, 8 :: 8 word] = unat (2 :: u32)" by (simp_all add: MAX_RECORD_LEN_def)
  from record_damage_detected [OF len, of "[Intr, Short 2]" sample_ext 0 "[5]" 0] ne
  obtain r1 where "read_record sample_ext \<lparr>rd_rest = le_bytes 0 @ le_bytes 2 @ [7, 8] @ [5], rd_pos = 0, rd_events = [Intr, Short 2]\<rparr> = (Inr Corrupt, r1)" "rd_rest r1 = [5]"
    unfolding crc by auto
  moreover from record_damage_detected [OF len, of "[]" sample_ext "sample_crc (le_bytes (2 :: u32) @ [7, 8])" "[5]" 0]
  obtain r2 where "read_record sample_ext \<lparr>rd_rest = le_bytes (sample_crc (le_bytes (2 :: u32) @ [7, 8])) @ le_bytes 2 @ [7, 8] @ [5], rd_pos = 0, rd_events = []\<rparr> =
     (Inr (Entry [7, 8]), r2)" "rd_rest r2 = [5]" unfolding crc by auto
  ultimately show ?thesis by blast
qed

text \<open>C40. \<open>write_record\<close> accepts a payload above \<open>MAX_RECORD_LEN\<close> in a release build (the check is a
  \<open>debug_assert\<close>). It stores the length cast to 32 bits; whenever that number is above the bound, as it is for every payload
  above the bound and below \<open>2\<^sup>3\<^sup>2\<close> bytes, \<open>read_record\<close> refuses what was written as \<open>Corrupt\<close>. Nothing is claimed of the
  longer payloads whose length wraps to a number within the bound.\<close>

theorem record_oversize_unreadable:
  assumes "unat MAX_RECORD_LEN < length p mod 2 ^ 32" and "clean evs"
  shows "\<exists>out r'. write_record X vec_write_all p [] = (Inr (HEADER_LEN + length p), out) \<and>
     read_record X \<lparr>rd_rest = out @ t, rd_pos = k, rd_events = evs\<rparr> = (Inr Corrupt, r')"
proof -
  have "MAX_RECORD_LEN < of_nat (length p)"
    using assms(1) by (simp add: word_less_nat_alt unat_of_nat)
  then have "parse_record X (frame X p @ t) = (Corrupt, p @ t)"
    by (simp add: parse_record_def frame_def Let_def HEADER_LEN_def)
  then show ?thesis
    using read_record_parse [of "\<lparr>rd_rest = frame X p @ t, rd_pos = k, rd_events = evs\<rparr>" X] assms(2)
    by (auto simp: write_record_vec)
qed

theorem record_oversize_unreadable_witness:
  "\<exists>p out r'. length p = 67108865 \<and> write_record sample_ext vec_write_all p [] = (Inr (HEADER_LEN + length p), out) \<and>
     read_record sample_ext \<lparr>rd_rest = out @ [], rd_pos = 0, rd_events = []\<rparr> = (Inr Corrupt, r')"
proof -
  obtain p :: bytes where p: "length p = 67108865"
    using Ex_list_of_length by blast
  have "unat MAX_RECORD_LEN < length p mod 2 ^ 32" and "clean []"
    by (simp_all add: p MAX_RECORD_LEN_def)
  from record_oversize_unreadable [OF this] p show ?thesis by blast
qed

end
