(* ===== verification/Wal_Segment.thy ===== *)
theory Wal_Segment
  imports Wal_Record
begin

text \<open>
  One log segment, \<^verbatim>\<open>src/wal/segment.rs\<close>: a file of records, its buffered writer, recovery of a
  possibly torn tail, and iteration.
\<close>

section \<open>Model\<close>

record segment =
  seg_base_index :: u64
  seg_path :: path
  seg_writer :: bufw
  seg_bytes :: u64
  seg_count :: u64

type_synonym 'a seg_io = "(error, segment \<times> world, 'a) prog"

definition segment_create :: "path \<Rightarrow> u64 \<Rightarrow> segment io" where
  "segment_create path base_index = andThen (open_create_new path) (\<lambda>file.
     ret \<lparr>seg_base_index = base_index, seg_path = path, seg_writer = bufw_new file, seg_bytes = 0, seg_count = 0\<rparr>)"

lemma read_record_Entry_shorter:
  "read_record X r = (Inr (Entry p), r') \<Longrightarrow> length (rd_rest r') < length (rd_rest r)"
  using read_record_result [of X r "Entry p" r'] rf.dec_Entry [of X "rd_rest r" p "rd_rest r'"]
  by (auto simp: HEADER_LEN_def)

lemma stream_position_rest [simp]: "stream_position r = (x, r') \<Longrightarrow> rd_rest r' = rd_rest r"
  by (auto simp: stream_position_def split: list.splits)

text \<open>The loop of \<open>rest_parses_cleanly\<close>.\<close>

function rest_parses_cleanly :: "('x) ext_scheme \<Rightarrow> reader \<Rightarrow> (error + bool) \<times> reader" where
  "rest_parses_cleanly X r = (case read_record X r of
       (Inl e, r') \<Rightarrow> (Inl e, r')
     | (Inr (Entry _), r') \<Rightarrow> rest_parses_cleanly X r'
     | (Inr Eof, r') \<Rightarrow> (Inr True, r')
     | (Inr Truncated, r') \<Rightarrow> (Inr False, r')
     | (Inr Corrupt, r') \<Rightarrow> (Inr False, r'))"
  by pat_completeness auto
termination
  by (relation "measure (\<lambda>(X, r). length (rd_rest r))") (auto dest: read_record_Entry_shorter [OF sym])

definition crc_message :: "path \<Rightarrow> u64 \<Rightarrow> string" where
  "crc_message path off = ''crc mismatch in '' @ display_path path @ '' at offset '' @ show_u64 off"

text \<open>The scanning loop of \<open>recover\<close>, with its variables \<open>good_offset\<close> and \<open>count\<close>.\<close>

function recover_loop :: "('x) ext_scheme \<Rightarrow> path \<Rightarrow> u64 \<Rightarrow> u64 \<Rightarrow> u64 \<Rightarrow> reader \<Rightarrow> (error + u64 \<times> u64) \<times> reader" where
  "recover_loop X path flen good_offset count r = (case read_record X r of
       (Inl e, r') \<Rightarrow> (Inl e, r')
     | (Inr (Entry _), r') \<Rightarrow> (case stream_position r' of
           (Inl e, r'') \<Rightarrow> (Inl e, r'')
         | (Inr pos, r'') \<Rightarrow> recover_loop X path flen (of_nat pos) (count + 1) r'')
     | (Inr Eof, r') \<Rightarrow> (Inr (good_offset, count), r')
     | (Inr Truncated, r') \<Rightarrow> (Inr (good_offset, count), r')
     | (Inr Corrupt, r') \<Rightarrow> (case stream_position r' of
           (Inl e, r'') \<Rightarrow> (Inl e, r'')
         | (Inr pos, r'') \<Rightarrow>
             if of_nat pos < flen then
               (case rest_parses_cleanly X r'' of
                  (Inl e, r3) \<Rightarrow> (Inl e, r3)
                | (Inr True, r3) \<Rightarrow> (Inl (Corruption (crc_message path good_offset)), r3)
                | (Inr False, r3) \<Rightarrow> (Inr (good_offset, count), r3))
             else (Inr (good_offset, count), r'')))"
  by pat_completeness auto
termination
  by (relation "measure (\<lambda>(X, p, n, g, c, r). length (rd_rest r))")
    (auto dest!: read_record_Entry_shorter [OF sym] dest: stream_position_rest [OF sym])

declare rest_parses_cleanly.simps [simp del] recover_loop.simps [simp del]

definition segment_recover :: "('x) ext_scheme \<Rightarrow> path \<Rightarrow> u64 \<Rightarrow> segment io" where
  "segment_recover X path base_index =
     andThen (open_existing path) (\<lambda>file.
     andThen (file_len file) (\<lambda>len.
     andThen (with_reader file (recover_loop X path (of_nat len) 0 0)) (\<lambda>(good_offset, count).
     andThen (open_existing path) (\<lambda>file2.
     andThen (set_len file2 (unat good_offset)) (\<lambda>_.
     andThen (sync_all file2) (\<lambda>_.
     (\<lambda>w. case bw_seek_end (bufw_new file2, w) of
          (Inl e, _, w') \<Rightarrow> (Inl e, w')
        | (Inr _, writer, w') \<Rightarrow>
            (Inr \<lparr>seg_base_index = base_index, seg_path = path, seg_writer = writer,
                  seg_bytes = good_offset, seg_count = count\<rparr>, w'))))))))"

abbreviation on_writer :: "'a bw_io \<Rightarrow> 'a seg_io" where
  "on_writer \<equiv> zoom seg_writer (\<lambda>b s. s\<lparr>seg_writer := b\<rparr>)"

definition segment_append :: "('x) ext_scheme \<Rightarrow> bytes \<Rightarrow> unit seg_io" where
  "segment_append X payload = andThen (on_writer (write_record X (bw_write_all X) payload)) (\<lambda>written.
     modify (\<lambda>(s, w). (s\<lparr>seg_bytes := seg_bytes s + of_nat written, seg_count := seg_count s + 1\<rparr>, w)))"

definition segment_sync :: "unit seg_io" where
  "segment_sync = andThen (on_writer bw_flush) (\<lambda>_. on_writer bw_sync_all)"

record seg_iter =
  it_reader :: reader
  it_done :: bool

text \<open>\<open>Iterator::next\<close> of \<open>SegmentIter\<close>.\<close>

definition iter_next :: "('x) ext_scheme \<Rightarrow> seg_iter \<Rightarrow> (error + bytes) option \<times> seg_iter" where
  "iter_next X it = (if it_done it then (None, it) else
     (case read_record X (it_reader it) of
        (Inr (Entry p), r) \<Rightarrow> (Some (Inr p), it\<lparr>it_reader := r\<rparr>)
      | (Inr Eof, r) \<Rightarrow> (None, \<lparr>it_reader = r, it_done = True\<rparr>)
      | (Inr Truncated, r) \<Rightarrow> (Some (Inl (error_wal ''unexpected partial/corrupt record while iterating'')), \<lparr>it_reader = r, it_done = True\<rparr>)
      | (Inr Corrupt, r) \<Rightarrow> (Some (Inl (error_wal ''unexpected partial/corrupt record while iterating'')), \<lparr>it_reader = r, it_done = True\<rparr>)
      | (Inl e, r) \<Rightarrow> (Some (Inl e), \<lparr>it_reader = r, it_done = True\<rparr>)))"

text \<open>\<open>Segment::iter\<close> opens the file afresh; \<open>body\<close> is the loop that consumes the iterator.\<close>

definition segment_iter :: "segment \<Rightarrow> (error, seg_iter, 'a) prog \<Rightarrow> 'a io" where
  "segment_iter s body = andThen (open_existing (seg_path s)) (\<lambda>file.
     with_reader file (\<lambda>r. case body \<lparr>it_reader = r, it_done = False\<rparr> of (x, it) \<Rightarrow> (x, it_reader it)))"

text \<open>\<open>remove\<close> consumes the segment, so its writer is dropped afterwards.\<close>

definition segment_remove :: "segment \<Rightarrow> unit io" where
  "segment_remove s w = (case remove_file (seg_path s) w of (r, w') \<Rightarrow> (r, bw_drop (seg_writer s) w'))"

section \<open>Scanning a file\<close>

definition frames :: "('x) ext_scheme \<Rightarrow> bytes list \<Rightarrow> bytes" where
  "frames X ps = concat (map (frame X) ps)"

lemma frames_simps [simp]:
  "frames X [] = []" "frames X (p # ps) = frame X p @ frames X ps" "frames X (ps @ qs) = frames X ps @ frames X qs"
  by (simp_all add: frames_def)

abbreviation small :: "bytes list \<Rightarrow> bool" where
  "small ps \<equiv> \<forall>p\<in>set ps. length p \<le> max_payload"

text \<open>The records at the front of a file, and what follows them.\<close>

function scan :: "('x) ext_scheme \<Rightarrow> bytes \<Rightarrow> bytes list \<times> bytes" where
  "scan X bs = (case parse_record X bs of
      (Entry p, t) \<Rightarrow> (case scan X t of (ps, u) \<Rightarrow> (p # ps, u))
    | _ \<Rightarrow> ([], bs))"
  by pat_completeness auto
termination
  by (relation "measure (\<lambda>(X, bs). length bs)") (auto dest!: rf.dec_Entry [OF sym] simp: HEADER_LEN_def)

declare scan.simps [simp del]

definition no_entry :: "('x) ext_scheme \<Rightarrow> bytes \<Rightarrow> bool" where
  "no_entry X t \<longleftrightarrow> (\<nexists>p u. parse_record X t = (Entry p, u))"

lemma no_entry_Nil [simp]: "no_entry X []"
  by (simp add: no_entry_def rf.dec_Nil)

lemma scan_Nil [simp]: "scan X [] = ([], [])"
  by (simp add: scan.simps [of X "[]"] rf.dec_Nil)

lemma scan_sound: "scan X bs = (ps, t) \<Longrightarrow> bs = frames X ps @ t \<and> small ps \<and> no_entry X t"
proof (induction X bs arbitrary: ps t rule: scan.induct)
  case (1 X bs)
  obtain out u where out: "parse_record X bs = (out, u)" by fastforce
  show ?case
  proof (cases out)
    case (Entry p)
    obtain qs v where qs: "scan X u = (qs, v)" by fastforce
    have "ps = p # qs" and "t = v"
      using "1.prems" out Entry qs by (simp_all add: scan.simps [of X bs])
    moreover have "u = frames X qs @ v \<and> small qs \<and> no_entry X v"
      using "1.IH" [OF out [symmetric] Entry] qs by simp
    moreover have "bs = frame X p @ u" and "length p \<le> max_payload"
      using rf.dec_Entry out Entry by blast+
    ultimately show ?thesis by simp
  qed (use "1.prems" out in \<open>auto simp: scan.simps [of X bs] no_entry_def\<close>)
qed

lemma scan_frames: "small ps \<Longrightarrow> no_entry X t \<Longrightarrow> scan X (frames X ps @ t) = (ps, t)"
proof (induction ps)
  case Nil
  obtain out u where "parse_record X t = (out, u)" by fastforce
  with Nil show ?case by (cases out) (auto simp: scan.simps [of X t] no_entry_def)
next
  case (Cons p ps)
  then have "parse_record X (frame X p @ frames X ps @ t) = (Entry p, frames X ps @ t)"
    by (intro rf.dec_enc) simp
  with Cons show ?case by (simp add: scan.simps [of X "frame X p @ frames X ps @ t"])
qed

lemma scan_append_frames: "small ps \<Longrightarrow> scan X (frames X ps @ t) = (case scan X t of (qs, u) \<Rightarrow> (ps @ qs, u))"
proof -
  assume ps: "small ps"
  obtain qs u where qs: "scan X t = (qs, u)" by fastforce
  then have "t = frames X qs @ u" and "small qs" and "no_entry X u"
    using scan_sound by blast+
  then show ?thesis using scan_frames [of "ps @ qs" X u] ps qs by auto
qed

text \<open>When recovery refuses a file: a damaged record, and behind it a clean run of records to the end.\<close>

definition damaged_inside :: "('x) ext_scheme \<Rightarrow> bytes \<Rightarrow> bool" where
  "damaged_inside X bs \<longleftrightarrow> (case parse_record X (snd (scan X bs)) of
      (Corrupt, u) \<Rightarrow> u \<noteq> [] \<and> snd (scan X u) = [] | _ \<Rightarrow> False)"

section \<open>The loops compute the scan\<close>

lemma clean_suffix: "suffix xs ys \<Longrightarrow> clean ys \<Longrightarrow> clean xs"
  by (auto simp: suffix_def)

lemma stream_position_clean:
  "clean (rd_events r) \<Longrightarrow> stream_position r = (Inr (rd_pos r), r\<lparr>rd_events := tl (rd_events r)\<rparr>)"
  by (cases "rd_events r") (auto simp: stream_position_def)

lemma rest_parses_cleanly_scan:
  "clean (rd_events r) \<Longrightarrow> \<exists>r'. rest_parses_cleanly X r = (Inr (snd (scan X (rd_rest r)) = []), r') \<and> clean (rd_events r')"
proof (induction X r rule: rest_parses_cleanly.induct)
  case (1 X r)
  obtain out t where out: "parse_record X (rd_rest r) = (out, t)" by fastforce
  obtain r1 where r1: "read_record X r = (Inr out, r1)" "rd_rest r1 = t" "clean (rd_events r1)"
    using read_record_parse [OF "1.prems" out] by auto
  show ?case
  proof (cases out)
    case (Entry p)
    then have "\<exists>r'. rest_parses_cleanly X r1 = (Inr (snd (scan X t) = []), r') \<and> clean (rd_events r')"
      using "1.IH" [OF r1(1) [symmetric]] r1 by simp
    then show ?thesis
      using out r1 Entry by (auto simp: rest_parses_cleanly.simps [of X r] scan.simps [of X "rd_rest r"] split: prod.splits)
  next
    case Eof
    then show ?thesis
      using out r1 rf.dec_Eof [of X "rd_rest r"]
      by (simp add: rest_parses_cleanly.simps [of X r] scan.simps [of X "rd_rest r"])
  next
    case Truncated
    then have "rd_rest r \<noteq> []" using out by (auto simp: rf.dec_Nil)
    with Truncated show ?thesis
      using out r1 by (simp add: rest_parses_cleanly.simps [of X r] scan.simps [of X "rd_rest r"])
  next
    case Corrupt
    then have "rd_rest r \<noteq> []" using out by (auto simp: rf.dec_Nil)
    with Corrupt show ?thesis
      using out r1 by (simp add: rest_parses_cleanly.simps [of X r] scan.simps [of X "rd_rest r"])
  qed
qed

lemma parse_record_shorter: "parse_record X bs = (out, t) \<Longrightarrow> length t \<le> length bs"
  by (auto simp: parse_record_def Let_def split: if_splits)

lemma recover_loop_scan:
  "clean (rd_events r) \<Longrightarrow> rd_pos r + length (rd_rest r) = n \<Longrightarrow> n < u64_bound \<Longrightarrow>
   \<exists>r'. clean (rd_events r') \<and> recover_loop X path (of_nat n) (of_nat (rd_pos r)) c r =
     (let ps = fst (scan X (rd_rest r)); off = of_nat (rd_pos r + length (frames X ps)) in
      if damaged_inside X (rd_rest r) then Inl (Corruption (crc_message path off)) else Inr (off, c + of_nat (length ps)), r')"
proof (induction "length (rd_rest r)" arbitrary: r c rule: less_induct)
  case less
  obtain out t where out: "parse_record X (rd_rest r) = (out, t)" by fastforce
  obtain r1 where r1: "read_record X r = (Inr out, r1)" "rd_rest r1 = t" "clean (rd_events r1)"
      "rd_pos r1 = rd_pos r + (length (rd_rest r) - length t)"
    using read_record_parse [OF less.prems(1) out] by auto
  define r2 where "r2 = r1\<lparr>rd_events := tl (rd_events r1)\<rparr>"
  have sp: "stream_position r1 = (Inr (rd_pos r1), r2)" and r2: "rd_rest r2 = t" "clean (rd_events r2)" "rd_pos r2 = rd_pos r1"
    using stream_position_clean [OF r1(3)] r1 by (simp_all add: r2_def)
  have le: "length t \<le> length (rd_rest r)" using parse_record_shorter [OF out] .
  show ?case
  proof (cases out)
    case (Entry p)
    have bs: "rd_rest r = frame X p @ t" using rf.dec_Entry out Entry by blast
    have pos: "rd_pos r2 = rd_pos r + length (frame X p)" using r1(4) r2(3) by (simp add: bs)
    have "\<exists>r'. clean (rd_events r') \<and> recover_loop X path (of_nat n) (of_nat (rd_pos r2)) (c + 1) r2 =
     (let ps = fst (scan X (rd_rest r2)); off = of_nat (rd_pos r2 + length (frames X ps)) in
      if damaged_inside X (rd_rest r2) then Inl (Corruption (crc_message path off)) else Inr (off, (c + 1) + of_nat (length ps)), r')"
      by (rule less.hyps) (use less.prems r2 pos bs in \<open>simp_all add: HEADER_LEN_def\<close>)
    moreover have "damaged_inside X (rd_rest r) = damaged_inside X t"
      using out Entry by (simp add: damaged_inside_def scan.simps [of X "rd_rest r"] split: prod.splits)
    moreover obtain qs u where "scan X t = (qs, u)" by fastforce
    moreover then have "scan X (rd_rest r) = (p # qs, u)"
      using out Entry by (simp add: scan.simps [of X "rd_rest r"])
    moreover have "recover_loop X path (of_nat n) (of_nat (rd_pos r)) c r = recover_loop X path (of_nat n) (of_nat (rd_pos r2)) (c + 1) r2"
      using r1(1) Entry sp r2(3) by (simp add: recover_loop.simps [of X path _ _ c r])
    ultimately show ?thesis
      using pos r2(1) by (auto simp: Let_def algebra_simps)
  next
    case Eof
    then have "rd_rest r = []" using rf.dec_Eof out by (metis fst_conv)
    then show ?thesis
      using r1 Eof by (simp add: recover_loop.simps [of X path _ _ c r] damaged_inside_def rf.dec_Nil)
  next
    case Truncated
    then have "scan X (rd_rest r) = ([], rd_rest r)" using out by (simp add: scan.simps)
    then show ?thesis
      using r1 Truncated out by (simp add: recover_loop.simps [of X path _ _ c r] damaged_inside_def)
  next
    case Corrupt
    then have sc: "scan X (rd_rest r) = ([], rd_rest r)" using out by (simp add: scan.simps)
    have "rd_pos r1 + length t = n"
      using less.prems(2) le r1(4) by linarith
    then have "rd_pos r1 \<le> n" and "rd_pos r1 < n \<longleftrightarrow> t \<noteq> []"
      by auto
    then have "(of_nat (rd_pos r1) :: u64) < of_nat n \<longleftrightarrow> t \<noteq> []"
      using less.prems(3) by (simp only: u64_less_of_nat)
    moreover obtain r3 where "rest_parses_cleanly X r2 = (Inr (snd (scan X t) = []), r3)" "clean (rd_events r3)"
      using rest_parses_cleanly_scan [OF r2(2), of X] r2(1) by auto
    ultimately show ?thesis
      using r1(1) Corrupt sp out sc r2(2)
      by (cases "snd (scan X t) = []") (auto simp: recover_loop.simps [of X path _ _ c r] damaged_inside_def)
  qed
qed

section \<open>The segment invariant\<close>

abbreviation seg_ino :: "segment \<Rightarrow> nat" where
  "seg_ino s \<equiv> bw_ino (seg_writer s)"

text \<open>
  A segment is in order and holds the records \<open>ps\<close>: its file and its buffer together are their
  frames, its counters agree, and its path leads to its file.
\<close>

definition seg_ok :: "('x) ext_scheme \<Rightarrow> world \<Rightarrow> segment \<Rightarrow> bytes list \<Rightarrow> bool" where
  "seg_ok X w s ps \<longleftrightarrow> w_find w (seg_path s) = Some (seg_ino s) \<and> bw_ok (seg_writer s) w \<and>
     bw_content (seg_writer s) w = frames X ps \<and> seg_bytes s = of_nat (length (frames X ps)) \<and>
     seg_count s = of_nat (length ps) \<and> small ps"

text \<open>Everything in the segment is on disk.\<close>

definition seg_synced :: "world \<Rightarrow> segment \<Rightarrow> bool" where
  "seg_synced w s \<longleftrightarrow> bw_buf (seg_writer s) = [] \<and> \<not> i_dirty (w_inode w (seg_ino s)) \<and>
     i_synced (w_inode w (seg_ino s)) = i_data (w_inode w (seg_ino s))"

lemma seg_ok_transfer:
  assumes "seg_ok X w s ps" and "w_find w' (seg_path s) = w_find w (seg_path s)"
    and "w_inode w' (seg_ino s) = w_inode w (seg_ino s)"
  shows "seg_ok X w' s ps"
  using assms by (simp add: seg_ok_def bw_ok_def bw_content_def)

lemma seg_synced_transfer:
  "seg_synced w s \<Longrightarrow> w_inode w' (seg_ino s) = w_inode w (seg_ino s) \<Longrightarrow> seg_synced w' s"
  by (simp add: seg_synced_def)

lemma seg_ok_synced_data: "seg_ok X w s ps \<Longrightarrow> bw_buf (seg_writer s) = [] \<Longrightarrow> i_data (w_inode w (seg_ino s)) = frames X ps"
  by (simp add: seg_ok_def bw_content_def)

lemma write_record_run:
  assumes "w_clean w" and "bw_ok b w"
  shows "\<exists>b' w'. write_record X (bw_write_all X) p (b, w) = (Inr (length (frame X p)), b', w') \<and> bw_step b w (frame X p) b' w'"
proof -
  define lb cb where "lb = le_bytes (of_nat (length p))" and "cb = le_bytes (x_crc X (lb @ p))"
  have step: "\<exists>b2 w2. bw_write_all X ys (b1, w1) = (Inr (), b2, w2) \<and> bw_step b w (xs @ ys) b2 w2"
    if "bw_step b w xs b1 w1" for xs ys b1 w1
    using that wp_bw_write_all [of w1 b1 X ys] by (auto simp: wp_total bw_step_def [of b w xs] intro: bw_step_trans [OF that])
  have "bw_step b w [] b w" using assms by (simp add: bw_step_def)
  from step [OF this] obtain b1 w1 where 1: "bw_write_all X cb (b, w) = (Inr (), b1, w1)" "bw_step b w cb b1 w1"
    by fastforce
  from step [OF 1(2)] obtain b2 w2 where 2: "bw_write_all X lb (b1, w1) = (Inr (), b2, w2)" "bw_step b w (cb @ lb) b2 w2"
    by fastforce
  from step [OF 2(2)] obtain b3 w3 where 3: "bw_write_all X p (b2, w2) = (Inr (), b3, w3)" "bw_step b w ((cb @ lb) @ p) b3 w3"
    by fastforce
  have "frame X p = (cb @ lb) @ p"
    by (simp add: frame_def Let_def lb_def cb_def)
  with 1 2 3 show ?thesis
    by (simp add: write_record_def Let_def lb_def [symmetric] cb_def [symmetric] run_simps ret_def)
      (simp add: HEADER_LEN_def lb_def cb_def)
qed

lemma segment_append_run:
  assumes "w_clean w" and "seg_ok X w s ps" and "length p \<le> max_payload"
  shows "\<exists>s' w'. segment_append X p (s, w) = (Inr (), s', w') \<and> seg_ok X w' s' (ps @ [p]) \<and> seg_path s' = seg_path s \<and>
      seg_base_index s' = seg_base_index s \<and> bw_step (seg_writer s) w (frame X p) (seg_writer s') w'"
proof -
  have "bw_ok (seg_writer s) w" using assms(2) by (simp add: seg_ok_def)
  from write_record_run [OF assms(1) this, of X p] obtain b' w' where
    b': "write_record X (bw_write_all X) p (seg_writer s, w) = (Inr (length (frame X p)), b', w')"
    and step: "bw_step (seg_writer s) w (frame X p) b' w'" by blast
  show ?thesis
    using step assms(2,3)
    by (auto simp: segment_append_def andThen_def zoom_def b' modify_def seg_ok_def bw_step_def touches_def)
qed

lemma segment_sync_run:
  assumes "w_clean w" and "seg_ok X w s ps"
  shows "\<exists>s' w'. segment_sync (s, w) = (Inr (), s', w') \<and> seg_ok X w' s' ps \<and> seg_synced w' s' \<and>
      seg_path s' = seg_path s \<and> seg_ino s' = seg_ino s \<and> seg_base_index s' = seg_base_index s \<and>
      touches (seg_ino s) w w' \<and> w_clean w' \<and> (fs_ok w \<longrightarrow> fs_ok w')"
proof -
  have bw: "bw_ok (seg_writer s) w" using assms(2) by (simp add: seg_ok_def)
  obtain b1 w1 where 1: "bw_flush (seg_writer s, w) = (Inr (), b1, w1)" "bw_step (seg_writer s) w [] b1 w1" "bw_buf b1 = []"
    using wp_bw_flush [OF assms(1) bw] by (auto simp: wp_total)
  have "w_clean w1" and "bw_ok b1 w1" using 1(2) by (auto simp: bw_step_def)
  from wp_bw_sync_all [OF this] obtain w2 where 2: "bw_sync_all (b1, w1) = (Inr (), b1, w2)" "touches (bw_ino b1) w1 w2"
    "w_clean w2" "fs_ok w1 \<longrightarrow> fs_ok w2"
    "w_inode w2 (bw_ino b1) = (w_inode w1 (bw_ino b1))\<lparr>i_synced := i_data (w_inode w1 (bw_ino b1)), i_dirty := False\<rparr>"
    by (auto simp: wp_total)
  have "segment_sync (s, w) = (Inr (), s\<lparr>seg_writer := b1\<rparr>, w2)"
    using 1(1) 2(1) by (simp add: segment_sync_def andThen_def zoom_def)
  then show ?thesis
    using 1(2,3) 2(2-) assms(2)
    by (auto simp: seg_ok_def seg_synced_def bw_step_def bw_ok_def bw_content_def touches_def)
qed

text \<open>Creating a segment.\<close>

lemma segment_create_run:
  assumes "w_clean w" and "w_find w path = None" and "butlast path \<in> set (w_dirs w)" and "fs_ok w"
  shows "\<exists>s w'. segment_create path base w = (Inr s, w') \<and> seg_ok X w' s [] \<and> seg_synced w' s \<and> seg_path s = path \<and>
      seg_base_index s = base \<and> seg_ino s = w_next w \<and> w_next w' = Suc (w_next w) \<and> w_dirs w' = w_dirs w \<and>
      (\<forall>q. q \<noteq> path \<longrightarrow> w_find w' q = w_find w q) \<and> (\<forall>i. i \<noteq> w_next w \<longrightarrow> w_inode w' i = w_inode w i) \<and>
      w_disk w' = w_disk w \<and> w_pend w' = [(path, Some (w_next w))] # w_pend w \<and> w_clean w' \<and> fs_ok w'"
proof -
  obtain w' where nf: "new_file path (w\<lparr>w_events := tl (w_events w)\<rparr>) = (Inr (w_next w), w')"
    by (simp add: new_file_def)
  then have "fs_ok w'" using assms(4) by (intro fs_ok_new_file [OF _ nf]) simp
  then show ?thesis
    using nf assms(1-3)
    by (auto simp: segment_create_def andThen_def open_create_new_def syscall_clean ret_def new_file_def bufw_new_def
        seg_ok_def seg_synced_def bw_ok_def bw_content_def empty_inode_def)
qed

text \<open>Reading a file through a loop that finishes.\<close>

lemma reader_of_fields [simp]:
  "rd_rest (reader_of w i) = i_data (w_inode w i)" "rd_pos (reader_of w i) = 0" "rd_events (reader_of w i) = w_events w"
  by (simp_all add: reader_of_def)

lemma with_reader_run:
  "m (reader_of w i) = (x, r) \<Longrightarrow> with_reader i m w = (x, w\<lparr>w_events := rd_events r\<rparr>)"
  by (simp add: with_reader_def)

text \<open>
  Recovery of a file with any contents: it is refused exactly when it is damaged inside, and
  is otherwise cut back to the records at its front, durably.
\<close>

lemma segment_recover_run:
  assumes "w_clean w" and "w_find w path = Some i" and "fs_ok w" and "length c < u64_bound"
    and c_def: "i_data (w_inode w i) = c" and ps_def: "fst (scan X c) = ps"
  shows "\<exists>w'. w_clean w' \<and> fs_ok w' \<and> touches i w w' \<and>
     (if damaged_inside X c
      then segment_recover X path base w = (Inl (Corruption (crc_message path (of_nat (length (frames X ps))))), w') \<and> w_inode w' = w_inode w
      else \<exists>s. segment_recover X path base w = (Inr s, w') \<and> seg_ok X w' s ps \<and> seg_synced w' s \<and> seg_path s = path \<and>
             seg_base_index s = base \<and> seg_ino s = i)"
proof -
  obtain t where sc: "scan X c = (ps, t)" using ps_def by (cases "scan X c") simp
  have c: "c = frames X ps @ t" and small: "small ps" using scan_sound [OF sc] by auto
  define w1 where "w1 = w\<lparr>w_events := tl (tl (w_events w))\<rparr>"
  have w1: "w_clean w1" "w_find w1 path = Some i" "i_data (w_inode w1 i) = c" "touches i w w1" "fs_ok w1" "w_inode w1 = w_inode w"
    using assms by (simp_all add: w1_def)
  have open1: "open_existing path w = (Inr i, w\<lparr>w_events := tl (w_events w)\<rparr>)"
    and len1: "file_len i (w\<lparr>w_events := tl (w_events w)\<rparr>) = (Inr (length c), w1)"
    using assms by (simp_all add: open_existing_def file_len_def syscall_clean w1_def)
  let ?off = "of_nat (length (frames X ps)) :: u64"
  obtain r where loop: "recover_loop X path (of_nat (length c)) 0 0 (reader_of w1 i) =
      (if damaged_inside X c then Inl (Corruption (crc_message path ?off)) else Inr (?off, of_nat (length ps)), r)" and r: "clean (rd_events r)"
    using recover_loop_scan [of "reader_of w1 i" "length c" X path 0] w1 assms(4) sc by (auto simp: Let_def)
  define w2 where "w2 = w1\<lparr>w_events := rd_events r\<rparr>"
  have w2: "w_clean w2" "w_find w2 path = Some i" "i_data (w_inode w2 i) = c" "touches i w w2" "fs_ok w2" "w_inode w2 = w_inode w"
    using w1 r by (simp_all add: w2_def touches_def)
  have rd: "with_reader i (recover_loop X path (of_nat (length c)) 0 0) w1 =
      (if damaged_inside X c then Inl (Corruption (crc_message path ?off)) else Inr (?off, of_nat (length ps)), w2)"
    by (simp add: with_reader_def loop w2_def)
  show ?thesis
  proof (cases "damaged_inside X c")
    case True
    then have "segment_recover X path base w = (Inl (Corruption (crc_message path ?off)), w2)"
      using rd by (simp add: segment_recover_def andThen_def open1 len1)
    with True w2 show ?thesis by auto
  next
    case False
    have off: "unat ?off = length (frames X ps)"
      using assms(4) c by (intro u64_unat_of_nat) simp
    define f where "f = (\<lambda>n :: inode. n\<lparr>i_data := frames X ps, i_synced := frames X ps, i_dirty := False\<rparr>)"
    define w3 where "w3 = (upd_inode i f w2)\<lparr>w_events := tl (tl (tl (tl (w_events w2))))\<rparr>"
    let ?b = "\<lparr>bw_ino = i, bw_pos = length (frames X ps), bw_buf = []\<rparr>"
    have "segment_recover X path base w = (Inr \<lparr>seg_base_index = base, seg_path = path, seg_writer = ?b, seg_bytes = ?off, seg_count = of_nat (length ps)\<rparr>, w3)"
      using w2 False off c rd
      by (simp add: segment_recover_def andThen_def open1 len1)
        (simp add: open_existing_def set_len_def sync_all_def bw_seek_end_def andThen_def bw_flush_def bufw_new_def file_len_def syscall_clean
           upd_inode_def w3_def f_def)
    moreover have "fs_ok w3" "w_clean w3" "touches i w w3"
      using w2 by (auto simp: w3_def f_def touches_def intro!: fs_ok_upd_inode)
    moreover have "w_find w3 path = Some i" using w2 by (simp add: w3_def)
    ultimately show ?thesis
      using False small by (auto simp: seg_ok_def seg_synced_def bw_ok_def bw_content_def w3_def f_def)
  qed
qed

text \<open>Iterating over a file of whole records.\<close>

lemma iter_next_Cons:
  assumes "clean (rd_events (it_reader it))" and "\<not> it_done it" and "rd_rest (it_reader it) = frame X p @ t" and "length p \<le> max_payload"
  shows "\<exists>it'. iter_next X it = (Some (Inr p), it') \<and> rd_rest (it_reader it') = t \<and> clean (rd_events (it_reader it')) \<and> \<not> it_done it'"
proof -
  have "parse_record X (rd_rest (it_reader it)) = (Entry p, t)"
    using assms(3,4) by (simp add: rf.dec_enc)
  from read_record_parse [OF assms(1) this] assms(2) show ?thesis
    by (auto simp: iter_next_def)
qed

lemma iter_next_Nil:
  assumes "clean (rd_events (it_reader it))" and "rd_rest (it_reader it) = []"
  shows "\<exists>it'. iter_next X it = (None, it') \<and> clean (rd_events (it_reader it'))"
  using read_record_parse [OF assms(1), of X Eof "[]"] assms by (auto simp: iter_next_def rf.dec_Nil)

section \<open>Properties\<close>

text \<open>A damaged record: complete, within bounds, but with the wrong checksum.\<close>

definition bad_record :: "('x) ext_scheme \<Rightarrow> bytes \<Rightarrow> bool" where
  "bad_record X bs \<longleftrightarrow> (\<exists>crc len q. bs = le_bytes crc @ le_bytes len @ q \<and> len \<le> MAX_RECORD_LEN \<and> length q = unat len \<and>
     x_crc X (le_bytes len @ q) \<noteq> crc)"

lemma parse_bad_record: "bad_record X bad \<Longrightarrow> parse_record X (bad @ t) = (Corrupt, t)"
  by (auto simp: bad_record_def parse_record_def Let_def HEADER_LEN_def not_less)

lemma no_entryI: "parse_record X t = (out, u) \<Longrightarrow> (\<And>p. out \<noteq> Entry p) \<Longrightarrow> no_entry X t"
  by (auto simp: no_entry_def)

text \<open>C28. A crash in the middle of appending \<open>inflight\<close> to a file of acknowledged records, leaving any prefix
  of the new bytes, is repaired by \<open>recover\<close>: it returns a segment holding every acknowledged record and
  exactly those new records that are complete, and the file is durably cut back to them.\<close>

theorem segment_recover_torn:
  assumes "w_clean w" and "fs_ok w" and "w_find w path = Some i"
    and "i_data (w_inode w i) = frames X acked @ take n (frames X inflight)"
    and "\<forall>p\<in>set (acked @ inflight). length p \<le> max_payload" and "length (i_data (w_inode w i)) < 2 ^ 64"
  shows "\<exists>k s w'. k \<le> length inflight \<and> length (frames X (take k inflight)) \<le> n \<and>
     (k < length inflight \<longrightarrow> n < length (frames X (take (Suc k) inflight))) \<and>
     segment_recover X path base w = (Inr s, w') \<and> seg_ok X w' s (acked @ take k inflight) \<and> seg_synced w' s"
proof -
  have small: "small acked" "small inflight" using assms(5) by auto
  define n' where "n' = min n (length (frames X inflight))"
  have n': "take n (frames X inflight) = take n' (frames X inflight)" by (simp add: n'_def min_def)
  obtain k t where kt: "k \<le> length inflight" "take n' (frames X inflight) = frames X (take k inflight) @ t"
    "t = [] \<or> (k < length inflight \<and> strict_prefix t (frame X (inflight ! k)) \<and> t \<noteq> [])"
    using rf.take_frames [of n' X inflight] by (auto simp: n'_def frames_def)
  have t: "no_entry X t \<and> parse_record X t \<in> {(Eof, []), (Truncated, [])}"
    using kt(3)
  proof
    assume "k < length inflight \<and> strict_prefix t (frame X (inflight ! k)) \<and> t \<noteq> []"
    then have "parse_record X t = (Truncated, [])"
      using small(2) by (intro rf.dec_torn) auto
    then show ?thesis by (auto intro: no_entryI)
  qed (simp add: rf.dec_Nil)
  define ps where "ps = acked @ take k inflight"
  have c: "i_data (w_inode w i) = frames X ps @ t" using assms(4) n' kt(2) by (simp add: ps_def)
  have "small ps" using assms(5) by (auto simp: ps_def dest: in_set_takeD)
  then have sc: "scan X (i_data (w_inode w i)) = (ps, t)" using scan_frames t c by metis
  then have "\<not> damaged_inside X (i_data (w_inode w i))" using t by (auto simp: damaged_inside_def)
  then obtain s w' where "segment_recover X path base w = (Inr s, w')" "seg_ok X w' s ps" "seg_synced w' s"
    using segment_recover_run [OF assms(1,3,2,6) refl refl, of X base] sc by auto
  moreover have len: "n' = length (frames X (take k inflight)) + length t"
    using arg_cong [OF kt(2), of length] by (simp add: n'_def)
  then have "length (frames X (take k inflight)) \<le> n" by (simp add: n'_def)
  moreover have "n < length (frames X (take (Suc k) inflight))" if k: "k < length inflight"
  proof -
    have "take (Suc k) inflight = take k inflight @ [inflight ! k]" using k by (rule take_Suc_conv_app_nth)
    moreover have "frames X inflight = frames X (take k inflight) @ frame X (inflight ! k) @ frames X (drop (Suc k) inflight)"
      by (metis frames_simps(2,3) id_take_nth_drop k)
    moreover have "length t < length (frame X (inflight ! k))"
      using kt(3) by (auto dest: prefix_length_less simp: HEADER_LEN_def)
    ultimately show ?thesis using len by (simp add: n'_def min_def split: if_splits)
  qed
  ultimately show ?thesis using kt(1) unfolding ps_def by blast
qed

theorem segment_recover_torn_witness:
  "\<exists>k s w'. k \<le> length [[2, 2], [3 :: u8]] \<and> length (frames sample_ext (take k [[2, 2], [3]])) \<le> 12 \<and>
     (k < length [[2, 2], [3 :: u8]] \<longrightarrow> 12 < length (frames sample_ext (take (Suc k) [[2, 2], [3]]))) \<and>
     segment_recover sample_ext [''d'', ''f''] 1 (file_world [''d'', ''f''] (frames sample_ext [[1]] @ take 12 (frames sample_ext [[2, 2], [3]])) [Short 1, Intr])
       = (Inr s, w') \<and> seg_ok sample_ext w' s ([[1]] @ take k [[2, 2], [3]]) \<and> seg_synced w' s"
  by (rule segment_recover_torn) (simp_all add: max_payload_eq HEADER_LEN_def)

text \<open>C29. Whatever bytes a crash leaves behind the acknowledged records, \<open>recover\<close> either returns a segment whose
  records start with all of them, or refuses the file with \<open>Corruption\<close> and leaves it untouched. It
  never opens a file with an acknowledged record missing.\<close>

theorem segment_recover_keeps_acked:
  assumes "w_clean w" and "fs_ok w" and "w_find w path = Some i"
    and "i_data (w_inode w i) = frames X acked @ junk"
    and "\<forall>p\<in>set acked. length p \<le> max_payload" and "length (i_data (w_inode w i)) < 2 ^ 64"
  shows "(\<exists>more s w'. segment_recover X path base w = (Inr s, w') \<and> seg_ok X w' s (acked @ more) \<and> seg_synced w' s) \<or>
     (\<exists>msg w'. segment_recover X path base w = (Inl (Corruption msg), w') \<and> w_inode w' = w_inode w)"
proof -
  obtain more t where "scan X junk = (more, t)" by fastforce
  then have "fst (scan X (i_data (w_inode w i))) = acked @ more"
    using assms(4,5) by (simp add: scan_append_frames)
  from segment_recover_run [OF assms(1,3,2,6) refl this, of base] show ?thesis
    by (auto split: if_splits)
qed

theorem segment_recover_keeps_acked_witness:
  "(\<exists>more s w'. segment_recover sample_ext [''d'', ''f''] 1 (file_world [''d'', ''f''] (frames sample_ext [[1], [2]] @ [171, 205, 239]) [Intr])
       = (Inr s, w') \<and> seg_ok sample_ext w' s ([[1], [2]] @ more) \<and> seg_synced w' s) \<or>
   (\<exists>msg w'. segment_recover sample_ext [''d'', ''f''] 1 (file_world [''d'', ''f''] (frames sample_ext [[1], [2]] @ [171, 205, 239]) [Intr])
       = (Inl (Corruption msg), w') \<and> w_inode w' = w_inode (file_world [''d'', ''f''] (frames sample_ext [[1], [2]] @ [171, 205, 239]) [Intr]))"
  by (rule segment_recover_keeps_acked) (simp_all add: max_payload_eq HEADER_LEN_def)



text \<open>C31. Two damaged records in a row, with any number of good records behind them, are not refused: \<open>recover\<close>
  takes them for a torn tail and durably deletes everything behind the first, good records included.\<close>

theorem segment_recover_drops_good_records:
  assumes "w_clean w" and "fs_ok w" and "w_find w path = Some i"
    and "i_data (w_inode w i) = frames X front @ bad @ bad' @ frames X rear" and "bad_record X bad" and "bad_record X bad'"
    and "\<forall>p\<in>set (front @ rear). length p \<le> max_payload" and "length (i_data (w_inode w i)) < 2 ^ 64"
  shows "\<exists>s w'. segment_recover X path base w = (Inr s, w') \<and> seg_ok X w' s front \<and>
     i_synced (w_inode w' i) = frames X front"
proof -
  have parse: "parse_record X (bad @ bad' @ frames X rear) = (Corrupt, bad' @ frames X rear)"
    "parse_record X (bad' @ frames X rear) = (Corrupt, frames X rear)"
    using assms(5,6) by (auto intro: parse_bad_record)
  then have sc: "scan X (i_data (w_inode w i)) = (front, bad @ bad' @ frames X rear)"
    using assms(4,7) by (auto intro!: scan_frames no_entryI)
  have "scan X (bad' @ frames X rear) = ([], bad' @ frames X rear)"
    using parse(2) by (simp add: scan.simps)
  moreover have "bad' \<noteq> []" using assms(6) by (auto simp: bad_record_def)
  ultimately have "\<not> damaged_inside X (i_data (w_inode w i))"
    using parse by (simp add: damaged_inside_def sc)
  then obtain s w' where s: "segment_recover X path base w = (Inr s, w')" "seg_ok X w' s front" "seg_synced w' s" "seg_ino s = i"
    using segment_recover_run [OF assms(1,3,2,8) refl, of X front base] sc by auto
  then show ?thesis using seg_ok_synced_data [OF s(2)] by (auto simp: seg_synced_def)
qed

theorem segment_recover_drops_good_records_witness:
  "\<exists>s w'. segment_recover sample_ext [''d'', ''f''] 1
       (file_world [''d'', ''f''] (frames sample_ext [[1]] @ (le_bytes 0 @ le_bytes 1 @ [2]) @ (le_bytes 0 @ le_bytes 1 @ [2]) @ frames sample_ext [[3], [4]]) [])
       = (Inr s, w') \<and> seg_ok sample_ext w' s [[1]] \<and> i_synced (w_inode w' 0) = frames sample_ext [[1]]"
proof (rule segment_recover_drops_good_records [where rear = "[[3], [4]]"])
  show bad: "bad_record sample_ext (le_bytes 0 @ le_bytes 1 @ [2])"
    unfolding bad_record_def
    by (rule exI [of _ 0], rule exI [of _ 1], rule exI [of _ "[2]"])
      (simp add: MAX_RECORD_LEN_def sample_ext_def sample_crc_def le_bytes_def)
  show "bad_record sample_ext (le_bytes 0 @ le_bytes 1 @ [2])" by (rule bad)
qed (simp_all add: max_payload_eq HEADER_LEN_def)

end
