(* ===== verification/Wal_Log.thy ===== *)
theory Wal_Log
  imports Wal_Segment
begin

text \<open>
  The segmented log, \<^verbatim>\<open>src/wal/log.rs\<close>: opening a directory of segments, appending with rotation,
  syncing, reading everything back, and truncation at both ends.
\<close>

section \<open>Model\<close>

definition SEGMENT_PREFIX :: string where "SEGMENT_PREFIX = ''wal-''"
definition SEGMENT_SUFFIX :: string where "SEGMENT_SUFFIX = ''.log''"

record wal_log =
  log_dir :: path
  max_segment_bytes :: u64
  segments :: "segment list"
  log_first_index :: u64
  log_last_index :: u64

type_synonym 'a log_io = "(error, wal_log \<times> world, 'a) prog"

definition segment_path :: "path \<Rightarrow> u64 \<Rightarrow> path" where
  "segment_path dir base = join_path dir (SEGMENT_PREFIX @ show_u64_20 base @ SEGMENT_SUFFIX)"

text \<open>The body of the loop of \<open>discover_segments\<close>, over the names in the directory.\<close>

fun segment_bases :: "string list \<Rightarrow> error + u64 list" where
  "segment_bases [] = Inr []"
| "segment_bases (name # names) = (case strip_prefix SEGMENT_PREFIX name of
     None \<Rightarrow> segment_bases names
   | Some rest \<Rightarrow> (case strip_suffix SEGMENT_SUFFIX rest of
       None \<Rightarrow> segment_bases names
     | Some digits \<Rightarrow> (case parse_u64 digits of
         None \<Rightarrow> Inl (error_wal (''malformed segment file name: '' @ name))
       | Some base \<Rightarrow> map_sum id (Cons base) (segment_bases names))))"

definition discover_segments :: "path \<Rightarrow> u64 list io" where
  "discover_segments dir = andThen (read_dir dir) (\<lambda>names w. (segment_bases names, w))"

text \<open>\<open>unwrap\<close> on \<open>None\<close>.\<close>

definition unwrap_none :: error where
  "unwrap_none = Panic ''called `Option::unwrap()` on a `None` value''"

primrec recover_segments :: "('x) ext_scheme \<Rightarrow> path \<Rightarrow> u64 list \<Rightarrow> segment list io" where
  "recover_segments X dir [] = ret []"
| "recover_segments X dir (base # bases) = andThen (segment_recover X (segment_path dir base) base) (\<lambda>s.
     andThen (recover_segments X dir bases) (\<lambda>ss. ret (s # ss)))"

definition log_open :: "('x) ext_scheme \<Rightarrow> path \<Rightarrow> u64 \<Rightarrow> wal_log io" where
  "log_open X dir max_bytes =
     andThen (create_dir_all dir) (\<lambda>_.
     andThen (discover_segments dir) (\<lambda>found.
     let bases = sort found in
     andThen (if bases = [] then andThen (segment_create (segment_path dir 1) 1) (\<lambda>s. ret [s])
              else recover_segments X dir bases) (\<lambda>segs.
     if segs = [] then throw unwrap_none
     else let lst = last segs in ret
       \<lparr>log_dir = dir, max_segment_bytes = max_bytes, segments = segs, log_first_index = seg_base_index (hd segs),
        log_last_index = (if seg_count lst = 0 then seg_base_index lst - 1 else seg_base_index lst + seg_count lst - 1)\<rparr>)))"

text \<open>A method call on \<open>self.segments.last_mut().unwrap()\<close>.\<close>

definition on_last :: "'a seg_io \<Rightarrow> 'a log_io" where
  "on_last m = (\<lambda>(l, w). if segments l = [] then (Inl unwrap_none, l, w) else
     (case m (last (segments l), w) of (r, s, w') \<Rightarrow> (r, l\<lparr>segments := butlast (segments l) @ [s]\<rparr>, w')))"

text \<open>The first half of \<open>append\<close>: rotate to a fresh segment when the active one is full.\<close>

definition log_rotate :: "unit log_io" where
  "log_rotate = andThen get_st (\<lambda>(l, _).
     if segments l = [] then throw unwrap_none
     else if max_segment_bytes l \<le> seg_bytes (last (segments l)) \<and> 0 < seg_count (last (segments l))
     then (let base = log_last_index l + 1 in
       andThen (outside (segment_create (segment_path (log_dir l) base) base)) (\<lambda>s.
       modify (\<lambda>(l, w). (l\<lparr>segments := segments l @ [s]\<rparr>, w))))
     else ret ())"

definition log_append :: "('x) ext_scheme \<Rightarrow> bytes \<Rightarrow> u64 log_io" where
  "log_append X payload =
     andThen log_rotate (\<lambda>_.
     andThen (on_last (segment_append X payload)) (\<lambda>_.
     andThen (modify (\<lambda>(l, w). (l\<lparr>log_last_index := log_last_index l + 1\<rparr>, w))) (\<lambda>_.
     andThen get_st (\<lambda>(l, _). ret (log_last_index l)))))"

primrec sync_segments :: "segment list \<Rightarrow> world \<Rightarrow> (error + unit) \<times> segment list \<times> world" where
  "sync_segments [] w = (Inr (), [], w)"
| "sync_segments (s # ss) w = (case segment_sync (s, w) of
     (Inl e, s', w') \<Rightarrow> (Inl e, s' # ss, w')
   | (Inr _, s', w') \<Rightarrow> (case sync_segments ss w' of (r, ss', w'') \<Rightarrow> (r, s' # ss', w'')))"

definition log_sync :: "unit log_io" where
  "log_sync = (\<lambda>(l, w). case sync_segments (segments l) w of (r, ss, w') \<Rightarrow> (r, l\<lparr>segments := ss\<rparr>, w'))"

lemma iter_next_shorter:
  "iter_next X it = (Some (Inr p), it') \<Longrightarrow> length (rd_rest (it_reader it')) < length (rd_rest (it_reader it))"
  by (auto simp: iter_next_def split: if_splits prod.splits sum.splits record_read.splits dest: read_record_Entry_shorter)

text \<open>The inner loop of \<open>read_all\<close>.\<close>

function collect_records :: "('x) ext_scheme \<Rightarrow> u64 \<Rightarrow> (u64 \<times> bytes) list \<Rightarrow> (error, seg_iter, (u64 \<times> bytes) list) prog" where
  "collect_records X idx out it = (case iter_next X it of
     (None, it') \<Rightarrow> (Inr out, it')
   | (Some (Inl e), it') \<Rightarrow> (Inl e, it')
   | (Some (Inr p), it') \<Rightarrow> collect_records X (idx + 1) (out @ [(idx, p)]) it')"
  by pat_completeness auto
termination
  by (relation "measure (\<lambda>(X, idx, out, it). length (rd_rest (it_reader it)))") (auto dest: iter_next_shorter [OF sym])

primrec read_segments :: "('x) ext_scheme \<Rightarrow> segment list \<Rightarrow> (u64 \<times> bytes) list \<Rightarrow> (u64 \<times> bytes) list io" where
  "read_segments X [] out = ret out"
| "read_segments X (s # ss) out = andThen (segment_iter s (collect_records X (seg_base_index s) out)) (read_segments X ss)"

definition log_read_all :: "('x) ext_scheme \<Rightarrow> wal_log \<Rightarrow> (u64 \<times> bytes) list io" where
  "log_read_all X l = read_segments X (segments l) []"

text \<open>The loop of \<open>truncate_prefix\<close>.\<close>

function shift_segments :: "u64 \<Rightarrow> unit log_io" where
  "shift_segments up_to_index (l, w) = (case segments l of
     s # t # ss \<Rightarrow>
       if seg_base_index s + max (seg_count s) 1 - 1 < up_to_index
       then (case segment_remove s w of
           (Inl e, w') \<Rightarrow> (Inl e, l\<lparr>segments := t # ss\<rparr>, w')
         | (Inr _, w') \<Rightarrow> shift_segments up_to_index (l\<lparr>segments := t # ss\<rparr>, w'))
       else (Inr (), l, w)
   | _ \<Rightarrow> (Inr (), l, w))"
  by pat_completeness auto
termination
  by (relation "measure (\<lambda>(_, l, _). length (segments l))") auto

definition log_truncate_prefix :: "u64 \<Rightarrow> unit log_io" where
  "log_truncate_prefix up_to_index = andThen (shift_segments up_to_index) (\<lambda>_ (l, w).
     if segments l = [] then (Inl unwrap_none, l, w)
     else (Inr (), l\<lparr>log_first_index := seg_base_index (hd (segments l))\<rparr>, w))"

text \<open>The first loop of \<open>truncate_suffix\<close>.\<close>

function pop_segments :: "u64 \<Rightarrow> unit log_io" where
  "pop_segments keep_last (l, w) =
     (if 1 < length (segments l) \<and> keep_last < seg_base_index (last (segments l))
      then (case segment_remove (last (segments l)) w of
          (Inl e, w') \<Rightarrow> (Inl e, l\<lparr>segments := butlast (segments l)\<rparr>, w')
        | (Inr _, w') \<Rightarrow> pop_segments keep_last (l\<lparr>segments := butlast (segments l)\<rparr>, w'))
      else (Inr (), l, w))"
  by pat_completeness auto
termination
  by (relation "measure (\<lambda>(_, l, _). length (segments l))") auto

text \<open>The loop that collects the survivors.\<close>

function survivors_loop :: "('x) ext_scheme \<Rightarrow> u64 \<Rightarrow> u64 \<Rightarrow> bytes list \<Rightarrow> (error, seg_iter, bytes list) prog" where
  "survivors_loop X keep_last idx survivors it = (case iter_next X it of
     (None, it') \<Rightarrow> (Inr survivors, it')
   | (Some rec, it') \<Rightarrow>
       if keep_last < idx then (Inr survivors, it')
       else (case rec of
           Inl e \<Rightarrow> (Inl e, it')
         | Inr p \<Rightarrow> survivors_loop X keep_last (idx + 1) (survivors @ [p]) it'))"
  by pat_completeness auto
termination
  by (relation "measure (\<lambda>(X, keep, idx, out, it). length (rd_rest (it_reader it)))") (auto dest: iter_next_shorter [OF sym])

declare collect_records.simps [simp del] shift_segments.simps [simp del] pop_segments.simps [simp del] survivors_loop.simps [simp del]

text \<open>The local variable \<open>fresh\<close> of \<open>truncate_suffix\<close>: filled and synced, or dropped by an early return.\<close>

definition refill :: "('x) ext_scheme \<Rightarrow> bytes list \<Rightarrow> segment \<Rightarrow> segment io" where
  "refill X survivors fresh w =
     (case andThen (for_each survivors (segment_append X)) (\<lambda>_. segment_sync) (fresh, w) of
        (Inl e, s, w') \<Rightarrow> (Inl e, bw_drop (seg_writer s) w')
      | (Inr _, s, w') \<Rightarrow> (Inr s, w'))"

definition truncate_message :: "u64 \<Rightarrow> u64 \<Rightarrow> string" where
  "truncate_message keep_last first =
     ''cannot truncate to '' @ show_u64 keep_last @ '': below compacted prefix at '' @ show_u64 first"

definition log_truncate_suffix :: "('x) ext_scheme \<Rightarrow> u64 \<Rightarrow> unit log_io" where
  "log_truncate_suffix X keep_last = andThen get_st (\<lambda>(l, _).
     if log_last_index l \<le> keep_last then ret ()
     else if keep_last + 1 < log_first_index l then throw (error_wal (truncate_message keep_last (log_first_index l)))
     else
       andThen (pop_segments keep_last) (\<lambda>_.
       andThen get_st (\<lambda>(l, _).
       if segments l = [] then throw unwrap_none
       else let seg = last (segments l) in
         andThen (outside (segment_iter seg (survivors_loop X keep_last (seg_base_index seg) []))) (\<lambda>survivors.
         andThen (modify (\<lambda>(l, w). (l\<lparr>segments := butlast (segments l)\<rparr>, w))) (\<lambda>_.
         andThen (outside (segment_remove seg)) (\<lambda>_.
         andThen (outside (segment_create (seg_path seg) (seg_base_index seg))) (\<lambda>fresh.
         andThen (outside (refill X survivors fresh)) (\<lambda>fresh.
         modify (\<lambda>(l, w). (l\<lparr>segments := segments l @ [fresh], log_last_index := keep_last\<rparr>, w))))))))))"

definition log_len :: "wal_log \<Rightarrow> u64" where
  "log_len l = (if log_first_index l \<le> log_last_index l then log_last_index l - log_first_index l + 1 else 0)"

definition log_is_empty :: "wal_log \<Rightarrow> bool" where
  "log_is_empty l \<longleftrightarrow> log_len l = 0"

section \<open>The log invariant\<close>

text \<open>
  Segments in order, holding the records \<open>rss\<close> segment by segment, the first of them with index \<open>b\<close>.
\<close>

fun chain :: "('x) ext_scheme \<Rightarrow> world \<Rightarrow> path \<Rightarrow> nat \<Rightarrow> segment list \<Rightarrow> bytes list list \<Rightarrow> bool" where
  "chain X w d b [] [] = True"
| "chain X w d b (s # ss) (rs # rss) = (seg_ok X w s rs \<and> seg_base_index s = of_nat b \<and> seg_path s = segment_path d (of_nat b) \<and>
     chain X w d (b + length rs) ss rss)"
| "chain X w d b _ _ = False"

text \<open>
  The directory holds the segment files and nothing else, and no entry elsewhere, live, durable or
  pending, leads to their contents.
\<close>

definition own_files :: "world \<Rightarrow> path \<Rightarrow> segment list \<Rightarrow> bool" where
  "own_files w d ss \<longleftrightarrow> (\<forall>p. butlast p = d \<and> w_find w p \<noteq> None \<longrightarrow> p \<in> seg_path ` set ss) \<and>
     (\<forall>p i. reach w p i \<and> i \<in> seg_ino ` set ss \<longrightarrow> butlast p = d)"

definition segs_ok :: "('x) ext_scheme \<Rightarrow> world \<Rightarrow> path \<Rightarrow> nat \<Rightarrow> segment list \<Rightarrow> bytes list list \<Rightarrow> bool" where
  "segs_ok X w d b ss rss \<longleftrightarrow> fs_ok w \<and> d \<in> set (w_dirs w) \<and> chain X w d b ss rss \<and> distinct (map seg_ino ss) \<and> own_files w d ss"

definition log_ok :: "('x) ext_scheme \<Rightarrow> world \<Rightarrow> wal_log \<Rightarrow> bytes list list \<Rightarrow> bool" where
  "log_ok X w l rss \<longleftrightarrow> segs_ok X w (log_dir l) (unat (log_first_index l)) (segments l) rss \<and> segments l \<noteq> [] \<and>
     (\<forall>rs\<in>set (butlast rss). rs \<noteq> []) \<and> 0 < log_first_index l \<and>
     log_last_index l + 1 = of_nat (unat (log_first_index l) + length (concat rss)) \<and>
     unat (log_first_index l) + length (concat rss) < u64_bound \<and> length (frames X (concat rss)) < u64_bound"

definition log_synced :: "world \<Rightarrow> wal_log \<Rightarrow> bool" where
  "log_synced w l \<longleftrightarrow> (\<forall>s\<in>set (segments l). seg_synced w s)"

text \<open>The two worlds differ only inside the directory \<open>d\<close>, whose entries have not been made durable meanwhile.\<close>

definition only_in :: "path \<Rightarrow> world \<Rightarrow> world \<Rightarrow> bool" where
  "only_in d w w' \<longleftrightarrow> w_dirs w' = w_dirs w \<and> w_next w \<le> w_next w' \<and> w_disk w' = w_disk w \<and>
     (\<exists>ops. w_pend w' = ops @ w_pend w \<and> (\<forall>op\<in>set ops. \<forall>e\<in>set op. butlast (fst e) = d)) \<and>
     (\<forall>p. butlast p \<noteq> d \<longrightarrow> w_find w' p = w_find w p \<and> (\<forall>i. reach w p i \<longrightarrow> w_inode w' i = w_inode w i))"

lemma only_in_refl [simp]: "only_in d w w"
  by (simp add: only_in_def)

lemma only_in_reach: "only_in d w w' \<Longrightarrow> butlast p \<noteq> d \<Longrightarrow> reach w' p i = reach w p i"
  unfolding only_in_def reach_def by (force simp del: map_of_eq_Some_iff)

lemma only_in_trans:
  assumes "only_in d w w'" and "only_in d w' w''"
  shows "only_in d w w''"
proof -
  obtain ops ops' where "w_pend w' = ops @ w_pend w" "w_pend w'' = ops' @ w_pend w'"
    "\<forall>op\<in>set (ops' @ ops). \<forall>e\<in>set op. butlast (fst e) = d"
    using assms unfolding only_in_def by (metis Un_iff set_append)
  then have "\<exists>ops. w_pend w'' = ops @ w_pend w \<and> (\<forall>op\<in>set ops. \<forall>e\<in>set op. butlast (fst e) = d)"
    by (intro exI [of _ "ops' @ ops"]) simp
  then show ?thesis
    using assms only_in_reach [OF assms(1)] unfolding only_in_def by auto
qed

lemma only_in_events [simp]: "only_in d w (w'\<lparr>w_events := es\<rparr>) = only_in d w w'"
  by (simp add: only_in_def)

lemma only_in_touches:
  "touches i w w' \<Longrightarrow> (\<And>p. reach w p i \<Longrightarrow> butlast p = d) \<Longrightarrow> only_in d w w'"
  unfolding only_in_def touches_def by (clarsimp simp del: map_of_eq_Some_iff) metis

lemma segment_path_simps [simp]:
  "butlast (segment_path d n) = d" "segment_path d n = segment_path d m \<longleftrightarrow> n = m" "segment_path d n \<noteq> []"
  by (simp_all add: segment_path_def)

lemma chain_length: "chain X w d b ss rss \<Longrightarrow> length ss = length rss"
  by (induction X w d b ss rss rule: chain.induct) auto

lemma chain_append:
  "length ss = length rss \<Longrightarrow>
   chain X w d b (ss @ ts) (rss @ tss) \<longleftrightarrow> chain X w d b ss rss \<and> chain X w d (b + length (concat rss)) ts tss"
  by (induction ss rss arbitrary: b rule: list_induct2) (auto simp: add.assoc)

lemma chain_snocE:
  assumes "chain X w d b ss rss" and "ss \<noteq> []"
  obtains ts s tss rs where "ss = ts @ [s]" "rss = tss @ [rs]" "length ts = length tss" "chain X w d b ts tss" "seg_ok X w s rs"
    "seg_base_index s = of_nat (b + length (concat tss))" "seg_path s = segment_path d (of_nat (b + length (concat tss)))"
proof -
  have "rss \<noteq> []" using assms chain_length by fastforce
  with assms obtain ts s tss rs where eq: "ss = ts @ [s]" "rss = tss @ [rs]" by (metis rev_exhaust)
  moreover from this have "length ts = length tss" using chain_length [OF assms(1)] by simp
  ultimately show ?thesis using assms(1) by (intro that [OF eq]) (auto simp: chain_append)
qed

lemma chain_transfer:
  assumes "chain X w d b ss rss"
    and "\<And>s. s \<in> set ss \<Longrightarrow> w_find w' (seg_path s) = w_find w (seg_path s) \<and> w_inode w' (seg_ino s) = w_inode w (seg_ino s)"
  shows "chain X w' d b ss rss"
  using assms by (induction X w d b ss rss rule: chain.induct) (auto intro: seg_ok_transfer)

lemma chain_seg:
  "chain X w d b ss rss \<Longrightarrow> s \<in> set ss \<Longrightarrow>
   \<exists>rs n. rs \<in> set rss \<and> seg_ok X w s rs \<and> seg_base_index s = of_nat n \<and> seg_path s = segment_path d (of_nat n) \<and>
     b \<le> n \<and> n + length rs \<le> b + length (concat rss)"
proof (induction X w d b ss rss rule: chain.induct)
  case (2 X w d b t ss rs rss)
  show ?case
  proof (cases "s = t")
    case True
    with 2 show ?thesis by (intro exI [of _ rs] exI [of _ b]) auto
  next
    case False
    with 2 obtain qs n where "qs \<in> set rss" "seg_ok X w s qs" "seg_base_index s = of_nat n" "seg_path s = segment_path d (of_nat n)"
      "b + length rs \<le> n" "n + length qs \<le> b + length rs + length (concat rss)" by auto
    then show ?thesis by (intro exI [of _ qs] exI [of _ n]) auto
  qed
qed auto

lemma chain_ino: "chain X w d b ss rss \<Longrightarrow> s \<in> set ss \<Longrightarrow> w_find w (seg_path s) = Some (seg_ino s)"
  using chain_seg [of X w d b ss rss s] by (auto simp: seg_ok_def)

lemma chain_path_dir: "chain X w d b ss rss \<Longrightarrow> s \<in> set ss \<Longrightarrow> butlast (seg_path s) = d"
  using chain_seg [of X w d b ss rss s] by auto

text \<open>Replace a segment by an updated one.\<close>

lemma chain_update:
  assumes "chain X w d b (us @ s # ts) rss" and "distinct (map seg_ino (us @ s # ts))" and "touches (seg_ino s) w w'"
    and "length us = length ass" and "rss = ass @ rs # bss" and "seg_ok X w' s' rs'" and "length rs' = length rs \<or> ts = []"
    and "seg_path s' = seg_path s" and "seg_base_index s' = seg_base_index s"
  shows "chain X w' d b (us @ s' # ts) (ass @ rs' # bss)"
proof -
  have move: "chain X w' d c vs css" if "chain X w d c vs css" "set vs \<subseteq> set us \<union> set ts" for c vs css
  proof (rule chain_transfer [OF that(1)])
    fix v assume "v \<in> set vs"
    then have "v \<in> set us \<union> set ts" using that(2) by blast
    then have "seg_ino v \<noteq> seg_ino s" using assms(2) by (auto simp: image_iff)
    then show "w_find w' (seg_path v) = w_find w (seg_path v) \<and> w_inode w' (seg_ino v) = w_inode w (seg_ino v)"
      using assms(3) by (simp add: touches_def)
  qed
  have parts: "chain X w d b us ass" "chain X w d (b + length (concat ass)) (s # ts) (rs # bss)"
    using assms(1,4,5) by (simp_all add: chain_append)
  then have "chain X w' d b us ass" "chain X w' d (b + length (concat ass) + length rs) ts bss"
    using move by auto
  then show ?thesis
    using parts(2) assms(4,6-) by (cases "ts = []"; cases bss) (auto simp: chain_append)
qed

lemma own_filesD: "own_files w d ss \<Longrightarrow> reach w p (seg_ino s) \<Longrightarrow> s \<in> set ss \<Longrightarrow> butlast p = d"
  unfolding own_files_def by blast

lemma own_files_same:
  "own_files w d ss \<Longrightarrow> w_dir w' = w_dir w \<Longrightarrow> w_disk w' = w_disk w \<Longrightarrow> w_pend w' = w_pend w \<Longrightarrow>
   map seg_path ss' = map seg_path ss \<Longrightarrow> map seg_ino ss' = map seg_ino ss \<Longrightarrow> own_files w' d ss'"
  unfolding own_files_def reach_def by (metis list.set_map)

lemma touches_only_in:
  assumes "own_files w d ss" and "s \<in> set ss" and "touches (seg_ino s) w w'"
  shows "only_in d w w'"
  using own_filesD [OF assms(1) _ assms(2)] by (intro only_in_touches [OF assms(3)])

section \<open>Operations on the list of segments\<close>

lemma fs_ok_fresh: "fs_ok w \<Longrightarrow> w_find w p = Some i \<Longrightarrow> i < w_next w"
  unfolding fs_ok_def by blast

lemma segs_ok_ino_less: "segs_ok X w d b ss rss \<Longrightarrow> s \<in> set ss \<Longrightarrow> seg_ino s < w_next w"
  using chain_ino fs_ok_fresh unfolding segs_ok_def by blast

lemma segs_create:
  assumes "segs_ok X w d b ss rss" and "w_clean w" and "w_find w path = None"
    and "path = segment_path d (of_nat (b + length (concat rss)))" and "base = of_nat (b + length (concat rss))"
  shows "\<exists>s w'. segment_create path base w = (Inr s, w') \<and> segs_ok X w' d b (ss @ [s]) (rss @ [[]]) \<and> w_clean w' \<and>
     only_in d w w' \<and> seg_synced w' s \<and> seg_path s = path \<and> (\<forall>t\<in>set ss. w_inode w' (seg_ino t) = w_inode w (seg_ino t))"
proof -
  have ok: "fs_ok w" "d \<in> set (w_dirs w)" "chain X w d b ss rss" "distinct (map seg_ino ss)" "own_files w d ss"
    using assms(1) by (auto simp: segs_ok_def)
  have ino: "seg_ino t < w_next w" if "t \<in> set ss" for t using segs_ok_ino_less [OF assms(1) that] .
  have "butlast path \<in> set (w_dirs w)" using assms(4) ok(2) by simp
  from segment_create_run [OF assms(2,3) this ok(1), of base X] obtain s w' where
    s: "segment_create path base w = (Inr s, w')" "seg_ok X w' s []" "seg_synced w' s" "seg_path s = path" "seg_base_index s = base"
      "seg_ino s = w_next w" "w_next w' = Suc (w_next w)" "w_dirs w' = w_dirs w" "\<forall>q. q \<noteq> path \<longrightarrow> w_find w' q = w_find w q"
      "\<forall>i. i \<noteq> w_next w \<longrightarrow> w_inode w' i = w_inode w i" "w_disk w' = w_disk w" "w_pend w' = [(path, Some (w_next w))] # w_pend w"
      "w_clean w'" "fs_ok w'"
    by blast
  have old: "seg_path t \<noteq> path \<and> seg_ino t \<noteq> w_next w" if "t \<in> set ss" for t
    using chain_ino [OF ok(3) that] assms(3) ino [OF that] by auto
  have "chain X w' d b ss rss" by (rule chain_transfer [OF ok(3)]) (use s old in auto)
  then have chain: "chain X w' d b (ss @ [s]) (rss @ [[]])"
    using s assms(4,5) chain_length [OF ok(3)] by (simp add: chain_append)
  have dist: "distinct (map seg_ino (ss @ [s]))" using ok(4) s(6) ino by fastforce
  have found: "p = path \<and> i = w_next w \<or> p \<noteq> path \<and> w_find w p = Some i \<and> i \<noteq> w_next w" if "w_find w' p = Some i" for p i
    using that s(2,4,6,9) fs_ok_fresh [OF ok(1), of p i] unfolding seg_ok_def by (cases "p = path") force+
  have own: "own_files w' d (ss @ [s])"
    unfolding own_files_def
  proof (intro conjI allI impI)
    fix p assume "butlast p = d \<and> w_find w' p \<noteq> None"
    then show "p \<in> seg_path ` set (ss @ [s])" using found ok(5) s(4) by (force simp: own_files_def)
  next
    fix p i assume i: "reach w' p i \<and> i \<in> seg_ino ` set (ss @ [s])"
    then have "p = path \<and> i = w_next w \<or> reach w p i" using found s(11,12) by (auto simp: reach_def)
    moreover have "i \<noteq> w_next w" if "reach w p i" using fs_ok_reach [OF ok(1) that] by simp
    ultimately show "butlast p = d" using i own_filesD [OF ok(5), of p] assms(4) s(6) by auto
  qed
  have "only_in d w w'"
    using s(7-12) assms(4) fs_ok_reach [OF ok(1)] unfolding only_in_def
    by (auto simp del: map_of_eq_Some_iff) (metis segment_path_simps(1), metis less_irrefl)
  then show ?thesis using s chain dist own ok(2) old by (auto simp: segs_ok_def)
qed

text \<open>Removing a segment: its entry goes, and only its own file may still be written to by the drop of the writer.\<close>

lemma segment_remove_run:
  assumes "w_clean w" and "seg_ok X w s rs" and "fs_ok w"
  shows "\<exists>w'. segment_remove s w = (Inr (), w') \<and> w_clean w' \<and> fs_ok w' \<and> w_dirs w' = w_dirs w \<and> w_next w' = w_next w \<and>
     w_disk w' = w_disk w \<and> w_pend w' = [(seg_path s, None)] # w_pend w \<and> (\<forall>q. w_find w' q = (if q = seg_path s then None else w_find w q)) \<and>
     (\<forall>j. j \<noteq> seg_ino s \<longrightarrow> w_inode w' j = w_inode w j)"
proof -
  define w1 where "w1 = set_entry (seg_path s) None (w\<lparr>w_events := tl (w_events w)\<rparr>)"
  have rm: "remove_file (seg_path s) w = (Inr (), w1)"
    using assms(1,2) by (simp add: remove_file_def syscall_clean seg_ok_def w1_def)
  have w1: "w_clean w1" "fs_ok w1" using assms(1,3) by (auto simp: w1_def intro!: fs_ok_set_entry)
  have "bw_ok (seg_writer s) w1" using assms(2) by (simp add: seg_ok_def bw_ok_def w1_def)
  from wp_bw_flush [OF w1(1) this] obtain b' w' where "bw_flush (seg_writer s, w1) = (Inr (), b', w')" "bw_step (seg_writer s) w1 [] b' w'"
    by (auto simp: wp_total)
  then show ?thesis
    using w1(2) by (auto simp: segment_remove_def rm bw_drop_def bw_step_def touches_def w1_def)
qed

lemma segs_remove:
  assumes "segs_ok X w d b (ss @ s # ts) rss" and "w_clean w"
  shows "\<exists>w'. segment_remove s w = (Inr (), w') \<and> w_clean w' \<and> fs_ok w' \<and> d \<in> set (w_dirs w') \<and> distinct (map seg_ino (ss @ ts)) \<and>
     own_files w' d (ss @ ts) \<and> only_in d w w' \<and> w_find w' (seg_path s) = None \<and>
     (\<forall>t\<in>set (ss @ ts). w_find w' (seg_path t) = w_find w (seg_path t) \<and> w_inode w' (seg_ino t) = w_inode w (seg_ino t))"
proof -
  have ok: "fs_ok w" "d \<in> set (w_dirs w)" "chain X w d b (ss @ s # ts) rss" "distinct (map seg_ino (ss @ s # ts))" "own_files w d (ss @ s # ts)"
    using assms(1) by (auto simp: segs_ok_def)
  obtain rs where sok: "seg_ok X w s rs" using chain_seg [OF ok(3), of s] by auto
  obtain w' where w': "segment_remove s w = (Inr (), w')" "w_clean w'" "fs_ok w'" "w_dirs w' = w_dirs w" "w_next w' = w_next w"
     "w_disk w' = w_disk w" "w_pend w' = [(seg_path s, None)] # w_pend w" "\<forall>q. w_find w' q = (if q = seg_path s then None else w_find w q)"
     "\<forall>j. j \<noteq> seg_ino s \<longrightarrow> w_inode w' j = w_inode w j"
    using segment_remove_run [OF assms(2) sok ok(1)] by blast
  have dir: "butlast (seg_path s) = d" using chain_path_dir [OF ok(3)] by simp
  have others: "seg_path t \<noteq> seg_path s \<and> seg_ino t \<noteq> seg_ino s" if "t \<in> set (ss @ ts)" for t
  proof -
    have "seg_ino t \<noteq> seg_ino s" using ok(4) that by auto (metis image_eqI)+
    moreover have "w_find w (seg_path t) = Some (seg_ino t)" "w_find w (seg_path s) = Some (seg_ino s)"
      using chain_ino [OF ok(3)] that by auto
    ultimately show ?thesis by auto
  qed
  have own: "own_files w' d (ss @ ts)"
    unfolding own_files_def
  proof (intro conjI allI impI)
    fix p assume "butlast p = d \<and> w_find w' p \<noteq> None"
    then have "p \<noteq> seg_path s" "butlast p = d" "w_find w p \<noteq> None" using w'(8) by (auto split: if_splits)
    then show "p \<in> seg_path ` set (ss @ ts)" using ok(5) by (force simp: own_files_def)
  next
    fix p i assume "reach w' p i \<and> i \<in> seg_ino ` set (ss @ ts)"
    moreover from this have "reach w p i" using w'(6,7,8) by (auto simp: reach_def split: if_splits)
    ultimately show "butlast p = d" using own_filesD [OF ok(5), of p] by auto
  qed
  have "i \<noteq> seg_ino s" if "reach w p i" "butlast p \<noteq> d" for p i
    using that own_filesD [OF ok(5), of p s] by auto
  then have "only_in d w w'" using w' dir by (auto simp: only_in_def)
  then show ?thesis using w' ok(2,4) own others by auto
qed

section \<open>Appending and syncing\<close>

lemma log_rotate_run:
  assumes "log_ok X w l rss" and "w_clean w"
  shows "\<exists>l' w' rss'. log_rotate (l, w) = (Inr (), l', w') \<and> log_ok X w' l' rss' \<and> concat rss' = concat rss \<and> w_clean w' \<and>
     only_in (log_dir l) w w' \<and> l' = l\<lparr>segments := segments l'\<rparr>"
proof (cases "max_segment_bytes l \<le> seg_bytes (last (segments l)) \<and> 0 < seg_count (last (segments l))")
  case False
  then show ?thesis using assms by (auto simp: log_rotate_def andThen_def get_st_def ret_def log_ok_def)
next
  case True
  define b where "b = unat (log_first_index l)"
  define n where "n = b + length (concat rss)"
  have ok: "segs_ok X w (log_dir l) b (segments l) rss" "segments l \<noteq> []" "\<forall>rs\<in>set (butlast rss). rs \<noteq> []"
    "log_last_index l + 1 = of_nat n" "n < u64_bound"
    using assms(1) by (auto simp: log_ok_def b_def n_def)
  then have ch: "chain X w (log_dir l) b (segments l) rss" and own: "own_files w (log_dir l) (segments l)" by (auto simp: segs_ok_def)
  obtain ss s tss rs where snoc: "segments l = ss @ [s]" "rss = tss @ [rs]" "seg_ok X w s rs"
    using chain_snocE [OF ch ok(2)] by metis
  have "rs \<noteq> []" using True snoc by (auto simp: seg_ok_def)
  then have all: "\<forall>rs\<in>set rss. rs \<noteq> []" using ok(3) snoc(2) by auto
  have "w_find w (segment_path (log_dir l) (of_nat n)) = None"
  proof (rule ccontr)
    assume "\<not> ?thesis"
    then obtain i where i: "w_find w (segment_path (log_dir l) (of_nat n)) = Some i" by blast
    have "segment_path (log_dir l) (of_nat n) \<in> seg_path ` set (segments l)"
      using own i unfolding own_files_def by (metis option.distinct(1) segment_path_simps(1))
    then obtain t where t: "t \<in> set (segments l)" "segment_path (log_dir l) (of_nat n) = seg_path t"
      by blast
    from chain_seg [OF ch t(1)] obtain qs m where "qs \<in> set rss" "seg_path t = segment_path (log_dir l) (of_nat m)" "m + length qs \<le> n"
      by (auto simp: n_def)
    moreover from this have "m < n" using all by (metis add_leD1 le_neq_implies_less length_0_conv add_cancel_left_right le_add1 order.antisym)
    ultimately show False using t(2) ok(5) u64_eq_of_nat [of m n] by auto
  qed
  from segs_create [OF ok(1) assms(2) this, of "of_nat n"] obtain t w' where
    t: "segment_create (segment_path (log_dir l) (of_nat n)) (of_nat n) w = (Inr t, w')"
      "segs_ok X w' (log_dir l) b (segments l @ [t]) (rss @ [[]])" "w_clean w'" "only_in (log_dir l) w w'"
    by (auto simp: n_def)
  let ?l = "l\<lparr>segments := segments l @ [t]\<rparr>"
  have "log_rotate (l, w) = (Inr (), ?l, w')"
    using True ok(2,4) t(1) by (simp add: log_rotate_def andThen_def get_st_def outside_def modify_def Let_def)
  moreover have "log_ok X w' ?l (rss @ [[]])"
    using assms(1) t(2) all by (simp add: log_ok_def b_def)
  ultimately show ?thesis using t(3,4) by (intro exI [of _ ?l] exI [of _ w'] exI [of _ "rss @ [[]]"]) simp
qed

text \<open>An update of one segment through its own file.\<close>

lemma segs_update:
  assumes "segs_ok X w d b (us @ s # ts) rss" and "touches (seg_ino s) w w'" and "fs_ok w'"
    and "length us = length ass" and "rss = ass @ rs # bss" and "seg_ok X w' s' rs'" and "length rs' = length rs \<or> ts = []"
    and "seg_path s' = seg_path s" "seg_base_index s' = seg_base_index s" "seg_ino s' = seg_ino s"
  shows "segs_ok X w' d b (us @ s' # ts) (ass @ rs' # bss) \<and> only_in d w w'"
proof -
  have ok: "own_files w d (us @ s # ts)" "chain X w d b (us @ s # ts) rss" "distinct (map seg_ino (us @ s # ts))"
    using assms(1) by (auto simp: segs_ok_def)
  moreover have "only_in d w w'" using touches_only_in [OF ok(1) _ assms(2)] by simp
  moreover have "own_files w' d (us @ s' # ts)"
    by (rule own_files_same [OF ok(1)]) (use assms in \<open>auto simp: touches_def\<close>)
  moreover have "chain X w' d b (us @ s' # ts) (ass @ rs' # bss)"
    using chain_update [OF ok(2,3) assms(2,4-9)] .
  ultimately show ?thesis using assms(1-3,10) by (auto simp: segs_ok_def touches_def)
qed

lemma log_append_run:
  assumes "log_ok X w l rss" and "w_clean w" and "length p \<le> max_payload"
    and "unat (log_first_index l) + length (concat rss) + 1 < u64_bound"
    and "length (frames X (concat rss)) + length (frame X p) < u64_bound"
  shows "\<exists>l' w' rss'. log_append X p (l, w) = (Inr (of_nat (unat (log_first_index l) + length (concat rss))), l', w') \<and>
     log_ok X w' l' rss' \<and> concat rss' = concat rss @ [p] \<and> w_clean w' \<and> only_in (log_dir l) w w' \<and>
     log_first_index l' = log_first_index l \<and> log_dir l' = log_dir l \<and> max_segment_bytes l' = max_segment_bytes l"
proof -
  from log_rotate_run [OF assms(1,2)] obtain l1 w1 rss1 where
    1: "log_rotate (l, w) = (Inr (), l1, w1)" "log_ok X w1 l1 rss1" "concat rss1 = concat rss" "w_clean w1"
      "only_in (log_dir l) w w1" "l1 = l\<lparr>segments := segments l1\<rparr>"
    by blast
  have same: "log_dir l1 = log_dir l" "log_first_index l1 = log_first_index l" "log_last_index l1 = log_last_index l"
    "max_segment_bytes l1 = max_segment_bytes l"
    by (subst 1(6), simp)+
  define b where "b = unat (log_first_index l)"
  have ok: "segs_ok X w1 (log_dir l) b (segments l1) rss1" "segments l1 \<noteq> []" "\<forall>rs\<in>set (butlast rss1). rs \<noteq> []"
    "0 < log_first_index l" "log_last_index l + 1 = of_nat (b + length (concat rss))"
    using 1(2,3) same by (auto simp: log_ok_def b_def)
  then have "chain X w1 (log_dir l) b (segments l1) rss1" by (auto simp: segs_ok_def)
  then obtain ss s tss rs where snoc: "segments l1 = ss @ [s]" "rss1 = tss @ [rs]" "seg_ok X w1 s rs" "length ss = length tss"
    using chain_snocE [OF _ ok(2)] by metis
  from segment_append_run [OF 1(4) snoc(3) assms(3)] obtain s' w' where
    s': "segment_append X p (s, w1) = (Inr (), s', w')" "seg_ok X w' s' (rs @ [p])" "seg_path s' = seg_path s"
      "seg_base_index s' = seg_base_index s" "bw_step (seg_writer s) w1 (frame X p) (seg_writer s') w'"
    by blast
  have step: "touches (seg_ino s) w1 w'" "fs_ok w'" "w_clean w'" "seg_ino s' = seg_ino s"
    using s'(5) ok(1) by (auto simp: bw_step_def segs_ok_def)
  from segs_update [OF _ step(1,2) snoc(4,2) s'(2) _ s'(3,4) step(4)] ok(1) snoc(1)
  have segs: "segs_ok X w' (log_dir l) b (ss @ [s']) (tss @ [rs @ [p]])" and oi: "only_in (log_dir l) w1 w'"
    by auto
  let ?l = "l1\<lparr>segments := ss @ [s'], log_last_index := log_last_index l + 1\<rparr>"
  have "log_append X p (l, w) = (Inr (log_last_index l + 1), ?l, w')"
    using 1(1) snoc(1) s'(1) same by (simp add: log_append_def andThen_def on_last_def modify_def get_st_def ret_def)
  moreover have cc: "concat (tss @ [rs @ [p]]) = concat rss @ [p]" using 1(3) snoc(2) by simp
  then have "log_ok X w' ?l (tss @ [rs @ [p]])"
    using segs ok snoc(2) same assms(4,5) unfolding log_ok_def cc by (simp add: b_def)
  ultimately show ?thesis
    using cc step(3) only_in_trans [OF 1(5) oi] same ok(5) unfolding b_def
    by (intro exI [of _ ?l] exI [of _ w'] exI [of _ "tss @ [rs @ [p]]"]) simp
qed

lemma sync_segments_run:
  assumes "segs_ok X w d b (us @ ss) rss" and "w_clean w" and "\<forall>u\<in>set us. seg_synced w u"
  shows "\<exists>ss' w'. sync_segments ss w = (Inr (), ss', w') \<and> segs_ok X w' d b (us @ ss') rss \<and> w_clean w' \<and> only_in d w w' \<and>
     (\<forall>s\<in>set (us @ ss'). seg_synced w' s) \<and> map seg_path ss' = map seg_path ss \<and>
     w_dir w' = w_dir w \<and> w_disk w' = w_disk w \<and> w_pend w' = w_pend w"
  using assms
proof (induction ss arbitrary: us w)
  case Nil
  then show ?case by simp
next
  case (Cons s ss)
  have "length (us @ s # ss) = length rss" using Cons.prems(1) unfolding segs_ok_def by (blast dest: chain_length)
  then have "length us < length rss" by simp
  then obtain ass rs bss where rss: "rss = ass @ rs # bss" "length us = length ass"
    by (metis id_take_nth_drop length_take less_imp_le_nat min.absorb2)
  have "seg_ok X w s rs" using Cons.prems(1) rss by (simp add: segs_ok_def chain_append)
  from segment_sync_run [OF Cons.prems(2) this] obtain s1 w1 where
    s1: "segment_sync (s, w) = (Inr (), s1, w1)" "seg_ok X w1 s1 rs" "seg_synced w1 s1" "seg_path s1 = seg_path s" "seg_ino s1 = seg_ino s"
      "seg_base_index s1 = seg_base_index s" "touches (seg_ino s) w w1" "w_clean w1" "fs_ok w1"
    using Cons.prems(1) by (auto simp: segs_ok_def)
  from segs_update [OF Cons.prems(1) s1(7,9) rss(2,1) s1(2) _ s1(4,6,5)]
  have segs: "segs_ok X w1 d b (us @ s1 # ss) rss" and oi: "only_in d w w1" using rss(1) by auto
  have "distinct (map seg_ino (us @ s # ss))" using Cons.prems(1) by (simp add: segs_ok_def)
  then have "\<forall>u\<in>set us. seg_ino u \<noteq> seg_ino s" by (auto simp: image_iff)
  then have "\<forall>u\<in>set (us @ [s1]). seg_synced w1 u"
    using Cons.prems(3) s1(3,7) by (auto simp: touches_def intro: seg_synced_transfer)
  with Cons.IH [of w1 "us @ [s1]"] segs s1(8) obtain ss' w' where
    "sync_segments ss w1 = (Inr (), ss', w')" "segs_ok X w' d b (us @ s1 # ss') rss" "w_clean w'" "only_in d w1 w'"
    "\<forall>s\<in>set (us @ s1 # ss'). seg_synced w' s" "map seg_path ss' = map seg_path ss"
    "w_dir w' = w_dir w1" "w_disk w' = w_disk w1" "w_pend w' = w_pend w1"
    by auto
  then show ?case
    using s1(1,4,7) only_in_trans [OF oi] by (intro exI [of _ "s1 # ss'"] exI [of _ w']) (auto simp: touches_def)
qed

lemma log_sync_run:
  assumes "log_ok X w l rss" and "w_clean w"
  shows "\<exists>l' w'. log_sync (l, w) = (Inr (), l', w') \<and> log_ok X w' l' rss \<and> log_synced w' l' \<and> w_clean w' \<and> only_in (log_dir l) w w' \<and>
     l' = l\<lparr>segments := segments l'\<rparr> \<and> map seg_path (segments l') = map seg_path (segments l) \<and>
     w_dir w' = w_dir w \<and> w_disk w' = w_disk w \<and> w_pend w' = w_pend w"
proof -
  have "segs_ok X w (log_dir l) (unat (log_first_index l)) ([] @ segments l) rss" using assms(1) by (simp add: log_ok_def)
  from sync_segments_run [OF this assms(2)] obtain ss w' where
    ss: "sync_segments (segments l) w = (Inr (), ss, w')" "segs_ok X w' (log_dir l) (unat (log_first_index l)) ss rss" "w_clean w'"
      "only_in (log_dir l) w w'" "\<forall>s\<in>set ss. seg_synced w' s" "map seg_path ss = map seg_path (segments l)"
      "w_dir w' = w_dir w" "w_disk w' = w_disk w" "w_pend w' = w_pend w"
    by auto
  moreover have "ss \<noteq> []" using ss(6) assms(1) by (auto simp: log_ok_def)
  ultimately show ?thesis
    using assms(1) by (intro exI [of _ "l\<lparr>segments := ss\<rparr>"] exI [of _ w']) (simp add: log_sync_def log_ok_def log_synced_def)
qed

section \<open>Reading everything\<close>

text \<open>Records numbered consecutively.\<close>

primrec numbered :: "nat \<Rightarrow> bytes list \<Rightarrow> (u64 \<times> bytes) list" where
  "numbered b [] = []"
| "numbered b (p # ps) = (of_nat b, p) # numbered (Suc b) ps"

lemma numbered_append [simp]: "numbered b (ps @ qs) = numbered b ps @ numbered (b + length ps) qs"
  by (induction ps arbitrary: b) auto

lemma collect_records_run:
  "clean (rd_events (it_reader it)) \<Longrightarrow> \<not> it_done it \<Longrightarrow> rd_rest (it_reader it) = frames X ps \<Longrightarrow> small ps \<Longrightarrow>
   \<exists>it'. collect_records X (of_nat b) out it = (Inr (out @ numbered b ps), it') \<and> clean (rd_events (it_reader it'))"
proof (induction ps arbitrary: b out it)
  case Nil
  from iter_next_Nil [OF Nil(1), of X] Nil show ?case by (auto simp: collect_records.simps [of X _ out it])
next
  case (Cons p ps)
  then obtain it1 where it1: "iter_next X it = (Some (Inr p), it1)" "rd_rest (it_reader it1) = frames X ps"
    "clean (rd_events (it_reader it1))" "\<not> it_done it1"
    using iter_next_Cons [of it X p "frames X ps"] by auto
  have "(of_nat b :: u64) + 1 = of_nat (Suc b)" by simp
  then show ?case
    using Cons.IH [OF it1(3,4,2), of "Suc b" "out @ [(of_nat b, p)]"] Cons.prems(4) it1(1)
    by (simp add: collect_records.simps [of X _ out it] add.commute)
qed

text \<open>A loop over a flushed segment that runs to a result.\<close>

lemma segment_iter_run:
  assumes "seg_ok X w s rs" and "bw_buf (seg_writer s) = []" and "w_clean w"
    and "\<And>it. clean (rd_events (it_reader it)) \<Longrightarrow> \<not> it_done it \<Longrightarrow> rd_rest (it_reader it) = frames X rs \<Longrightarrow>
       \<exists>it'. body it = (Inr x, it') \<and> clean (rd_events (it_reader it'))"
  shows "\<exists>es. segment_iter s body w = (Inr x, w\<lparr>w_events := es\<rparr>) \<and> clean es"
proof -
  define w1 where "w1 = w\<lparr>w_events := tl (w_events w)\<rparr>"
  have op: "open_existing (seg_path s) w = (Inr (seg_ino s), w1)"
    using assms(1,3) by (simp add: open_existing_def syscall_clean seg_ok_def w1_def)
  have "i_data (w_inode w1 (seg_ino s)) = frames X rs"
    using seg_ok_synced_data [OF assms(1,2)] by (simp add: w1_def)
  with assms(4) [of "\<lparr>it_reader = reader_of w1 (seg_ino s), it_done = False\<rparr>"] assms(3)
  obtain it' where "body \<lparr>it_reader = reader_of w1 (seg_ino s), it_done = False\<rparr> = (Inr x, it')" "clean (rd_events (it_reader it'))"
    by (auto simp: w1_def)
  then show ?thesis by (auto simp: segment_iter_def andThen_def op with_reader_def w1_def)
qed

lemma chain_events [simp]: "chain X (w\<lparr>w_events := es\<rparr>) d b ss rss = chain X w d b ss rss"
  by (induction X w d b ss rss rule: chain.induct) (auto simp: seg_ok_def bw_ok_def bw_content_def)

lemma read_segments_run:
  "chain X w d b ss rss \<Longrightarrow> \<forall>s\<in>set ss. bw_buf (seg_writer s) = [] \<Longrightarrow> w_clean w \<Longrightarrow>
   \<exists>es. read_segments X ss out w = (Inr (out @ numbered b (concat rss)), w\<lparr>w_events := es\<rparr>) \<and> clean es"
proof (induction ss arbitrary: w b rss out)
  case Nil
  then have "rss = []" using chain_length by fastforce
  then show ?case using Nil by (auto simp: ret_def intro: exI [of _ "w_events w"])
next
  case (Cons s ss)
  then obtain rs rss' where rss: "rss = rs # rss'" by (cases rss) auto
  then have s: "seg_ok X w s rs" "seg_base_index s = of_nat b" "chain X w d (b + length rs) ss rss'" "small rs"
    using Cons.prems(1) by (auto simp: seg_ok_def)
  obtain es where es: "segment_iter s (collect_records X (of_nat b) out) w = (Inr (out @ numbered b rs), w\<lparr>w_events := es\<rparr>)" "clean es"
    using segment_iter_run [OF s(1) _ Cons.prems(3), of "collect_records X (of_nat b) out"] collect_records_run [of _ X rs] Cons.prems(2) s(4)
    by (metis list.set_intros(1))
  from Cons.IH [of "w\<lparr>w_events := es\<rparr>" "b + length rs" rss' "out @ numbered b rs"] Cons.prems(2) s(3) es
  show ?case by (auto simp: rss s(2) andThen_def)
qed

lemma log_read_all_run:
  assumes "log_ok X w l rss" and "log_synced w l" and "w_clean w"
  shows "\<exists>es. log_read_all X l w = (Inr (numbered (unat (log_first_index l)) (concat rss)), w\<lparr>w_events := es\<rparr>) \<and> clean es"
  using read_segments_run [of X w "log_dir l" "unat (log_first_index l)" "segments l" rss "[]"] assms
  by (auto simp: log_read_all_def log_ok_def segs_ok_def log_synced_def seg_synced_def)

section \<open>Truncation at the front\<close>

lemma segs_remove_first:
  assumes "segs_ok X w d b (s # ss) (rs # rss)" and "w_clean w"
  shows "\<exists>w'. segment_remove s w = (Inr (), w') \<and> w_clean w' \<and> segs_ok X w' d (b + length rs) ss rss \<and> only_in d w w' \<and>
     (\<forall>t\<in>set ss. w_inode w' (seg_ino t) = w_inode w (seg_ino t))"
proof -
  from assms(1) have "chain X w d (b + length rs) ss rss" by (simp add: segs_ok_def)
  moreover obtain w' where "segment_remove s w = (Inr (), w')" "w_clean w'" "fs_ok w'" "d \<in> set (w_dirs w')" "distinct (map seg_ino ss)"
     "own_files w' d ss" "only_in d w w'"
     "\<forall>t\<in>set ss. w_find w' (seg_path t) = w_find w (seg_path t) \<and> w_inode w' (seg_ino t) = w_inode w (seg_ino t)"
    using segs_remove [of X w d b "[]" s ss "rs # rss"] assms by auto
  ultimately show ?thesis by (auto simp: segs_ok_def intro: chain_transfer)
qed

lemma segs_remove_last:
  assumes "segs_ok X w d b (ss @ [s]) (rss @ [rs])" and "w_clean w"
  shows "\<exists>w'. segment_remove s w = (Inr (), w') \<and> w_clean w' \<and> segs_ok X w' d b ss rss \<and> only_in d w w' \<and> w_find w' (seg_path s) = None \<and>
     (\<forall>t\<in>set ss. w_inode w' (seg_ino t) = w_inode w (seg_ino t))"
proof -
  have ch: "chain X w d b (ss @ [s]) (rss @ [rs])" using assms(1) by (simp add: segs_ok_def)
  then have "chain X w d b ss rss" using chain_length [OF ch] by (simp add: chain_append)
  moreover obtain w' where "segment_remove s w = (Inr (), w')" "w_clean w'" "fs_ok w'" "d \<in> set (w_dirs w')" "distinct (map seg_ino ss)"
     "own_files w' d ss" "only_in d w w'" "w_find w' (seg_path s) = None"
     "\<forall>t\<in>set ss. w_find w' (seg_path t) = w_find w (seg_path t) \<and> w_inode w' (seg_ino t) = w_inode w (seg_ino t)"
    using segs_remove [of X w d b ss s "[]" "rss @ [rs]"] assms by auto
  ultimately show ?thesis by (auto simp: segs_ok_def intro: chain_transfer)
qed

text \<open>The index of the last record of a non-empty segment, as the code computes it.\<close>

lemma seg_last_of_nat:
  assumes "0 < n" and "n < u64_bound"
  shows "(of_nat b :: u64) + max (of_nat n) 1 - 1 = of_nat (b + n - 1)"
proof -
  have "(1 :: u64) = of_nat 1" by simp
  then have "(1 :: u64) \<le> of_nat n" using assms u64_le_of_nat [of 1 n] by simp
  then have "max (of_nat n) (1 :: u64) = of_nat n" by simp
  then have "(of_nat b :: u64) + max (of_nat n) 1 - 1 = of_nat (b + n) - of_nat 1" by simp
  also have "\<dots> = of_nat (b + n - 1)" using assms(1) by (subst u64_of_nat_diff) simp_all
  finally show ?thesis .
qed

lemma shift_segments_run:
  "segs_ok X w d b ss rss \<Longrightarrow> segments l = ss \<Longrightarrow> ss \<noteq> [] \<Longrightarrow> \<forall>rs\<in>set (butlast rss). rs \<noteq> [] \<Longrightarrow>
   b + length (concat rss) < u64_bound \<Longrightarrow> w_clean w \<Longrightarrow>
   \<exists>w' us ts ass bss. shift_segments up (l, w) = (Inr (), l\<lparr>segments := ts\<rparr>, w') \<and> ss = us @ ts \<and> rss = ass @ bss \<and> length us = length ass \<and>
     ts \<noteq> [] \<and> segs_ok X w' d (b + length (concat ass)) ts bss \<and> w_clean w' \<and> only_in d w w' \<and>
     (us \<noteq> [] \<longrightarrow> b + length (concat ass) \<le> unat up) \<and>
     (1 < length ts \<longrightarrow> unat up < b + length (concat ass) + length (hd bss)) \<and>
     (\<forall>t\<in>set ts. w_inode w' (seg_ino t) = w_inode w (seg_ino t))"
proof (induction ss arbitrary: l w b rss)
  case Nil
  then show ?case by simp
next
  case (Cons s ss)
  then have ch: "chain X w d b (s # ss) rss" by (simp add: segs_ok_def)
  then obtain rs rss' where rss: "rss = rs # rss'" by (cases rss) auto
  have len: "length ss = length rss'" using chain_length [OF ch] rss by simp
  show ?case
  proof (cases ss)
    case Nil
    then show ?thesis using Cons.prems rss
      by (intro exI [of _ w] exI [of _ "[]"] exI [of _ "[s]"] exI [of _ "[]"] exI [of _ rss]) (simp add: shift_segments.simps)
  next
    case (Cons t ts)
    then have "rss' \<noteq> []" using len by auto
    then have ne: "rs \<noteq> []" and ne': "\<forall>rs\<in>set (butlast rss'). rs \<noteq> []" using Cons.prems(4) rss by auto
    have n: "b + length rs < u64_bound" using Cons.prems(5) rss by simp
    have "seg_base_index s = of_nat b" "seg_count s = of_nat (length rs)" using ch rss by (auto simp: seg_ok_def)
    then have lst: "seg_base_index s + max (seg_count s) 1 - 1 = of_nat (b + length rs - 1)"
      using seg_last_of_nat [of "length rs" b] ne n by simp
    have cmp: "seg_base_index s + max (seg_count s) 1 - 1 < up \<longleftrightarrow> b + length rs \<le> unat up"
      unfolding lst using n ne by (simp add: word_less_nat_alt u64_unat_of_nat) (cases rs; auto)
    show ?thesis
    proof (cases "b + length rs \<le> unat up")
      case False
      then show ?thesis using Cons.prems rss cmp Cons
        by (intro exI [of _ w] exI [of _ "[]"] exI [of _ "s # ss"] exI [of _ "[]"] exI [of _ rss]) (simp add: shift_segments.simps)
    next
      case True
      from segs_remove_first [of X w d b s ss rs rss'] Cons.prems(1,6) rss obtain w1 where
        w1: "segment_remove s w = (Inr (), w1)" "w_clean w1" "segs_ok X w1 d (b + length rs) ss rss'" "only_in d w w1"
          "\<forall>t\<in>set ss. w_inode w1 (seg_ino t) = w_inode w (seg_ino t)" by auto
      have pre: "segments (l\<lparr>segments := ss\<rparr>) = ss" "ss \<noteq> []" "b + length rs + length (concat rss') < u64_bound"
        using Cons.prems(5) Cons rss by simp_all
      from Cons.IH [OF w1(3) pre(1,2) ne' pre(3) w1(2)] obtain w' us vs ass bss where
        r: "shift_segments up (l\<lparr>segments := ss\<rparr>, w1) = (Inr (), l\<lparr>segments := ss\<rparr>\<lparr>segments := vs\<rparr>, w')" "ss = us @ vs" "rss' = ass @ bss"
          "length us = length ass" "vs \<noteq> []" "segs_ok X w' d (b + length rs + length (concat ass)) vs bss" "w_clean w'" "only_in d w1 w'"
          "us \<noteq> [] \<longrightarrow> b + length rs + length (concat ass) \<le> unat up"
          "1 < length vs \<longrightarrow> unat up < b + length rs + length (concat ass) + length (hd bss)"
          "\<forall>t\<in>set vs. w_inode w' (seg_ino t) = w_inode w1 (seg_ino t)"
        by blast
      have "shift_segments up (l, w) = (Inr (), l\<lparr>segments := vs\<rparr>, w')"
        using r(1) True cmp w1(1) Cons.prems(2) Cons by (subst shift_segments.simps) simp
      then show ?thesis
        using r(2-) w1(5) only_in_trans [OF w1(4) r(8)] True rss
        by (intro exI [of _ w'] exI [of _ "s # us"] exI [of _ vs] exI [of _ "rs # ass"] exI [of _ bss]) (auto simp: add.assoc)
    qed
  qed
qed

lemma log_truncate_prefix_run:
  assumes "log_ok X w l rss" and "w_clean w"
  shows "\<exists>l' w' ass bss. log_truncate_prefix up (l, w) = (Inr (), l', w') \<and> log_ok X w' l' bss \<and> rss = ass @ bss \<and> w_clean w' \<and>
     only_in (log_dir l) w w' \<and> (log_synced w l \<longrightarrow> log_synced w' l') \<and> log_dir l' = log_dir l \<and> log_last_index l' = log_last_index l \<and>
     max_segment_bytes l' = max_segment_bytes l \<and> unat (log_first_index l') = unat (log_first_index l) + length (concat ass) \<and>
     (ass \<noteq> [] \<longrightarrow> log_first_index l' \<le> up) \<and> (1 < length bss \<longrightarrow> unat up < unat (log_first_index l') + length (hd bss))"
proof -
  define b where "b = unat (log_first_index l)"
  have ok: "segs_ok X w (log_dir l) b (segments l) rss" "segments l \<noteq> []" "\<forall>rs\<in>set (butlast rss). rs \<noteq> []"
    "b + length (concat rss) < u64_bound" using assms(1) by (auto simp: log_ok_def b_def)
  from shift_segments_run [OF ok(1) refl ok(2-4) assms(2), of up] obtain w' us ts ass bss where
    r: "shift_segments up (l, w) = (Inr (), l\<lparr>segments := ts\<rparr>, w')" "segments l = us @ ts" "rss = ass @ bss" "length us = length ass"
     "ts \<noteq> []" "segs_ok X w' (log_dir l) (b + length (concat ass)) ts bss" "w_clean w'" "only_in (log_dir l) w w'"
     "us \<noteq> [] \<longrightarrow> b + length (concat ass) \<le> unat up" "1 < length ts \<longrightarrow> unat up < b + length (concat ass) + length (hd bss)"
     "\<forall>t\<in>set ts. w_inode w' (seg_ino t) = w_inode w (seg_ino t)"
    by blast
  have ch: "chain X w' (log_dir l) (b + length (concat ass)) ts bss" using r(6) by (simp add: segs_ok_def)
  have len: "length ts = length bss" using chain_length [OF ch] .
  have bss: "bss \<noteq> []" using len r(5) by auto
  have base: "seg_base_index (hd ts) = of_nat (b + length (concat ass))" using ch r(5) bss by (cases ts; cases bss) auto
  have un: "unat (of_nat (b + length (concat ass)) :: u64) = b + length (concat ass)"
    using ok(4) r(3) by (intro u64_unat_of_nat) simp
  have b0: "0 < b" using assms(1) by (simp add: log_ok_def b_def word_greater_zero_iff unat_gt_0)
  let ?l = "l\<lparr>segments := ts, log_first_index := of_nat (b + length (concat ass))\<rparr>"
  have "log_truncate_prefix up (l, w) = (Inr (), ?l, w')"
    using r(1,5) base by (simp add: log_truncate_prefix_def andThen_def)
  moreover have "log_ok X w' ?l bss"
  proof -
    have "\<forall>rs\<in>set (butlast bss). rs \<noteq> []" using ok(3) r(3) bss by (auto simp: butlast_append)
    moreover have "(0 :: u64) < of_nat (b + length (concat ass))"
      using un b0 by (metis add_gr_0 unat_gt_0 word_greater_zero_iff)
    ultimately show ?thesis
      using assms(1) r(3,5,6) un unfolding log_ok_def b_def by (simp add: add.assoc)
  qed
  moreover have "log_synced w l \<longrightarrow> log_synced w' ?l"
    using r(2,11) by (auto simp: log_synced_def intro: seg_synced_transfer)
  moreover have "ass \<noteq> [] \<longrightarrow> of_nat (b + length (concat ass)) \<le> up"
    using r(4,9) un by (auto simp: word_le_nat_alt)
  ultimately show ?thesis
    using r(3,7,8,10) un len
    by - (rule exI [of _ ?l], rule exI [of _ w'], rule exI [of _ ass], rule exI [of _ bss], simp add: b_def del: of_nat_add)
qed

section \<open>Truncation at the end\<close>

lemma pop_segments_run:
  "segs_ok X w d b ss rss \<Longrightarrow> segments l = ss \<Longrightarrow> ss \<noteq> [] \<Longrightarrow> b + length (concat rss) < u64_bound \<Longrightarrow> w_clean w \<Longrightarrow>
   \<exists>w' us s vs ass rs bss. pop_segments keep (l, w) = (Inr (), l\<lparr>segments := us @ [s]\<rparr>, w') \<and> ss = us @ s # vs \<and> rss = ass @ rs # bss \<and>
     length us = length ass \<and> segs_ok X w' d b (us @ [s]) (ass @ [rs]) \<and> w_clean w' \<and> only_in d w w' \<and>
     (us \<noteq> [] \<longrightarrow> b + length (concat ass) \<le> unat keep) \<and> (vs \<noteq> [] \<longrightarrow> unat keep < b + length (concat ass) + length rs) \<and>
     (\<forall>t\<in>set (us @ [s]). w_inode w' (seg_ino t) = w_inode w (seg_ino t))"
proof (induction ss arbitrary: l w rss rule: rev_induct)
  case Nil
  then show ?case by simp
next
  case (snoc s ss)
  then have ch: "chain X w d b (ss @ [s]) rss" by (simp add: segs_ok_def)
  from chain_snocE [OF ch] obtain ass rs where rss: "rss = ass @ [rs]" "length ss = length ass"
    "seg_base_index s = of_nat (b + length (concat ass))" by (metis append1_eq_conv append_is_Nil_conv list.distinct(1))
  have "unat (seg_base_index s) = b + length (concat ass)"
    unfolding rss(3) using snoc.prems(4) rss(1) by (intro u64_unat_of_nat) simp
  then have cmp: "keep < seg_base_index s \<longleftrightarrow> unat keep < b + length (concat ass)" by (simp add: word_less_nat_alt)
  show ?case
  proof (cases "ss \<noteq> [] \<and> unat keep < b + length (concat ass)")
    case False
    then have "pop_segments keep (l, w) = (Inr (), l\<lparr>segments := ss @ [s]\<rparr>, w)"
      using snoc.prems(2) cmp by (subst pop_segments.simps) auto
    with False show ?thesis using snoc.prems rss
      by - (rule exI [of _ w], rule exI [of _ ss], rule exI [of _ s], rule exI [of _ "[]"], rule exI [of _ ass],
          rule exI [of _ rs], rule exI [of _ "[]"], auto)
  next
    case True
    from segs_remove_last [of X w d b ss s ass rs] snoc.prems(1,5) rss obtain w1 where
      w1: "segment_remove s w = (Inr (), w1)" "w_clean w1" "segs_ok X w1 d b ss ass" "only_in d w w1"
        "\<forall>t\<in>set ss. w_inode w1 (seg_ino t) = w_inode w (seg_ino t)" by auto
    have pre: "segments (l\<lparr>segments := ss\<rparr>) = ss" "ss \<noteq> []" "b + length (concat ass) < u64_bound"
      using True snoc.prems(4) rss by simp_all
    from snoc.IH [OF w1(3) pre w1(2)] obtain w' us t vs css ts dss where
      r: "pop_segments keep (l\<lparr>segments := ss\<rparr>, w1) = (Inr (), l\<lparr>segments := ss\<rparr>\<lparr>segments := us @ [t]\<rparr>, w')" "ss = us @ t # vs"
        "ass = css @ ts # dss" "length us = length css" "segs_ok X w' d b (us @ [t]) (css @ [ts])" "w_clean w'" "only_in d w1 w'"
        "us \<noteq> [] \<longrightarrow> b + length (concat css) \<le> unat keep" "vs \<noteq> [] \<longrightarrow> unat keep < b + length (concat css) + length ts"
        "\<forall>t\<in>set (us @ [t]). w_inode w' (seg_ino t) = w_inode w1 (seg_ino t)"
      by blast
    have "pop_segments keep (l, w) = (Inr (), l\<lparr>segments := us @ [t]\<rparr>, w')"
      using r(1) True cmp w1(1) snoc.prems(2) by (subst pop_segments.simps) simp
    moreover have "length vs = length dss" using rss(2) r(2-4) by simp
    then have "unat keep < b + length (concat css) + length ts" using True r(3,9) by (cases "vs = []") auto
    ultimately show ?thesis
      using r(2-8,10) rss(1) w1(5) only_in_trans [OF w1(4) r(7)]
      by - (rule exI [of _ w'], rule exI [of _ us], rule exI [of _ t], rule exI [of _ "vs @ [s]"], rule exI [of _ css],
          rule exI [of _ ts], rule exI [of _ "dss @ [rs]"], auto)
  qed
qed

lemma survivors_loop_run:
  "clean (rd_events (it_reader it)) \<Longrightarrow> \<not> it_done it \<Longrightarrow> rd_rest (it_reader it) = frames X ps \<Longrightarrow> small ps \<Longrightarrow>
   b + length ps < u64_bound \<Longrightarrow>
   \<exists>it'. survivors_loop X keep (of_nat b) acc it = (Inr (acc @ take (Suc (unat keep) - b) ps), it') \<and> clean (rd_events (it_reader it'))"
proof (induction ps arbitrary: b acc it)
  case Nil
  from iter_next_Nil [OF Nil(1), of X] Nil show ?case by (auto simp: survivors_loop.simps [of X _ _ acc it])
next
  case (Cons p ps)
  then obtain it1 where it1: "iter_next X it = (Some (Inr p), it1)" "rd_rest (it_reader it1) = frames X ps"
    "clean (rd_events (it_reader it1))" "\<not> it_done it1"
    using iter_next_Cons [of it X p "frames X ps"] by auto
  have "b < u64_bound" using Cons.prems(5) by simp
  then have cmp: "keep < of_nat b \<longleftrightarrow> unat keep < b" by (simp add: word_less_nat_alt u64_unat_of_nat)
  have suc: "(of_nat b :: u64) + 1 = of_nat (Suc b)" by simp
  show ?case
  proof (cases "unat keep < b")
    case True
    then show ?thesis using it1 cmp by (simp add: survivors_loop.simps [of X _ _ acc it])
  next
    case False
    then have "Suc (unat keep) - b = Suc (Suc (unat keep) - Suc b)" by simp
    then show ?thesis
      using Cons.IH [OF it1(3,4,2), of "Suc b" "acc @ [p]"] Cons.prems(4,5) it1(1) False cmp
      by (simp add: survivors_loop.simps [of X _ _ acc it] add.commute)
  qed
qed

lemma segs_append_many:
  "segs_ok X w d b (ss @ [s]) (rss @ [rs]) \<Longrightarrow> small ps \<Longrightarrow> w_clean w \<Longrightarrow>
   \<exists>s' w'. for_each ps (segment_append X) (s, w) = (Inr (), s', w') \<and> segs_ok X w' d b (ss @ [s']) (rss @ [rs @ ps]) \<and> w_clean w' \<and>
     only_in d w w' \<and> touches (seg_ino s) w w' \<and> seg_ino s' = seg_ino s"
proof (induction ps arbitrary: w s rs)
  case Nil
  then show ?case by (simp add: ret_def)
next
  case (Cons p ps)
  have ch: "chain X w d b (ss @ [s]) (rss @ [rs])" using Cons.prems(1) by (simp add: segs_ok_def)
  have len: "length ss = length rss" using chain_length [OF ch] by simp
  then have "seg_ok X w s rs" using ch by (simp add: chain_append)
  from segment_append_run [OF Cons.prems(3) this, of p] Cons.prems(2) obtain s1 w1 where
    s1: "segment_append X p (s, w) = (Inr (), s1, w1)" "seg_ok X w1 s1 (rs @ [p])" "seg_path s1 = seg_path s"
      "seg_base_index s1 = seg_base_index s" "bw_step (seg_writer s) w (frame X p) (seg_writer s1) w1"
    by auto
  have step: "touches (seg_ino s) w w1" "fs_ok w1" "w_clean w1" "seg_ino s1 = seg_ino s"
    using s1(5) Cons.prems(1) by (auto simp: bw_step_def segs_ok_def)
  from segs_update [OF Cons.prems(1) step(1,2) len refl s1(2) _ s1(3,4) step(4)]
  have "segs_ok X w1 d b (ss @ [s1]) (rss @ [rs @ [p]])" and oi: "only_in d w w1" by auto
  from Cons.IH [OF this(1) _ step(3)] Cons.prems(2) obtain s' w' where
    "for_each ps (segment_append X) (s1, w1) = (Inr (), s', w')" "segs_ok X w' d b (ss @ [s']) (rss @ [(rs @ [p]) @ ps])" "w_clean w'"
    "only_in d w1 w'" "touches (seg_ino s1) w1 w'" "seg_ino s' = seg_ino s1"
    by auto
  then show ?case
    using s1(1) step only_in_trans [OF oi] touches_trans [OF step(1)] by (simp add: andThen_def)
qed

lemma refill_run:
  assumes "segs_ok X w d b (ss @ [s]) (rss @ [[]])" and "small ps" and "w_clean w"
  shows "\<exists>s' w'. refill X ps s w = (Inr s', w') \<and> segs_ok X w' d b (ss @ [s']) (rss @ [ps]) \<and> w_clean w' \<and>
     only_in d w w' \<and> seg_synced w' s' \<and> (\<forall>t\<in>set ss. w_inode w' (seg_ino t) = w_inode w (seg_ino t))"
proof -
  from segs_append_many [OF assms] obtain s1 w1 where
    s1: "for_each ps (segment_append X) (s, w) = (Inr (), s1, w1)" "segs_ok X w1 d b (ss @ [s1]) (rss @ [ps])" "w_clean w1"
      "only_in d w w1" "touches (seg_ino s) w w1" "seg_ino s1 = seg_ino s" by auto
  have ch: "chain X w1 d b (ss @ [s1]) (rss @ [ps])" using s1(2) by (simp add: segs_ok_def)
  have len: "length ss = length rss" using chain_length [OF ch] by simp
  then have "seg_ok X w1 s1 ps" using ch by (simp add: chain_append)
  from segment_sync_run [OF s1(3) this] obtain s2 w2 where
    s2: "segment_sync (s1, w1) = (Inr (), s2, w2)" "seg_ok X w2 s2 ps" "seg_synced w2 s2" "seg_path s2 = seg_path s1" "seg_ino s2 = seg_ino s1"
      "seg_base_index s2 = seg_base_index s1" "touches (seg_ino s1) w1 w2" "w_clean w2" "fs_ok w2"
    using s1(2) by (auto simp: segs_ok_def)
  from segs_update [OF s1(2) s2(7,9) len refl s2(2) _ s2(4,6,5)]
  have segs: "segs_ok X w2 d b (ss @ [s2]) (rss @ [ps])" and oi: "only_in d w1 w2" by auto
  have "distinct (map seg_ino (ss @ [s]))" using assms(1) by (simp add: segs_ok_def)
  then have "\<forall>t\<in>set ss. seg_ino t \<noteq> seg_ino s" by (auto simp: image_iff)
  then have "\<forall>t\<in>set ss. w_inode w2 (seg_ino t) = w_inode w (seg_ino t)" using s1(5,6) s2(7) by (auto simp: touches_def)
  moreover have "refill X ps s w = (Inr s2, w2)" using s1(1) s2(1) by (simp add: refill_def andThen_def)
  ultimately show ?thesis using segs only_in_trans [OF s1(4) oi] s2(3,8) by blast
qed

text \<open>Which records survive, when the cut falls into the segment \<open>rs\<close>.\<close>

lemma take_concat_split:
  assumes "us \<noteq> [] \<longrightarrow> b + length (concat ass) \<le> k" and "bss \<noteq> [] \<longrightarrow> k < b + length (concat ass) + length rs" and "b \<le> Suc k"
    and "us = [] \<longleftrightarrow> ass = []"
  shows "take (Suc k - b) (concat (ass @ rs # bss)) = concat ass @ take (Suc k - (b + length (concat ass))) rs"
proof -
  have "length (concat ass) \<le> Suc k - b" using assms(1,3,4) by (cases "ass = []") auto
  moreover have "Suc k - b - length (concat ass) = Suc k - (b + length (concat ass))" by simp
  moreover have "bss = [] \<or> Suc k - (b + length (concat ass)) \<le> length rs" using assms(2) by auto
  ultimately show ?thesis by (auto simp: take_append)
qed

lemma log_last_unat:
  assumes "log_ok X w l rss"
  shows "Suc (unat (log_last_index l)) = unat (log_first_index l) + length (concat rss)"
proof -
  define n where "n = unat (log_first_index l) + length (concat rss)"
  have n: "log_last_index l + 1 = of_nat n" "n < u64_bound" "0 < n"
    using assms by (auto simp: log_ok_def n_def word_greater_zero_iff unat_gt_0)
  have "log_last_index l = of_nat n - 1" using n(1) by (simp add: eq_diff_eq)
  also have "\<dots> = of_nat (n - 1)" using u64_of_nat_diff [of 1 n] n(3) by simp
  finally have "unat (log_last_index l) = n - 1" using n(2) u64_unat_of_nat [of "n - 1"] by simp
  then show ?thesis using n(3) by (simp add: n_def)
qed

text \<open>The second half of \<open>truncate_suffix\<close>: the straddling segment is read, removed, created anew and refilled.\<close>

lemma segs_rewrite_last:
  assumes "segs_ok X w d b (us @ [s]) (ass @ [rs])" and "seg_synced w s" and "w_clean w"
    and "c = b + length (concat ass)" and "c + length rs < u64_bound" and "kept = take (Suc (unat keep) - c) rs"
  shows "\<exists>es w2 f w3 f' w'. segment_iter s (survivors_loop X keep (seg_base_index s) []) w = (Inr kept, w\<lparr>w_events := es\<rparr>) \<and>
     segment_remove s (w\<lparr>w_events := es\<rparr>) = (Inr (), w2) \<and> segment_create (seg_path s) (seg_base_index s) w2 = (Inr f, w3) \<and>
     refill X kept f w3 = (Inr f', w') \<and> segs_ok X w' d b (us @ [f']) (ass @ [kept]) \<and> w_clean w' \<and> only_in d w w' \<and> only_in d w2 w' \<and> seg_synced w' f' \<and>
     (\<forall>t\<in>set us. w_inode w' (seg_ino t) = w_inode w (seg_ino t))"
proof -
  have ch: "chain X w d b (us @ [s]) (ass @ [rs])" using assms(1) by (simp add: segs_ok_def)
  then have s: "seg_ok X w s rs" "seg_base_index s = of_nat c" "seg_path s = segment_path d (of_nat c)"
    using chain_length [OF ch] by (simp_all add: chain_append assms(4))
  have small: "small rs" "small kept" using s(1) assms(6) by (auto simp: seg_ok_def dest: in_set_takeD)
  have "\<exists>es. segment_iter s (survivors_loop X keep (of_nat c) []) w = (Inr kept, w\<lparr>w_events := es\<rparr>) \<and> clean es"
    using survivors_loop_run [OF _ _ _ small(1) assms(5), where acc = "[]" and keep = keep] assms(2,6)
    by (intro segment_iter_run [OF s(1) _ assms(3)]) (auto simp: seg_synced_def)
  then obtain es where es: "segment_iter s (survivors_loop X keep (of_nat c) []) w = (Inr kept, w\<lparr>w_events := es\<rparr>)" "clean es"
    by blast
  have "segs_ok X (w\<lparr>w_events := es\<rparr>) d b (us @ [s]) (ass @ [rs])" using assms(1) by (simp add: segs_ok_def own_files_def reach_def)
  from segs_remove_last [OF this] es(2) obtain w2 where
    2: "segment_remove s (w\<lparr>w_events := es\<rparr>) = (Inr (), w2)" "w_clean w2" "segs_ok X w2 d b us ass"
      "only_in d (w\<lparr>w_events := es\<rparr>) w2" "w_find w2 (seg_path s) = None"
      "\<forall>t\<in>set us. w_inode w2 (seg_ino t) = w_inode w (seg_ino t)" by auto
  from segs_create [OF 2(3,2,5), of "of_nat c"] s(3) obtain f w3 where
    3: "segment_create (seg_path s) (of_nat c) w2 = (Inr f, w3)" "segs_ok X w3 d b (us @ [f]) (ass @ [[]])" "w_clean w3"
      "only_in d w2 w3" "\<forall>t\<in>set us. w_inode w3 (seg_ino t) = w_inode w2 (seg_ino t)" by (auto simp: assms(4))
  from refill_run [OF 3(2) small(2) 3(3)] obtain f' w' where
    4: "refill X kept f w3 = (Inr f', w')" "segs_ok X w' d b (us @ [f']) (ass @ [kept])" "w_clean w'"
      "only_in d w3 w'" "seg_synced w' f'" "\<forall>t\<in>set us. w_inode w' (seg_ino t) = w_inode w3 (seg_ino t)" by blast
  have "only_in d w w'"
    using 2(4) by (intro only_in_trans [OF _ only_in_trans [OF 3(4) 4(4)]]) (simp add: only_in_def)
  then show ?thesis
    using es 2(1,6) 3(1,5) 4 s(2) only_in_trans [OF 3(4) 4(4)]
    by - (rule exI [of _ es], rule exI [of _ w2], rule exI [of _ f], rule exI [of _ w3], rule exI [of _ f'], rule exI [of _ w'], simp)
qed

lemma frames_take_length: "length (frames X (take n ps)) \<le> length (frames X ps)"
  using append_take_drop_id [of n ps] frames_simps(3) [of X "take n ps" "drop n ps"] by simp

lemma log_truncate_suffix_run:
  assumes "log_ok X w l rss" and "log_synced w l" and "w_clean w" and "unat (log_first_index l) \<le> Suc (unat keep)"
  shows "\<exists>l' w' rss'. log_truncate_suffix X keep (l, w) = (Inr (), l', w') \<and> log_ok X w' l' rss' \<and>
     concat rss' = take (Suc (unat keep) - unat (log_first_index l)) (concat rss) \<and> log_synced w' l' \<and> w_clean w' \<and>
     only_in (log_dir l) w w' \<and> log_first_index l' = log_first_index l \<and> log_last_index l' = min keep (log_last_index l) \<and>
     log_dir l' = log_dir l \<and> max_segment_bytes l' = max_segment_bytes l"
proof (cases "log_last_index l \<le> keep")
  case True
  then have "length (concat rss) \<le> Suc (unat keep) - unat (log_first_index l)"
    using log_last_unat [OF assms(1)] by (simp add: word_le_nat_alt)
  moreover have "log_truncate_suffix X keep (l, w) = (Inr (), l, w)"
    using True by (simp add: log_truncate_suffix_def andThen_def get_st_def ret_def)
  ultimately show ?thesis using assms True by (auto simp: min_def intro!: exI [of _ rss])
next
  case False
  then have mn: "min keep (log_last_index l) = keep" by (simp add: min.absorb1 less_imp_le)
  define b where "b = unat (log_first_index l)"
  have ok: "segs_ok X w (log_dir l) b (segments l) rss" "segments l \<noteq> []" "\<forall>rs\<in>set (butlast rss). rs \<noteq> []"
    "b + length (concat rss) < u64_bound" using assms(1) by (auto simp: log_ok_def b_def)
  have "unat keep < unat (log_last_index l)" using False by (simp add: word_less_nat_alt word_le_nat_alt)
  then have k: "Suc (unat keep) < b + length (concat rss)" using log_last_unat [OF assms(1)] by (simp add: b_def)
  then have "unat (keep + 1) = Suc (unat keep)" using ok(4) by (subst unat_u64_Suc) simp_all
  then have guard: "\<not> keep + 1 < log_first_index l" using assms(4) by (simp add: word_less_nat_alt)
  from pop_segments_run [OF ok(1) refl ok(2,4) assms(3), of keep] obtain w1 us s vs ass rs bss where
    1: "pop_segments keep (l, w) = (Inr (), l\<lparr>segments := us @ [s]\<rparr>, w1)" "segments l = us @ s # vs" "rss = ass @ rs # bss"
     "length us = length ass" "segs_ok X w1 (log_dir l) b (us @ [s]) (ass @ [rs])" "w_clean w1" "only_in (log_dir l) w w1"
     "us \<noteq> [] \<longrightarrow> b + length (concat ass) \<le> unat keep" "vs \<noteq> [] \<longrightarrow> unat keep < b + length (concat ass) + length rs"
     "\<forall>t\<in>set (us @ [s]). w_inode w1 (seg_ino t) = w_inode w (seg_ino t)"
    by blast
  have flushed: "\<forall>t\<in>set (us @ [s]). seg_synced w1 t"
    using assms(2) 1(2,10) by (auto simp: log_synced_def intro: seg_synced_transfer)
  define kept where "kept = take (Suc (unat keep) - (b + length (concat ass))) rs"
  have bound: "b + length (concat ass) + length rs < u64_bound" using ok(4) 1(3) by simp
  from segs_rewrite_last [OF 1(5) _ 1(6) refl bound kept_def] flushed obtain es w2 f w3 f' w' where
    2: "segment_iter s (survivors_loop X keep (seg_base_index s) []) w1 = (Inr kept, w1\<lparr>w_events := es\<rparr>)"
       "segment_remove s (w1\<lparr>w_events := es\<rparr>) = (Inr (), w2)" "segment_create (seg_path s) (seg_base_index s) w2 = (Inr f, w3)"
       "refill X kept f w3 = (Inr f', w')" "segs_ok X w' (log_dir l) b (us @ [f']) (ass @ [kept])" "w_clean w'"
       "only_in (log_dir l) w1 w'" "seg_synced w' f'" "\<forall>t\<in>set us. w_inode w' (seg_ino t) = w_inode w1 (seg_ino t)"
    by auto
  let ?l = "l\<lparr>segments := us @ [f'], log_last_index := keep\<rparr>"
  have run: "log_truncate_suffix X keep (l, w) = (Inr (), ?l, w')"
    using False guard 1(1) 2(1-4)
    by (simp add: log_truncate_suffix_def andThen_def get_st_def outside_def modify_def Let_def)
  have "length vs = length bss" using chain_length 1(2,3,4) ok(1) by (fastforce simp: segs_ok_def)
  then have cut: "concat (ass @ [kept]) = take (Suc (unat keep) - b) (concat rss)"
    using take_concat_split [of us b ass "unat keep" bss rs] 1(3,4,8,9) assms(4) by (auto simp: kept_def b_def)
  have "b + length (concat (ass @ [kept])) = Suc (unat keep)" unfolding cut using k assms(4) by (simp add: b_def)
  moreover have "\<forall>rs\<in>set ass. rs \<noteq> []" using ok(3) 1(3) by (auto simp: butlast_append)
  ultimately have "log_ok X w' ?l (ass @ [kept])"
    using 2(5) assms(1) frames_take_length [of X "Suc (unat keep) - b" "concat rss"] k ok(4) unfolding log_ok_def cut b_def
    by (simp add: add.commute)
  moreover have "log_synced w' ?l"
    using flushed 2(8,9) by (auto simp: log_synced_def intro: seg_synced_transfer)
  ultimately show ?thesis
    using run cut 2(6) mn only_in_trans [OF 1(7) 2(7)]
    by - (rule exI [of _ ?l], rule exI [of _ w'], rule exI [of _ "ass @ [kept]"], simp add: b_def)
qed

end
