(* ===== verification/Wal_Recovery.thy ===== *)
theory Wal_Recovery
  imports Wal_Log
begin

text \<open>
  Opening a log directory, \<^verbatim>\<open>Log::open\<close> of \<^verbatim>\<open>src/wal/log.rs\<close>: a fresh directory, a restart, and a
  restart after a crash; and the properties of the log.
\<close>

section \<open>Opening a directory\<close>

text \<open>The segment files of a directory as recovery will find them: the records at the front of each file.\<close>

fun disk_chain :: "('x) ext_scheme \<Rightarrow> world \<Rightarrow> path \<Rightarrow> nat \<Rightarrow> nat list \<Rightarrow> bytes list list \<Rightarrow> bool" where
  "disk_chain X w d b [] [] = True"
| "disk_chain X w d b (i # is) (rs # rss) = (w_find w (segment_path d (of_nat b)) = Some i \<and>
     fst (scan X (i_data (w_inode w i))) = rs \<and> \<not> damaged_inside X (i_data (w_inode w i)) \<and> length (i_data (w_inode w i)) < u64_bound \<and>
     disk_chain X w d (b + length rs) is rss)"
| "disk_chain X w d b _ _ = False"

fun bases_of :: "nat \<Rightarrow> bytes list list \<Rightarrow> u64 list" where
  "bases_of b [] = []"
| "bases_of b (rs # rss) = of_nat b # bases_of (b + length rs) rss"

lemma disk_chain_transfer:
  "disk_chain X w d b is rss \<Longrightarrow> w_dir w' = w_dir w \<Longrightarrow> (\<And>i. i \<in> set is \<Longrightarrow> w_inode w' i = w_inode w i) \<Longrightarrow> disk_chain X w' d b is rss"
  by (induction X w d b "is" rss rule: disk_chain.induct) auto

lemma recover_segments_run:
  "disk_chain X w d b is rss \<Longrightarrow> distinct is \<Longrightarrow> fs_ok w \<Longrightarrow> w_clean w \<Longrightarrow>
   \<exists>ss w'. recover_segments X d (bases_of b rss) w = (Inr ss, w') \<and> chain X w' d b ss rss \<and> map seg_ino ss = is \<and>
     (\<forall>s\<in>set ss. seg_synced w' s) \<and> fs_ok w' \<and> w_clean w' \<and> w_dir w' = w_dir w \<and> w_dirs w' = w_dirs w \<and>
     w_disk w' = w_disk w \<and> w_pend w' = w_pend w \<and> (\<forall>j. j \<notin> set is \<longrightarrow> w_inode w' j = w_inode w j)"
proof (induction "is" arbitrary: w b rss)
  case Nil
  then have "rss = []" by (cases rss) auto
  then show ?case using Nil by (auto simp: ret_def)
next
  case (Cons i "is")
  then obtain rs rss' where rss: "rss = rs # rss'" by (cases rss) auto
  define c where "c = i_data (w_inode w i)"
  have c: "w_find w (segment_path d (of_nat b)) = Some i" "fst (scan X c) = rs" "\<not> damaged_inside X c" "length c < u64_bound"
    "disk_chain X w d (b + length rs) is rss'"
    using Cons.prems(1) rss by (auto simp: c_def)
  from segment_recover_run [OF Cons.prems(4) c(1) Cons.prems(3) c(4) c_def [symmetric] c(2), of "of_nat b"] c(3) obtain s w1 where
    1: "segment_recover X (segment_path d (of_nat b)) (of_nat b) w = (Inr s, w1)" "seg_ok X w1 s rs" "seg_synced w1 s"
      "seg_path s = segment_path d (of_nat b)" "seg_base_index s = of_nat b" "seg_ino s = i" "w_clean w1" "fs_ok w1" "touches i w w1"
    by auto
  have "disk_chain X w1 d (b + length rs) is rss'"
    by (rule disk_chain_transfer [OF c(5)]) (use 1(9) Cons.prems(2) in \<open>auto simp: touches_def\<close>)
  from Cons.IH [OF this _ 1(8,7)] Cons.prems(2) obtain ss w' where
    2: "recover_segments X d (bases_of (b + length rs) rss') w1 = (Inr ss, w')" "chain X w' d (b + length rs) ss rss'" "map seg_ino ss = is"
      "\<forall>s\<in>set ss. seg_synced w' s" "fs_ok w'" "w_clean w'" "w_dir w' = w_dir w1" "w_dirs w' = w_dirs w1"
      "\<forall>j. j \<notin> set is \<longrightarrow> w_inode w' j = w_inode w1 j" "w_disk w' = w_disk w1" "w_pend w' = w_pend w1"
    by auto
  have "w_inode w' (seg_ino s) = w_inode w1 (seg_ino s)" using 2(9) 1(6) Cons.prems(2) by simp
  then have "seg_ok X w' s rs" "seg_synced w' s"
    using seg_ok_transfer [OF 1(2)] seg_synced_transfer [OF 1(3)] 2(7) by auto
  then show ?case
    using 1 2 by (intro exI [of _ "s # ss"] exI [of _ w']) (auto simp: rss andThen_def ret_def touches_def)
qed

text \<open>File names: what \<open>segment_path\<close> writes, \<open>discover_segments\<close> reads.\<close>

definition segment_name :: "u64 \<Rightarrow> string" where
  "segment_name base = SEGMENT_PREFIX @ show_u64_20 base @ SEGMENT_SUFFIX"

lemma segment_path_name: "segment_path d base = join_path d (segment_name base)"
  by (simp add: segment_path_def segment_name_def)

lemma segment_name_inject [simp]: "segment_name a = segment_name b \<longleftrightarrow> a = b"
  by (simp add: segment_name_def)

lemma segment_bases_names: "segment_bases (map segment_name bases) = Inr bases"
  by (induction bases) (simp_all add: segment_name_def parse_u64_show_u64_20)

lemma bases_of_sorted:
  "\<forall>rs\<in>set (butlast rss). rs \<noteq> [] \<Longrightarrow> b + length (concat rss) < u64_bound \<Longrightarrow>
   sorted (bases_of b rss) \<and> distinct (bases_of b rss) \<and> (\<forall>x\<in>set (bases_of b rss). of_nat b \<le> x)"
proof (induction rss arbitrary: b)
  case (Cons rs rss)
  have pre: "\<forall>rs\<in>set (butlast rss). rs \<noteq> []" "b + length rs + length (concat rss) < u64_bound"
    using Cons.prems by (cases "rss = []"; simp)+
  note IH = Cons.IH [OF pre]
  have "of_nat b < x" if "x \<in> set (bases_of (b + length rs) rss)" for x
  proof -
    have "rss \<noteq> []" using that by auto
    then have "rs \<noteq> []" using Cons.prems(1) by simp
    then have "b < b + length rs" by simp
    then have "(of_nat b :: u64) < of_nat (b + length rs)"
      using pre(2) u64_less_of_nat [of b "b + length rs"] by linarith
    then show ?thesis using IH that by (meson less_le_trans)
  qed
  then show ?case using IH by (auto simp: less_imp_le)
qed simp

lemma read_dir_names:
  assumes "w_clean w" and "fs_ok w" and "d \<in> set (w_dirs w)" and "\<And>p. butlast p = d \<Longrightarrow> w_find w p \<noteq> None \<longleftrightarrow> p \<in> segment_path d ` set bases"
  shows "\<exists>found. read_dir d w = (Inr (map segment_name found), w\<lparr>w_events := tl (w_events w)\<rparr>) \<and> distinct found \<and> set found = set bases"
proof -
  define ps where "ps = filter (\<lambda>p. p \<noteq> [] \<and> butlast p = d) (map fst (w_dir w))"
  have "distinct ps" using fs_ok_distinct [OF assms(2)] by (simp add: ps_def)
  have set_ps: "set ps = segment_path d ` set bases"
  proof (rule set_eqI)
    fix p
    have "p \<in> fst ` set (w_dir w) \<longleftrightarrow> w_find w p \<noteq> None" by (simp add: map_of_eq_None_iff)
    then show "p \<in> set ps \<longleftrightarrow> p \<in> segment_path d ` set bases"
      using assms(4) [of p] by (auto simp: ps_def)
  qed
  define found where "found = map (the_inv (segment_path d)) ps"
  have inj: "inj (segment_path d)" by (simp add: inj_def)
  have ps: "map (segment_path d) found = ps"
    using set_ps unfolding found_def map_map by (intro map_idI) (auto simp: the_inv_f_f [OF inj])
  have "map last ps = map segment_name found" unfolding ps [symmetric] by (simp add: segment_path_name)
  moreover have "distinct found" using \<open>distinct ps\<close> unfolding ps [symmetric] by (simp add: distinct_map)
  moreover have "set found = set bases"
    using set_ps inj unfolding ps [symmetric] by (simp add: inj_image_eq_iff)
  ultimately show ?thesis using assms(1,3) by (auto simp: read_dir_def syscall_clean ps_def)
qed

text \<open>What the directory must look like for \<open>open\<close> to find the segments and nothing else.\<close>

definition disk_ok :: "('x) ext_scheme \<Rightarrow> world \<Rightarrow> path \<Rightarrow> nat \<Rightarrow> nat list \<Rightarrow> bytes list list \<Rightarrow> bool" where
  "disk_ok X w d b is rss \<longleftrightarrow> fs_ok w \<and> d \<in> set (w_dirs w) \<and> disk_chain X w d b is rss \<and> distinct is \<and> is \<noteq> [] \<and>
     (\<forall>rs\<in>set (butlast rss). rs \<noteq> []) \<and> 0 < b \<and> b + length (concat rss) < u64_bound \<and> length (frames X (concat rss)) < u64_bound \<and>
     (\<forall>p. butlast p = d \<longrightarrow> (w_find w p \<noteq> None \<longleftrightarrow> p \<in> segment_path d ` set (bases_of b rss))) \<and>
     (\<forall>p i. reach w p i \<and> i \<in> set is \<longrightarrow> butlast p = d)"

lemma disk_ok_events [simp]: "disk_ok X (w\<lparr>w_events := es\<rparr>) d b is rss = disk_ok X w d b is rss"
proof -
  have "disk_chain X (w\<lparr>w_events := es\<rparr>) d b is rss = disk_chain X w d b is rss"
    by (induction X w d b "is" rss rule: disk_chain.induct) auto
  then show ?thesis by (simp add: disk_ok_def reach_def)
qed

lemma chain_bases: "chain X w d b ss rss \<Longrightarrow> map seg_base_index ss = bases_of b rss \<and> map seg_path ss = map (segment_path d) (bases_of b rss)"
  by (induction X w d b ss rss rule: chain.induct) auto

text \<open>\<open>last_index\<close> as \<open>open\<close> computes it from the last segment.\<close>

lemma log_ok_fresh:
  assumes "segs_ok X w d b ss rss" and "ss \<noteq> []" and "\<forall>rs\<in>set (butlast rss). rs \<noteq> []" and "0 < b"
    and "b + length (concat rss) < u64_bound" and "length (frames X (concat rss)) < u64_bound"
  shows "log_ok X w \<lparr>log_dir = d, max_segment_bytes = m, segments = ss, log_first_index = seg_base_index (hd ss),
     log_last_index = (if seg_count (last ss) = 0 then seg_base_index (last ss) - 1 else seg_base_index (last ss) + seg_count (last ss) - 1)\<rparr> rss"
proof -
  have ch: "chain X w d b ss rss" using assms(1) by (simp add: segs_ok_def)
  obtain ts s tss rs where snoc: "ss = ts @ [s]" "rss = tss @ [rs]" "seg_ok X w s rs" "seg_base_index s = of_nat (b + length (concat tss))"
    using chain_snocE [OF ch assms(2)] by metis
  have first: "seg_base_index (hd ss) = of_nat b" using ch assms(2) by (cases ss; cases rss) auto
  have b: "unat (of_nat b :: u64) = b" using assms(5) by (intro u64_unat_of_nat) simp
  have "(0 :: u64) < of_nat b" using b assms(4) by (metis unat_gt_0 word_greater_zero_iff)
  moreover have "(if seg_count s = 0 then seg_base_index s - 1 else seg_base_index s + seg_count s - 1) + 1 = of_nat (b + length (concat rss))"
    using snoc by (auto simp: seg_ok_def algebra_simps)
  ultimately show ?thesis using assms first b snoc(1) by (simp add: log_ok_def split: if_splits)
qed

lemma log_open_run:
  assumes "disk_ok X w d b is rss" and "w_clean w"
  shows "\<exists>l w'. log_open X d m w = (Inr l, w') \<and> log_ok X w' l rss \<and> log_synced w' l \<and> w_clean w' \<and>
     log_dir l = d \<and> max_segment_bytes l = m \<and> unat (log_first_index l) = b"
proof -
  define w1 where "w1 = w\<lparr>w_events := tl (w_events w)\<rparr>"
  define w2 where "w2 = w1\<lparr>w_events := tl (w_events w1)\<rparr>"
  have ok: "fs_ok w" "d \<in> set (w_dirs w)" "distinct is" "is \<noteq> []" "\<forall>rs\<in>set (butlast rss). rs \<noteq> []" "0 < b" "b + length (concat rss) < u64_bound"
    "length (frames X (concat rss)) < u64_bound" and found: "\<And>p. butlast p = d \<Longrightarrow> w_find w p \<noteq> None \<longleftrightarrow> p \<in> segment_path d ` set (bases_of b rss)"
    and own: "\<And>p i. reach w p i \<Longrightarrow> i \<in> set is \<Longrightarrow> butlast p = d"
    using assms(1) by (auto simp: disk_ok_def)
  have dir: "create_dir_all d w = (Inr (), w1)" using assms(2) ok(2) by (simp add: create_dir_all_def syscall_clean w1_def)
  obtain fs where fs: "read_dir d w1 = (Inr (map segment_name fs), w2)" "distinct fs" "set fs = set (bases_of b rss)"
    using read_dir_names [of w1 d "bases_of b rss"] assms(2) ok(1,2) found by (auto simp: w1_def w2_def)
  have srt: "sort fs = bases_of b rss"
    using bases_of_sorted [OF ok(5,7)] fs(2,3) by (intro sorted_distinct_set_unique) auto
  have "disk_ok X w2 d b is rss" "w_clean w2" using assms by (simp_all add: w1_def w2_def)
  then have "disk_chain X w2 d b is rss" "fs_ok w2" by (simp_all add: disk_ok_def)
  from recover_segments_run [OF this(1) ok(3) this(2) \<open>w_clean w2\<close>] obtain ss w' where
    ss: "recover_segments X d (bases_of b rss) w2 = (Inr ss, w')" "chain X w' d b ss rss" "map seg_ino ss = is" "\<forall>s\<in>set ss. seg_synced w' s"
      "fs_ok w'" "w_clean w'" "w_dir w' = w_dir w2" "w_dirs w' = w_dirs w2" "w_disk w' = w_disk w2" "w_pend w' = w_pend w2" by blast
  have ne: "ss \<noteq> []" "bases_of b rss \<noteq> []" using ss(3) ok(4) chain_bases [OF ss(2)] by auto
  have "set is = seg_ino ` set ss" using ss(3) by auto
  moreover have "seg_path ` set ss = segment_path d ` set (bases_of b rss)"
    using chain_bases [OF ss(2)] by (metis list.set_map)
  ultimately have "own_files w' d ss"
    using found own ss(7,9,10) unfolding own_files_def reach_def by (simp add: w1_def w2_def) blast
  then have "segs_ok X w' d b ss rss" using ss ok(2,3) by (simp add: segs_ok_def w1_def w2_def)
  note lok = log_ok_fresh [OF this ne(1) ok(5,6,7,8), of m]
  have first: "seg_base_index (hd ss) = of_nat b" using ss(2) ne(1) by (cases ss; cases rss) auto
  have "b < u64_bound" using ok(7) by simp
  then have "unat (seg_base_index (hd ss)) = b" unfolding first by (rule u64_unat_of_nat)
  moreover have "log_open X d m w = (Inr \<lparr>log_dir = d, max_segment_bytes = m, segments = ss, log_first_index = seg_base_index (hd ss),
     log_last_index = (if seg_count (last ss) = 0 then seg_base_index (last ss) - 1 else seg_base_index (last ss) + seg_count (last ss) - 1)\<rparr>, w')"
    using dir fs(1) srt ss(1) ne
    by (simp add: log_open_def andThen_def discover_segments_def segment_bases_names Let_def ret_def)
  ultimately show ?thesis using lok ss(4,6) by (auto simp: log_synced_def)
qed

lemma log_open_fresh_run:
  assumes "w_clean w" and "fs_ok w" and "d \<in> set (w_dirs w)" and "\<And>p. butlast p = d \<Longrightarrow> w_find w p = None"
  shows "\<exists>l w'. log_open X d m w = (Inr l, w') \<and> log_ok X w' l [[]] \<and> log_synced w' l \<and> w_clean w' \<and> only_in d w w' \<and>
     log_dir l = d \<and> max_segment_bytes l = m \<and> log_first_index l = 1 \<and> log_last_index l = 0"
proof -
  define w1 where "w1 = w\<lparr>w_events := tl (tl (w_events w))\<rparr>"
  have dir: "create_dir_all d w = (Inr (), w\<lparr>w_events := tl (w_events w)\<rparr>)"
    using assms(1,3) by (simp add: create_dir_all_def syscall_clean)
  have "filter (\<lambda>p. p \<noteq> [] \<and> butlast p = d) (map fst (w_dir w)) = []"
  proof (rule filter_False, rule ballI)
    fix p assume "p \<in> set (map fst (w_dir w))"
    then have "w_find w p \<noteq> None" by (simp add: map_of_eq_None_iff)
    then show "\<not> (p \<noteq> [] \<and> butlast p = d)" using assms(4) [of p] by auto
  qed
  then have rd: "read_dir d (w\<lparr>w_events := tl (w_events w)\<rparr>) = (Inr [], w1)"
    using assms(1,3) by (simp add: read_dir_def syscall_clean w1_def)
  have pre: "segs_ok X w1 d 1 [] []" "w_clean w1" "w_find w1 (segment_path d 1) = None"
    using assms(1-3) assms(4) [of "segment_path d 1"] assms(4) by (auto simp: segs_ok_def own_files_def w1_def simp del: map_of_eq_None_iff)
  have "segment_path d 1 = segment_path d (of_nat (1 + length (concat [])))" "(1 :: u64) = of_nat (1 + length (concat []))" by simp_all
  from segs_create [OF pre this] obtain s w' where
    s: "segment_create (segment_path d 1) 1 w1 = (Inr s, w')" "segs_ok X w' d 1 [s] [[]]" "w_clean w'" "only_in d w1 w'" "seg_synced w' s"
    by (metis append_Nil)
  have seg: "seg_count s = 0" "seg_base_index s = 1" using s(2) by (auto simp: segs_ok_def seg_ok_def)
  let ?l = "\<lparr>log_dir = d, max_segment_bytes = m, segments = [s], log_first_index = 1, log_last_index = 0\<rparr>"
  have "log_open X d m w = (Inr ?l, w')"
    using dir rd s(1) seg by (simp add: log_open_def andThen_def discover_segments_def ret_def Let_def)
  moreover have "log_ok X w' ?l [[]]" using log_ok_fresh [OF s(2), of m] seg by simp
  ultimately show ?thesis using s(3-5) by (auto simp: log_synced_def only_in_def w1_def)
qed

section \<open>Crashes\<close>

text \<open>The directory entries of \<open>d\<close> are durable: what a directory \<open>fsync\<close> would have achieved.\<close>

definition dir_durable :: "world \<Rightarrow> path \<Rightarrow> bool" where
  "dir_durable w d \<longleftrightarrow> (\<forall>p. butlast p = d \<longrightarrow> w_disk w p = w_find w p \<and> (\<forall>v. (p, v) \<in> set (concat (w_pend w)) \<longrightarrow> v = w_find w p))"

lemma crash_dir: "crash w w' \<Longrightarrow> dir_durable w d \<Longrightarrow> butlast p = d \<Longrightarrow> w_find w' p = w_find w p"
  using crash_entry [of w w' p] unfolding dir_durable_def by metis

lemma crash_synced_data: "crash w w' \<Longrightarrow> seg_synced w s \<Longrightarrow> i_data (w_inode w' (seg_ino s)) = i_data (w_inode w (seg_ino s))"
  unfolding crash_def crash_inode_def seg_synced_def by metis

lemma length_le_frames: "length ps \<le> length (frames X ps)"
  by (induction ps) (simp_all add: HEADER_LEN_def)

lemma scan_exact: "small rs \<Longrightarrow> scan X (frames X rs) = (rs, [])"
  using scan_frames [of rs X "[]"] by simp

lemma not_damaged_exact: "small rs \<Longrightarrow> \<not> damaged_inside X (frames X rs)"
  by (simp add: damaged_inside_def scan_exact rf.dec_Nil)

lemma chain_crash:
  assumes "chain X w d b ss rss" and "\<forall>s\<in>set ss. seg_synced w s" and "crash w w'" and "dir_durable w d"
    and "length (frames X (concat rss)) < u64_bound"
  shows "disk_chain X w' d b (map seg_ino ss) rss"
  using assms
proof (induction X w d b ss rss rule: chain.induct)
  case (2 X w d b s ss rs rss)
  have s: "seg_ok X w s rs" "seg_synced w s" "seg_path s = segment_path d (of_nat b)" using 2 by auto
  then have "w_find w' (segment_path d (of_nat b)) = Some (seg_ino s)"
    using crash_dir [OF "2.prems"(3,4), of "segment_path d (of_nat b)"] by (simp add: seg_ok_def)
  moreover have "i_data (w_inode w' (seg_ino s)) = frames X rs"
    using crash_synced_data [OF "2.prems"(3) s(2)] seg_ok_synced_data [OF s(1)] s(2) by (simp add: seg_synced_def)
  moreover have "small rs" using s(1) by (simp add: seg_ok_def)
  ultimately show ?case
    using 2 by (simp add: scan_exact not_damaged_exact)
qed auto

lemma disk_chain_append:
  "length is = length rss \<Longrightarrow>
   disk_chain X w d b (is @ js) (rss @ tss) \<longleftrightarrow> disk_chain X w d b is rss \<and> disk_chain X w d (b + length (concat rss)) js tss"
  by (induction "is" rss arbitrary: b rule: list_induct2) (auto simp: add.assoc)

lemma bases_of_append: "bases_of b (rss @ tss) = bases_of b rss @ bases_of (b + length (concat rss)) tss"
  by (induction rss arbitrary: b) (auto simp: add.assoc)

text \<open>After a crash the directory of a log shows the same files, reachable from nowhere else.\<close>

lemma crash_found:
  assumes "own_files w d ss" and "chain X w d b ss rss" and "crash w w'" and "dir_durable w d" and "butlast p = d"
  shows "w_find w' p \<noteq> None \<longleftrightarrow> p \<in> seg_path ` set ss"
proof -
  have "w_find w' p = w_find w p" using crash_dir [OF assms(3-5)] .
  moreover have "w_find w p \<noteq> None" if "p \<in> seg_path ` set ss" using that chain_ino [OF assms(2)] by auto
  ultimately show ?thesis using assms(1,5) unfolding own_files_def by metis
qed

lemma chain_path_bases: "chain X w d b ss rss \<Longrightarrow> seg_path ` set ss = segment_path d ` set (bases_of b rss)"
  using chain_bases by (metis list.set_map)

text \<open>
  A crash while the last segment has unsynced writes. Its file keeps the synced records and may go on with anything.
\<close>

lemma crash_tail:
  assumes "crash w w'" and "fs_ok w" and "bw_ok wr w" and "prefix (frames X rs) (i_synced (w_inode w (bw_ino wr)))"
  shows "\<exists>junk. i_data (w_inode w' (bw_ino wr)) = frames X rs @ junk"
proof -
  let ?f = "w_inode w (bw_ino wr)"
  have sync: "prefix (i_synced ?f) (i_data ?f)" using assms(3) by (simp add: bw_ok_def)
  have lcp: "longest_common_prefix (i_synced ?f) (i_data ?f) = i_synced ?f"
    using longest_common_prefix_max_prefix [OF prefix_order.refl sync] longest_common_prefix_prefix1 prefix_order.antisym by blast
  have "crash_inode ?f (w_inode w' (bw_ino wr))" using assms(1) by (simp add: crash_def)
  then have "prefix (i_synced ?f) (i_data (w_inode w' (bw_ino wr)))"
    using lcp sync by (auto simp: crash_inode_def split: if_splits)
  then show ?thesis using assms(4) by (meson prefix_order.trans prefixE)
qed

lemma recover_segments_append:
  "recover_segments X d (as @ bs) = andThen (recover_segments X d as) (\<lambda>ss. andThen (recover_segments X d bs) (\<lambda>ts. ret (ss @ ts)))"
proof (induction as)
  case Nil
  show ?case by (rule ext) (simp add: andThen_def ret_def split: prod.splits sum.splits)
next
  case (Cons a as)
  show ?case by (rule ext) (auto simp: Cons andThen_def ret_def split: prod.splits sum.splits)
qed

text \<open>All segments synced: recovery finds exactly what the log held.\<close>

lemma crash_synced_disk_ok:
  assumes "log_ok X w l rss" and "log_synced w l" and "dir_durable w (log_dir l)" and "crash w w'"
  shows "disk_ok X w' (log_dir l) (unat (log_first_index l)) (map seg_ino (segments l)) rss"
proof -
  define b where "b = unat (log_first_index l)"
  have ok: "fs_ok w" "log_dir l \<in> set (w_dirs w)" "chain X w (log_dir l) b (segments l) rss" "distinct (map seg_ino (segments l))"
    "own_files w (log_dir l) (segments l)" "segments l \<noteq> []" "\<forall>rs\<in>set (butlast rss). rs \<noteq> []" "0 < b"
    "b + length (concat rss) < u64_bound" "length (frames X (concat rss)) < u64_bound"
    using assms(1) by (auto simp: log_ok_def segs_ok_def b_def word_greater_zero_iff unat_gt_0)
  have "disk_chain X w' (log_dir l) b (map seg_ino (segments l)) rss"
    using chain_crash [OF ok(3) _ assms(4,3) ok(10)] assms(2) by (simp add: log_synced_def)
  moreover have "w_find w' p \<noteq> None \<longleftrightarrow> p \<in> segment_path (log_dir l) ` set (bases_of b rss)" if "butlast p = log_dir l" for p
    using crash_found [OF ok(5,3) assms(4,3) that] chain_path_bases [OF ok(3)] by simp
  moreover have "butlast p = log_dir l" if "reach w' p i" "i \<in> seg_ino ` set (segments l)" for p i
    using crash_reach [OF assms(4) that(1)] that(2) own_filesD [OF ok(5)] by auto
  moreover have "fs_ok w'" "log_dir l \<in> set (w_dirs w')"
    using crash_fs_ok [OF ok(1) assms(4)] ok(2) assms(4) by (simp_all add: crash_def)
  ultimately show ?thesis using ok unfolding disk_ok_def b_def by auto
qed

text \<open>A last segment in which the crash left a tail that makes recovery refuse the file.\<close>

lemma log_open_damaged:
  assumes "disk_chain X w d b is rss" and "distinct (is @ [i])" and "fs_ok w" and "w_clean w" and "d \<in> set (w_dirs w)"
    and "w_find w (segment_path d (of_nat (b + length (concat rss)))) = Some i" and "damaged_inside X (i_data (w_inode w i))"
    and "length (i_data (w_inode w i)) < u64_bound" and "bases = bases_of b rss @ [of_nat (b + length (concat rss))]"
    and "\<And>p. butlast p = d \<Longrightarrow> w_find w p \<noteq> None \<longleftrightarrow> p \<in> segment_path d ` set bases" and "sorted bases" and "distinct bases"
  shows "\<exists>msg w'. log_open X d m w = (Inl (Corruption msg), w')"
proof -
  define w1 where "w1 = w\<lparr>w_events := tl (w_events w)\<rparr>"
  define w2 where "w2 = w1\<lparr>w_events := tl (w_events w1)\<rparr>"
  have dir: "create_dir_all d w = (Inr (), w1)" using assms(4,5) by (simp add: create_dir_all_def syscall_clean w1_def)
  obtain fs where fs: "read_dir d w1 = (Inr (map segment_name fs), w2)" "distinct fs" "set fs = set bases"
    using read_dir_names [of w1 d bases] assms(3,4,5,10) by (auto simp: w1_def w2_def)
  have srt: "sort fs = bases" using assms(11,12) fs(2,3) by (intro sorted_distinct_set_unique) auto
  have w2: "disk_chain X w2 d b is rss" "fs_ok w2" "w_clean w2"
    using disk_chain_transfer [OF assms(1), of w2] assms(3,4) by (simp_all add: w1_def w2_def)
  have "distinct is" using assms(2) by simp
  from recover_segments_run [OF w2(1) this w2(2,3)] obtain ss w3 where
    ss: "recover_segments X d (bases_of b rss) w2 = (Inr ss, w3)" "fs_ok w3" "w_clean w3" "w_dir w3 = w_dir w2"
      "\<forall>j. j \<notin> set is \<longrightarrow> w_inode w3 j = w_inode w2 j" by blast
  have same: "i_data (w_inode w3 i) = i_data (w_inode w i)" using ss(5) assms(2) by (simp add: w1_def w2_def)
  have "w_find w3 (segment_path d (of_nat (b + length (concat rss)))) = Some i"
    using ss(4) assms(6) by (simp add: w1_def w2_def)
  from segment_recover_run [OF ss(3) this ss(2) assms(8) same refl, of X "of_nat (b + length (concat rss))"] assms(7) obtain msg w4 where
    "segment_recover X (segment_path d (of_nat (b + length (concat rss)))) (of_nat (b + length (concat rss))) w3 = (Inl (Corruption msg), w4)"
    by auto
  then have "recover_segments X d bases w2 = (Inl (Corruption msg), w4)"
    using ss(1) by (simp add: assms(9) recover_segments_append andThen_def)
  moreover have "bases \<noteq> []" by (simp add: assms(9))
  ultimately show ?thesis
    using dir fs(1) srt by (simp add: log_open_def andThen_def discover_segments_def segment_bases_names Let_def)
qed

text \<open>
  The general case: every segment but the last is synced, and of the last one at least the records \<open>rs\<close>.
\<close>

lemma crash_log_open:
  assumes "log_ok X w l (ass @ [rs @ new])" and "\<forall>s\<in>set (butlast (segments l)). seg_synced w s"
    and "prefix (frames X rs) (i_synced (w_inode w (seg_ino (last (segments l)))))"
    and "dir_durable w (log_dir l)" and "crash w w'" and "w_clean w'"
    and size: "unat (log_first_index l) + length (concat ass) + length (frames X (concat ass)) +
           length (i_data (w_inode w' (seg_ino (last (segments l))))) < u64_bound"
  shows "(\<exists>more l' w''. log_open X (log_dir l) m w' = (Inr l', w'') \<and> log_ok X w'' l' (ass @ [rs @ more]) \<and> log_synced w'' l' \<and>
            w_clean w'' \<and> log_first_index l' = log_first_index l) \<or>
         (\<exists>msg w''. log_open X (log_dir l) m w' = (Inl (Corruption msg), w''))"
proof -
  define b d where "b = unat (log_first_index l)" and "d = log_dir l"
  have ok: "fs_ok w" "d \<in> set (w_dirs w)" "chain X w d b (segments l) (ass @ [rs @ new])" "distinct (map seg_ino (segments l))"
    "own_files w d (segments l)" "segments l \<noteq> []" "\<forall>rs\<in>set ass. rs \<noteq> []" "0 < b" "length (frames X (concat ass)) < u64_bound"
    using assms(1) by (auto simp: log_ok_def segs_ok_def b_def d_def word_greater_zero_iff unat_gt_0 butlast_append)
  obtain ts s where segs: "segments l = ts @ [s]" "length ts = length ass" "chain X w d b ts ass" "seg_ok X w s (rs @ new)"
      "seg_path s = segment_path d (of_nat (b + length (concat ass)))"
    using chain_snocE [OF ok(3,6)] by (metis append1_eq_conv)
  have small: "small rs" using segs(4) by (simp add: seg_ok_def)
  define c where "c = i_data (w_inode w' (seg_ino s))"
  obtain junk where c: "c = frames X rs @ junk"
    using crash_tail [OF assms(5) ok(1), of "seg_writer s" X rs] segs(1,4) assms(3) unfolding c_def seg_ok_def by auto
  obtain more t where more: "scan X junk = (more, t)" by fastforce
  have sc: "scan X c = (rs @ more, t)" using more small by (simp add: c scan_append_frames)
  have le: "length (frames X (rs @ more)) \<le> length c" using scan_sound [OF sc] by simp
  have front: "disk_chain X w' d b (map seg_ino ts) ass"
    using chain_crash [OF segs(3) _ assms(5)] assms(2,4) segs(1) ok(9) by (simp add: d_def)
  have found: "w_find w' p \<noteq> None \<longleftrightarrow> p \<in> segment_path d ` set (bases_of b (ass @ [rs @ new]))" if "butlast p = d" for p
    using crash_found [OF ok(5,3) assms(5) _ that] assms(4) chain_path_bases [OF ok(3)] by (simp add: d_def)
  have bases: "bases_of b (ass @ [x]) = bases_of b ass @ [of_nat (b + length (concat ass))]" for x by (simp add: bases_of_append)
  have at: "w_find w' (segment_path d (of_nat (b + length (concat ass)))) = Some (seg_ino s)"
    using crash_dir [OF assms(5), of d "seg_path s"] assms(4) segs(4,5) by (simp add: d_def seg_ok_def)
  have w': "fs_ok w'" "d \<in> set (w_dirs w')" using crash_fs_ok [OF ok(1) assms(5)] ok(2) assms(5) by (simp_all add: crash_def)
  have len: "length c < u64_bound" "b + length (concat ass) < u64_bound" using size segs(1) by (simp_all add: c_def b_def)
  show ?thesis
  proof (cases "damaged_inside X c")
    case True
    have "sorted (bases_of b (ass @ [[]])) \<and> distinct (bases_of b (ass @ [[]]))"
      using bases_of_sorted [of "ass @ [[]]" b] ok(7) len(2) by simp
    then have "\<exists>msg w''. log_open X d m w' = (Inl (Corruption msg), w'')"
      using log_open_damaged [OF front _ w'(1) assms(6) w'(2) at, of "bases_of b (ass @ [rs @ new])" m] True len(1) ok(4) segs(1) found
      by (simp add: bases c_def)
    then show ?thesis by (simp add: d_def)
  next
    case False
    have "b + length (concat (ass @ [rs @ more])) < u64_bound" "length (frames X (concat (ass @ [rs @ more]))) < u64_bound"
      using size le length_le_frames [of "rs @ more" X] segs(1) by (simp_all add: c_def b_def)
    moreover have "disk_chain X w' d b (map seg_ino ts @ [seg_ino s]) (ass @ [rs @ more])"
      using front at sc False len(1) segs(2) by (simp add: disk_chain_append c_def)
    moreover have "butlast p = d" if "reach w' p i" "i \<in> set (map seg_ino ts @ [seg_ino s])" for p i
      using crash_reach [OF assms(5) that(1)] that(2) own_filesD [OF ok(5)] segs(1) by auto
    ultimately have "disk_ok X w' d b (map seg_ino ts @ [seg_ino s]) (ass @ [rs @ more])"
      using w' ok(4,7,8) segs(1) found unfolding disk_ok_def bases by (auto simp: butlast_append)
    from log_open_run [OF this assms(6), of m] show ?thesis
      unfolding b_def d_def by (metis word_unat_eq_iff)
  qed
qed

end
