(* ===== verification/Durable_Log.thy ===== *)
theory Durable_Log
  imports Wal_Recovery
begin

text \<open>
  The contract of the log as the Raft layer relies on it: a list of opaque records numbered from
  some first index, extended by \<open>append\<close>, made durable by \<open>sync\<close>, cut at either end. The locale is
  interpreted on the segmented log; the properties of the log follow.
\<close>

section \<open>The contract\<close>

locale durable_log =
  fixes holds :: "world \<Rightarrow> 'l \<Rightarrow> nat \<Rightarrow> bytes list \<Rightarrow> bool"
    and synced :: "world \<Rightarrow> 'l \<Rightarrow> bool"
    and fits :: "nat \<Rightarrow> bytes list \<Rightarrow> bool"
    and root :: "'l \<Rightarrow> path"
    and append :: "bytes \<Rightarrow> (error, 'l \<times> world, u64) prog"
    and sync :: "(error, 'l \<times> world, unit) prog"
    and truncate_suffix :: "u64 \<Rightarrow> (error, 'l \<times> world, unit) prog"
    and truncate_prefix :: "u64 \<Rightarrow> (error, 'l \<times> world, unit) prog"
    and read_all :: "'l \<Rightarrow> (error, world, (u64 \<times> bytes) list) prog"
  assumes append_law: "holds w l b rs \<Longrightarrow> w_clean w \<Longrightarrow> fits b (rs @ [p]) \<Longrightarrow>
      \<exists>l' w'. append p (l, w) = (Inr (of_nat (b + length rs)), l', w') \<and> holds w' l' b (rs @ [p]) \<and> w_clean w' \<and>
        only_in (root l) w w' \<and> root l' = root l"
    and sync_law: "holds w l b rs \<Longrightarrow> w_clean w \<Longrightarrow>
      \<exists>l' w'. sync (l, w) = (Inr (), l', w') \<and> holds w' l' b rs \<and> synced w' l' \<and> w_clean w' \<and>
        only_in (root l) w w' \<and> root l' = root l"
    and truncate_suffix_law: "holds w l b rs \<Longrightarrow> synced w l \<Longrightarrow> w_clean w \<Longrightarrow> b \<le> Suc (unat k) \<Longrightarrow>
      \<exists>l' w'. truncate_suffix k (l, w) = (Inr (), l', w') \<and> holds w' l' b (take (Suc (unat k) - b) rs) \<and> synced w' l' \<and>
        w_clean w' \<and> only_in (root l) w w' \<and> root l' = root l"
    and truncate_prefix_law: "holds w l b rs \<Longrightarrow> w_clean w \<Longrightarrow>
      \<exists>n l' w'. truncate_prefix k (l, w) = (Inr (), l', w') \<and> holds w' l' (b + n) (drop n rs) \<and> n \<le> length rs \<and>
        (0 < n \<longrightarrow> b + n \<le> unat k) \<and> (synced w l \<longrightarrow> synced w' l') \<and> w_clean w' \<and> only_in (root l) w w' \<and> root l' = root l"
    and read_all_law: "holds w l b rs \<Longrightarrow> synced w l \<Longrightarrow> w_clean w \<Longrightarrow>
      \<exists>es. read_all l w = (Inr (numbered b rs), w\<lparr>w_events := es\<rparr>) \<and> clean es"
    and holds_events: "holds (w\<lparr>w_events := es\<rparr>) l b rs = holds w l b rs"
    and fits_prefix: "fits b (rs @ ps) \<Longrightarrow> fits b rs"
begin

lemma append_each:
  "holds w l b rs \<Longrightarrow> w_clean w \<Longrightarrow> fits b (rs @ ps) \<Longrightarrow>
   \<exists>l' w'. for_each ps (\<lambda>p. andThen (append p) (\<lambda>_. ret ())) (l, w) = (Inr (), l', w') \<and> holds w' l' b (rs @ ps) \<and> w_clean w' \<and>
     only_in (root l) w w' \<and> root l' = root l"
proof (induction ps arbitrary: w l rs)
  case Nil
  then show ?case by (simp add: ret_def)
next
  case (Cons p ps)
  have "fits b (rs @ [p])" using fits_prefix [of b "rs @ [p]" ps] Cons.prems(3) by simp
  from append_law [OF Cons.prems(1,2) this] obtain l1 w1 where
    1: "append p (l, w) = (Inr (of_nat (b + length rs)), l1, w1)" "holds w1 l1 b (rs @ [p])" "w_clean w1" "only_in (root l) w w1" "root l1 = root l"
    by blast
  from Cons.IH [OF 1(2,3)] Cons.prems(3) obtain l' w' where
    "for_each ps (\<lambda>p. andThen (append p) (\<lambda>_. ret ())) (l1, w1) = (Inr (), l', w')" "holds w' l' b ((rs @ [p]) @ ps)" "w_clean w'"
    "only_in (root l1) w1 w'" "root l' = root l1" by auto
  then show ?case using 1 only_in_trans [OF 1(4)] by (auto simp: andThen_def ret_def)
qed

text \<open>The conflict resolution of Raft: replace everything after index \<open>k\<close> by new records.\<close>

lemma replace_tail:
  assumes "holds w l b rs" and "synced w l" and "w_clean w" and "b \<le> Suc (unat k)" and "fits b (take (Suc (unat k) - b) rs @ ps)"
  shows "\<exists>l' w'. andThen (truncate_suffix k) (\<lambda>_. andThen (for_each ps (\<lambda>p. andThen (append p) (\<lambda>_. ret ()))) (\<lambda>_. sync)) (l, w) = (Inr (), l', w') \<and>
     holds w' l' b (take (Suc (unat k) - b) rs @ ps) \<and> synced w' l' \<and> w_clean w' \<and> only_in (root l) w w'"
proof -
  from truncate_suffix_law [OF assms(1-4)] obtain l1 w1 where
    1: "truncate_suffix k (l, w) = (Inr (), l1, w1)" "holds w1 l1 b (take (Suc (unat k) - b) rs)" "w_clean w1" "only_in (root l) w w1" "root l1 = root l"
    by blast
  from append_each [OF 1(2,3) assms(5)] obtain l2 w2 where
    2: "for_each ps (\<lambda>p. andThen (append p) (\<lambda>_. ret ())) (l1, w1) = (Inr (), l2, w2)" "holds w2 l2 b (take (Suc (unat k) - b) rs @ ps)" "w_clean w2"
      "only_in (root l1) w1 w2" "root l2 = root l1" by blast
  from sync_law [OF 2(2,3)] obtain l3 w3 where
    3: "sync (l2, w2) = (Inr (), l3, w3)" "holds w3 l3 b (take (Suc (unat k) - b) rs @ ps)" "synced w3 l3" "w_clean w3" "only_in (root l2) w2 w3"
    by blast
  have "only_in (root l) w1 w2" "only_in (root l) w2 w3" using 2(4,5) 3(5) 1(5) by simp_all
  then have "only_in (root l) w w3" using 1(4) only_in_trans by blast
  then show ?thesis using 1(1) 2(1) 3(1-4) by (simp add: andThen_def)
qed

text \<open>What is appended and synced is read back under consecutive numbers.\<close>

lemma sync_read:
  assumes "holds w l b rs" and "w_clean w" and "fits b (rs @ [p])"
  shows "\<exists>l1 w1 l2 w2 es. append p (l, w) = (Inr (of_nat (b + length rs)), l1, w1) \<and> sync (l1, w1) = (Inr (), l2, w2) \<and>
     read_all l2 w2 = (Inr (numbered b rs @ [(of_nat (b + length rs), p)]), w2\<lparr>w_events := es\<rparr>) \<and>
     holds w2 l2 b (rs @ [p]) \<and> synced w2 l2"
proof -
  from append_law [OF assms] obtain l1 w1 where
    1: "append p (l, w) = (Inr (of_nat (b + length rs)), l1, w1)" "holds w1 l1 b (rs @ [p])" "w_clean w1" by blast
  from sync_law [OF 1(2,3)] obtain l2 w2 where
    2: "sync (l1, w1) = (Inr (), l2, w2)" "holds w2 l2 b (rs @ [p])" "synced w2 l2" "w_clean w2" by blast
  from read_all_law [OF 2(2-4)] obtain es where "read_all l2 w2 = (Inr (numbered b (rs @ [p])), w2\<lparr>w_events := es\<rparr>)" by blast
  then show ?thesis using 1(1) 2(1-3) by auto
qed

end

section \<open>The segmented log meets the contract\<close>

definition log_holds :: "('x) ext_scheme \<Rightarrow> world \<Rightarrow> wal_log \<Rightarrow> nat \<Rightarrow> bytes list \<Rightarrow> bool" where
  "log_holds X w l b recs \<longleftrightarrow> (\<exists>rss. log_ok X w l rss \<and> recs = concat rss) \<and> b = unat (log_first_index l)"

definition log_fits :: "('x) ext_scheme \<Rightarrow> nat \<Rightarrow> bytes list \<Rightarrow> bool" where
  "log_fits X b recs \<longleftrightarrow> b + length recs < u64_bound \<and> length (frames X recs) < u64_bound \<and> small recs"

lemma log_ok_events [simp]: "log_ok X (w\<lparr>w_events := es\<rparr>) l rss = log_ok X w l rss"
  by (simp add: log_ok_def segs_ok_def own_files_def reach_def)

interpretation wl: durable_log "log_holds X" log_synced "log_fits X" log_dir "log_append X" log_sync "log_truncate_suffix X"
  log_truncate_prefix "log_read_all X" for X :: "('x) ext_scheme"
proof
  fix w l b rs p assume "log_holds X w l b rs" "w_clean w" "log_fits X b (rs @ [p])"
  then show "\<exists>l' w'. log_append X p (l, w) = (Inr (of_nat (b + length rs)), l', w') \<and> log_holds X w' l' b (rs @ [p]) \<and> w_clean w' \<and>
        only_in (log_dir l) w w' \<and> log_dir l' = log_dir l"
    using log_append_run [of X w l _ p] unfolding log_holds_def log_fits_def by fastforce
next
  fix w l b rs assume "log_holds X w l b rs" "w_clean w"
  then obtain rss where rss: "log_ok X w l rss" "rs = concat rss" "b = unat (log_first_index l)" by (auto simp: log_holds_def)
  obtain l' w' where r: "log_sync (l, w) = (Inr (), l', w')" "log_ok X w' l' rss" "log_synced w' l'" "w_clean w'" "only_in (log_dir l) w w'"
      "l' = l\<lparr>segments := segments l'\<rparr>"
    using log_sync_run [OF rss(1) \<open>w_clean w\<close>] by blast
  have "log_dir l' = log_dir l" "log_first_index l' = log_first_index l" by (subst r(6), simp)+
  then show "\<exists>l' w'. log_sync (l, w) = (Inr (), l', w') \<and> log_holds X w' l' b rs \<and> log_synced w' l' \<and> w_clean w' \<and>
        only_in (log_dir l) w w' \<and> log_dir l' = log_dir l"
    using r rss by (auto simp: log_holds_def)
next
  fix w l b rs and k :: u64 assume "log_holds X w l b rs" "log_synced w l" "w_clean w" "b \<le> Suc (unat k)"
  then show "\<exists>l' w'. log_truncate_suffix X k (l, w) = (Inr (), l', w') \<and> log_holds X w' l' b (take (Suc (unat k) - b) rs) \<and> log_synced w' l' \<and>
        w_clean w' \<and> only_in (log_dir l) w w' \<and> log_dir l' = log_dir l"
    using log_truncate_suffix_run [of X w l _ k] unfolding log_holds_def by metis
next
  fix w l b rs k assume "log_holds X w l b rs" "w_clean w"
  then obtain rss where rss: "log_ok X w l rss" "rs = concat rss" "b = unat (log_first_index l)" by (auto simp: log_holds_def)
  from log_truncate_prefix_run [OF rss(1) \<open>w_clean w\<close>, of k] obtain l' w' ass bss where
    r: "log_truncate_prefix k (l, w) = (Inr (), l', w')" "log_ok X w' l' bss" "rss = ass @ bss" "w_clean w'" "only_in (log_dir l) w w'"
      "log_synced w l \<longrightarrow> log_synced w' l'" "log_dir l' = log_dir l" "unat (log_first_index l') = b + length (concat ass)"
      "ass \<noteq> [] \<longrightarrow> log_first_index l' \<le> k" unfolding rss(3) by blast
  moreover have "0 < length (concat ass) \<longrightarrow> b + length (concat ass) \<le> unat k" using r(8,9) by (auto simp: word_le_nat_alt)
  ultimately show "\<exists>n l' w'. log_truncate_prefix k (l, w) = (Inr (), l', w') \<and> log_holds X w' l' (b + n) (drop n rs) \<and> n \<le> length rs \<and>
        (0 < n \<longrightarrow> b + n \<le> unat k) \<and> (log_synced w l \<longrightarrow> log_synced w' l') \<and> w_clean w' \<and> only_in (log_dir l) w w' \<and> log_dir l' = log_dir l"
    using rss(2) by (intro exI [of _ "length (concat ass)"] exI [of _ l'] exI [of _ w']) (auto simp: log_holds_def)
next
  fix w l b rs assume "log_holds X w l b rs" "log_synced w l" "w_clean w"
  then show "\<exists>es. log_read_all X l w = (Inr (numbered b rs), w\<lparr>w_events := es\<rparr>) \<and> clean es"
    using log_read_all_run [of X w l] unfolding log_holds_def by metis
next
  fix w es l b rs show "log_holds X (w\<lparr>w_events := es\<rparr>) l b rs = log_holds X w l b rs" by (simp add: log_holds_def)
next
  fix b rs ps assume "log_fits X b (rs @ ps)" then show "log_fits X b rs" by (auto simp: log_fits_def)
qed

section \<open>A sample log\<close>

text \<open>One segment, everything on disk; used by witnesses.\<close>

definition sample_log :: "('x) ext_scheme \<Rightarrow> path \<Rightarrow> bytes list \<Rightarrow> wal_log" where
  "sample_log X d recs = \<lparr>log_dir = d, max_segment_bytes = 1000,
     segments = [\<lparr>seg_base_index = 1, seg_path = segment_path d 1,
       seg_writer = \<lparr>bw_ino = 0, bw_pos = length (frames X recs), bw_buf = []\<rparr>,
       seg_bytes = of_nat (length (frames X recs)), seg_count = of_nat (length recs)\<rparr>],
     log_first_index = 1, log_last_index = of_nat (length recs)\<rparr>"

definition sample_world :: "('x) ext_scheme \<Rightarrow> path \<Rightarrow> bytes list \<Rightarrow> io_event list \<Rightarrow> world" where
  "sample_world X d recs es = file_world (segment_path d 1) (frames X recs) es"

lemma sample_log_ok:
  assumes "log_fits X 1 recs"
  shows "log_ok X (sample_world X d recs es) (sample_log X d recs) [recs]" "log_synced (sample_world X d recs es) (sample_log X d recs)"
proof -
  let ?w = "sample_world X d recs es" and ?l = "sample_log X d recs"
  have "own_files ?w d (segments ?l)" by (auto simp: own_files_def reach_def sample_world_def file_world_def sample_log_def split: if_splits)
  moreover have "chain X ?w d 1 (segments ?l) [recs]"
    using assms by (auto simp: sample_log_def sample_world_def seg_ok_def bw_ok_def bw_content_def log_fits_def file_world_def)
  moreover have "fs_ok ?w" "d \<in> set (w_dirs ?w)" by (simp_all add: sample_world_def) (simp add: file_world_def)
  ultimately show "log_ok X ?w ?l [recs]"
    using assms by (simp add: log_ok_def segs_ok_def log_fits_def sample_log_def)
  show "log_synced ?w ?l" by (simp add: log_synced_def seg_synced_def sample_log_def sample_world_def file_world_def)
qed

lemma sample_log_holds: "log_fits X 1 recs \<Longrightarrow> log_holds X (sample_world X d recs es) (sample_log X d recs) 1 recs"
  using sample_log_ok(1) [of X recs d es] by (auto simp: log_holds_def) (simp add: sample_log_def)

lemma sample_crash:
  "crash (sample_world X d recs es) (sample_world X d recs es')" "dir_durable (sample_world X d recs es) d"
  by (auto simp: crash_def crash_inode_def dir_durable_def sample_world_def file_world_def)

text \<open>The same log with its last records not yet synced.\<close>

definition dirty_world :: "('x) ext_scheme \<Rightarrow> path \<Rightarrow> bytes list \<Rightarrow> bytes list \<Rightarrow> io_event list \<Rightarrow> world" where
  "dirty_world X d recs new es = (sample_world X d (recs @ new) es)
     \<lparr>w_inode := (\<lambda>_. \<lparr>i_data = frames X (recs @ new), i_synced = frames X recs, i_dirty = True\<rparr>)\<rparr>"

lemma dirty_log_ok:
  assumes "log_fits X 1 (recs @ new)"
  shows "log_ok X (dirty_world X d recs new es) (sample_log X d (recs @ new)) [recs @ new]"
proof -
  let ?w = "dirty_world X d recs new es" and ?l = "sample_log X d (recs @ new)"
  have "own_files ?w d (segments ?l)"
    by (auto simp: own_files_def reach_def dirty_world_def sample_world_def file_world_def sample_log_def split: if_splits)
  moreover have "chain X ?w d 1 (segments ?l) [recs @ new]"
    using assms by (auto simp: sample_log_def dirty_world_def sample_world_def seg_ok_def bw_ok_def bw_content_def log_fits_def file_world_def)
  moreover have "fs_ok ?w" "d \<in> set (w_dirs ?w)" by (simp_all add: fs_ok_def dirty_world_def sample_world_def file_world_def)
  ultimately show ?thesis using assms by (simp add: log_ok_def segs_ok_def log_fits_def sample_log_def)
qed

lemma dirty_crash:
  "crash (dirty_world X d recs new es) (file_world (segment_path d 1) (frames X recs @ junk) es')" "dir_durable (dirty_world X d recs new es) d"
proof -
  have "prefix (longest_common_prefix xs (xs @ ys)) (xs @ zs)" for xs ys zs :: bytes
    using longest_common_prefix_prefix1 by (metis prefix_prefix)
  then show "crash (dirty_world X d recs new es) (file_world (segment_path d 1) (frames X recs @ junk) es')"
    by (auto simp: crash_def crash_inode_def dirty_world_def sample_world_def file_world_def)
  show "dir_durable (dirty_world X d recs new es) d"
    by (auto simp: dir_durable_def dirty_world_def sample_world_def file_world_def)
qed

section \<open>Properties\<close>

text \<open>C23. Appending a record and syncing gives it the next index, and \<open>read_all\<close> then returns all earlier records with
  their old indices followed by the new one, whatever rotation did meanwhile.\<close>

theorem log_append_sync_read:
  assumes "log_holds X w l b recs" and "w_clean w" and "log_fits X b (recs @ [p])"
  shows "\<exists>l1 w1 l2 w2 es. log_append X p (l, w) = (Inr (of_nat (b + length recs)), l1, w1) \<and> log_sync (l1, w1) = (Inr (), l2, w2) \<and>
     log_read_all X l2 w2 = (Inr (numbered b recs @ [(of_nat (b + length recs), p)]), w2\<lparr>w_events := es\<rparr>) \<and>
     log_holds X w2 l2 b (recs @ [p]) \<and> log_synced w2 l2"
  using wl.sync_read [OF assms] .

theorem log_append_sync_read_witness:
  "\<exists>l1 w1 l2 w2 es. log_append sample_ext [7] (sample_log sample_ext [''wal''] [[1], [2]], sample_world sample_ext [''wal''] [[1], [2]] [Intr]) =
       (Inr (of_nat (1 + length [[1 :: u8], [2]])), l1, w1) \<and> log_sync (l1, w1) = (Inr (), l2, w2) \<and>
     log_read_all sample_ext l2 w2 = (Inr (numbered 1 [[1], [2]] @ [(of_nat (1 + length [[1 :: u8], [2]]), [7])]), w2\<lparr>w_events := es\<rparr>) \<and>
     log_holds sample_ext w2 l2 1 ([[1], [2]] @ [[7]]) \<and> log_synced w2 l2"
  by (rule log_append_sync_read, rule sample_log_holds) (simp_all add: log_fits_def max_payload_eq HEADER_LEN_def sample_world_def)

text \<open>C24. On a healthy disk, \<open>truncate_suffix(k)\<close> of a synced log keeps exactly the records with index at most \<open>k\<close>, with the contents of
  the remaining segment files synced, and leaves files outside the log directory alone. The log must be synced before: the code
  reads the records to keep from the file and does not see buffered ones. Whether the directory still has the rewritten file
  after a power failure is not part of this.\<close>

theorem log_truncate_suffix_exact:
  assumes "log_holds X w l b recs" and "log_synced w l" and "w_clean w" and "b \<le> Suc (unat k)"
  shows "\<exists>l' w'. log_truncate_suffix X k (l, w) = (Inr (), l', w') \<and> log_holds X w' l' b (take (Suc (unat k) - b) recs) \<and>
     log_synced w' l' \<and> w_clean w' \<and> only_in (log_dir l) w w'"
  using wl.truncate_suffix_law [OF assms] by blast

theorem log_truncate_suffix_exact_witness:
  "\<exists>l' w'. log_truncate_suffix sample_ext 2 (sample_log sample_ext [''wal''] [[1], [2], [3]], sample_world sample_ext [''wal''] [[1], [2], [3]] [Short 1]) = (Inr (), l', w') \<and>
     log_holds sample_ext w' l' 1 (take (Suc (unat (2 :: u64)) - 1) [[1], [2], [3]]) \<and>
     log_synced w' l' \<and> w_clean w' \<and> only_in (log_dir (sample_log sample_ext [''wal''] [[1], [2], [3]])) (sample_world sample_ext [''wal''] [[1], [2], [3]] [Short 1]) w'"
  by (rule log_truncate_suffix_exact, rule sample_log_holds)
    (simp_all add: log_fits_def max_payload_eq HEADER_LEN_def sample_log_ok, simp_all add: sample_world_def)

text \<open>C26. \<open>truncate_prefix(k)\<close> drops only records with index below \<open>k\<close>, from the front and as a block; the rest keep
  their indices. If more than one segment is left, the oldest of them still reaches \<open>k\<close>.\<close>

theorem log_truncate_prefix_bounded:
  assumes "log_ok X w l rss" and "w_clean w"
  shows "\<exists>l' w' gone rest. log_truncate_prefix k (l, w) = (Inr (), l', w') \<and> rss = gone @ rest \<and> log_ok X w' l' rest \<and>
     log_last_index l' = log_last_index l \<and> unat (log_first_index l') = unat (log_first_index l) + length (concat gone) \<and>
     (gone \<noteq> [] \<longrightarrow> log_first_index l' \<le> k) \<and> (1 < length rest \<longrightarrow> unat k < unat (log_first_index l') + length (hd rest))"
  using log_truncate_prefix_run [OF assms, of k] by metis

text \<open>A log of two segments with one record each.\<close>

definition two_segments :: wal_log where
  "two_segments = \<lparr>log_dir = [''wal''], max_segment_bytes = 9,
     segments = map (\<lambda>i. \<lparr>seg_base_index = of_nat (Suc i), seg_path = segment_path [''wal''] (of_nat (Suc i)),
       seg_writer = \<lparr>bw_ino = i, bw_pos = 9, bw_buf = []\<rparr>, seg_bytes = 9, seg_count = 1\<rparr>) [0, 1],
     log_first_index = 1, log_last_index = 2\<rparr>"

definition two_segments_world :: world where
  "two_segments_world = (empty_world [''wal''] [])\<lparr>w_dir := [(segment_path [''wal''] 1, 0), (segment_path [''wal''] 2, 1)],
     w_disk := [segment_path [''wal''] 1 \<mapsto> 0, segment_path [''wal''] 2 \<mapsto> 1],
     w_inode := (\<lambda>i. let bs = frames sample_ext [[if i = 0 then 7 else 8]] in \<lparr>i_data = bs, i_synced = bs, i_dirty = False\<rparr>), w_next := 2\<rparr>"

lemma two_segments_ok: "log_ok sample_ext two_segments_world two_segments [[[7]], [[8]]]"
proof -
  let ?p = "segment_path [''wal'']"
  have ne: "?p 1 \<noteq> ?p 2" by simp
  have len: "length (frames sample_ext [[n]]) = 9" for n by (simp add: HEADER_LEN_def)
  have "chain sample_ext two_segments_world [''wal''] 1 (segments two_segments) [[[7]], [[8]]]"
    using ne by (simp add: two_segments_def two_segments_world_def seg_ok_def bw_ok_def bw_content_def HEADER_LEN_def max_payload_eq numeral_2_eq_2 Let_def)
  moreover have "own_files two_segments_world [''wal''] (segments two_segments)"
    by (auto simp: own_files_def two_segments_def two_segments_world_def reach_def empty_world_def split: if_splits)
  moreover have "fs_ok two_segments_world"
    using ne by (auto simp: fs_ok_def two_segments_world_def empty_world_def Let_def fun_eq_iff)
  ultimately show ?thesis
    using len by (simp add: log_ok_def segs_ok_def two_segments_def two_segments_world_def HEADER_LEN_def)
qed

theorem log_truncate_prefix_bounded_witness:
  "\<exists>l' w'. log_truncate_prefix 2 (two_segments, two_segments_world) = (Inr (), l', w') \<and> log_ok sample_ext w' l' [[[8]]] \<and>
     log_first_index l' = 2 \<and> log_last_index l' = 2"
proof -
  have clean: "w_clean two_segments_world" by (simp add: two_segments_world_def)
  from log_truncate_prefix_bounded [OF two_segments_ok clean, of 2] obtain l' w' gone rest where
    r: "log_truncate_prefix 2 (two_segments, two_segments_world) = (Inr (), l', w')" "[[[7]], [[8]]] = gone @ rest" "log_ok sample_ext w' l' rest"
      "log_last_index l' = log_last_index two_segments" "unat (log_first_index l') = unat (log_first_index two_segments) + length (concat gone)"
      "gone \<noteq> [] \<longrightarrow> log_first_index l' \<le> 2" "1 < length rest \<longrightarrow> unat (2 :: u64) < unat (log_first_index l') + length (hd rest)" by blast
  have first: "log_first_index two_segments = 1" "log_last_index two_segments = 2" by (simp_all add: two_segments_def)
  have ok: "rest \<noteq> []" using r(3) by (cases "segments l'") (auto simp: log_ok_def segs_ok_def)
  have "gone \<noteq> []" using r(2,5,7) first by auto
  then have "gone = [[[7]]] \<and> rest = [[[8]]]" using r(2) ok by (auto simp: Cons_eq_append_conv)
  moreover have "log_first_index l' = 2" using r(5) first calculation by (simp add: word_unat_eq_iff)
  ultimately show ?thesis using r(1,3,4) first by auto
qed

text \<open>C21. A synced log whose directory entries are durable survives a power failure: \<open>open\<close> returns a log with the same
  first index and records, and reading it gives all of them.\<close>

theorem log_survives_crash:
  assumes "log_holds X w l b recs" and "log_synced w l" and "dir_durable w (log_dir l)" and "crash w w'" and "w_clean w'"
  shows "\<exists>l' w'' es. log_open X (log_dir l) m w' = (Inr l', w'') \<and> log_holds X w'' l' b recs \<and> log_synced w'' l' \<and>
     log_read_all X l' w'' = (Inr (numbered b recs), w''\<lparr>w_events := es\<rparr>)"
proof -
  obtain rss where rss: "log_ok X w l rss" "recs = concat rss" "b = unat (log_first_index l)" using assms(1) by (auto simp: log_holds_def)
  from log_open_run [OF crash_synced_disk_ok [OF rss(1) assms(2-4)] assms(5), of m] obtain l' w'' where
    l': "log_open X (log_dir l) m w' = (Inr l', w'')" "log_ok X w'' l' rss" "log_synced w'' l'" "w_clean w''"
      "unat (log_first_index l') = unat (log_first_index l)" by blast
  then have "log_holds X w'' l' b recs" using rss by (auto simp: log_holds_def)
  with wl.read_all_law [OF this l'(3,4)] l'(1,3) show ?thesis by blast
qed

theorem log_survives_crash_witness:
  "\<exists>l' w'' es. log_open sample_ext (log_dir (sample_log sample_ext [''wal''] [[1], [2]])) 64 (sample_world sample_ext [''wal''] [[1], [2]] [Short 2, Intr]) = (Inr l', w'') \<and>
     log_holds sample_ext w'' l' 1 [[1], [2]] \<and> log_synced w'' l' \<and>
     log_read_all sample_ext l' w'' = (Inr (numbered 1 [[1], [2]]), w''\<lparr>w_events := es\<rparr>)"
proof -
  have fits: "log_fits sample_ext 1 [[1], [2]]" by (simp add: log_fits_def max_payload_eq HEADER_LEN_def)
  show ?thesis
    by (rule log_survives_crash [OF sample_log_holds [OF fits, of "[''wal'']" "[]"] sample_log_ok(2) [OF fits]])
      (simp_all add: sample_log_def sample_crash, simp add: sample_world_def)
qed

text \<open>C22. A power failure in the middle of appending: every segment but the last is synced, of the last one the records \<open>rs\<close>, and the
  directory's entries for the segments are durable, which the code itself does not see to for a new segment. \<open>open\<close> then
  finds every synced record, followed by whatever the tail of the last file parses as, or refuses the directory with
  \<open>Corruption\<close>; under these conditions it never returns a log in which a synced record is missing or moved.\<close>

theorem log_crash_keeps_synced:
  assumes "log_ok X w l (ass @ [rs @ new])" and "\<forall>s\<in>set (butlast (segments l)). seg_synced w s"
    and "prefix (frames X rs) (i_synced (w_inode w (seg_ino (last (segments l)))))"
    and "dir_durable w (log_dir l)" and "crash w w'" and "w_clean w'"
    and "unat (log_first_index l) + length (concat ass) + length (frames X (concat ass)) +
           length (i_data (w_inode w' (seg_ino (last (segments l))))) < 2 ^ 64"
  shows "(\<exists>more l' w''. log_open X (log_dir l) m w' = (Inr l', w'') \<and>
            log_holds X w'' l' (unat (log_first_index l)) (concat ass @ rs @ more) \<and> log_synced w'' l') \<or>
         (\<exists>msg w''. log_open X (log_dir l) m w' = (Inl (Corruption msg), w''))"
  using crash_log_open [OF assms, of m]
proof (elim disjE exE conjE)
  fix more l' w''
  assume "log_open X (log_dir l) m w' = (Inr l', w'')" "log_ok X w'' l' (ass @ [rs @ more])" "log_synced w'' l'" "log_first_index l' = log_first_index l"
  then have "log_holds X w'' l' (unat (log_first_index l)) (concat ass @ rs @ more)"
    by (auto simp: log_holds_def intro!: exI [of _ "ass @ [rs @ more]"])
  with \<open>log_open X (log_dir l) m w' = (Inr l', w'')\<close> \<open>log_synced w'' l'\<close> show ?thesis by blast
qed blast

theorem log_crash_keeps_synced_witness:
  "(\<exists>more l' w''. log_open sample_ext (log_dir (sample_log sample_ext [''wal''] ([[1]] @ [[2]]))) 64 (file_world (segment_path [''wal''] 1) (frames sample_ext [[1]] @ [9, 9, 9]) [Intr]) = (Inr l', w'') \<and>
        log_holds sample_ext w'' l' (unat (log_first_index (sample_log sample_ext [''wal''] ([[1]] @ [[2]])))) (concat [] @ [[1]] @ more) \<and> log_synced w'' l') \<or>
     (\<exists>msg w''. log_open sample_ext (log_dir (sample_log sample_ext [''wal''] ([[1]] @ [[2]]))) 64 (file_world (segment_path [''wal''] 1) (frames sample_ext [[1]] @ [9, 9, 9]) [Intr]) =
        (Inl (Corruption msg), w''))"
proof -
  have fits: "log_fits sample_ext 1 ([[1]] @ [[2]])" by (simp add: log_fits_def max_payload_eq HEADER_LEN_def)
  have ok: "log_ok sample_ext (dirty_world sample_ext [''wal''] [[1]] [[2]] []) (sample_log sample_ext [''wal''] ([[1]] @ [[2]])) ([] @ [[[1]] @ [[2]]])"
    using dirty_log_ok [OF fits] by simp
  show ?thesis
    by (rule log_crash_keeps_synced [OF ok _ _ _ dirty_crash(1)])
      (simp_all add: dirty_crash sample_log_def HEADER_LEN_def, simp_all add: dirty_world_def)
qed

text \<open>The world a crash leaves when no directory entry made since the start has reached the disk.\<close>

definition bare_world :: "world \<Rightarrow> world" where
  "bare_world w = w\<lparr>w_dir := [], w_disk := Map.empty, w_pend := [],
     w_inode := (\<lambda>i. \<lparr>i_data = i_data (w_inode w i), i_synced = i_data (w_inode w i), i_dirty = False\<rparr>)\<rparr>"

lemma bare_world_crash: "subseq ops (w_pend w) \<Longrightarrow> apply_ops ops (w_disk w) = Map.empty \<Longrightarrow> crash w (bare_world w)"
  using longest_common_prefix_prefix2 by (auto simp: crash_def crash_inode_def bare_world_def)

lemma segment_remove_pend:
  "segment_remove s w = (Inr (), w') \<Longrightarrow> bw_buf (seg_writer s) = [] \<Longrightarrow> w_pend w' = [(seg_path s, None)] # w_pend w"
  by (auto simp: segment_remove_def remove_file_def syscall_def pop_event_def bw_drop_def bw_flush_def set_entry_def split: list.splits if_splits option.splits prod.splits)

text \<open>C27. \<open>sync\<close> does not make a new segment durable: a log is created, a record is appended and synced, all successfully, and
  yet a power failure may leave the directory without the segment file, because \<open>Segment::create\<close> never syncs the directory.
  The reopened log is empty.\<close>

theorem log_sync_loses_new_segment:
  assumes "length p \<le> max_payload"
  shows "\<exists>l w1 l1 w2 l2 w3 w4 l5 w5. log_open X d m (empty_world d []) = (Inr l, w1) \<and> log_append X p (l, w1) = (Inr 1, l1, w2) \<and>
     log_sync (l1, w2) = (Inr (), l2, w3) \<and> crash w3 w4 \<and> log_open X d m w4 = (Inr l5, w5) \<and> log_is_empty l5"
proof -
  have "fs_ok (empty_world d [])" "w_clean (empty_world d [])" "d \<in> set (w_dirs (empty_world d []))" by simp_all
  from log_open_fresh_run [OF this(2,1,3), of X m] obtain l w1 where
    1: "log_open X d m (empty_world d []) = (Inr l, w1)" "log_ok X w1 l [[]]" "w_clean w1" "only_in d (empty_world d []) w1" "log_dir l = d"
      "log_first_index l = 1" by auto
  have h1: "log_holds X w1 l 1 []" using 1(2,6) by (auto simp: log_holds_def intro!: exI [of _ "[[]]"])
  have fits: "log_fits X 1 ([] @ [p])" using assms by (simp add: log_fits_def max_payload_eq HEADER_LEN_def)
  from wl.append_law [OF h1 1(3) fits] obtain l1 w2 where
    2: "log_append X p (l, w1) = (Inr 1, l1, w2)" "log_holds X w2 l1 1 [p]" "w_clean w2" "only_in d w1 w2" "log_dir l1 = d" using 1(5) by auto
  from wl.sync_law [OF 2(2,3)] obtain l2 w3 where
    3: "log_sync (l1, w2) = (Inr (), l2, w3)" "log_holds X w3 l2 1 [p]" "only_in d w2 w3" "log_dir l2 = d" "w_clean w3" using 2(5) by auto
  have only: "only_in d (empty_world d []) w3" using only_in_trans [OF only_in_trans [OF 1(4) 2(4)] 3(3)] .
  have ok: "fs_ok w3" "d \<in> set (w_dirs w3)" using 3(2,4) by (auto simp: log_holds_def log_ok_def segs_ok_def)
  have "w_disk w3 = Map.empty" using only by (simp add: only_in_def empty_world_def)
  then have cr: "crash w3 (bare_world w3)" by (intro bare_world_crash [of "[]"]) simp_all
  have "w_clean (bare_world w3)" "d \<in> set (w_dirs (bare_world w3))" "\<And>p. w_find (bare_world w3) p = None"
    using 3(5) ok(2) by (simp_all add: bare_world_def)
  from log_open_fresh_run [OF this(1) crash_fs_ok [OF ok(1) cr] this(2,3), of X m] obtain l5 w5 where
    "log_open X d m (bare_world w3) = (Inr l5, w5)" "log_first_index l5 = 1" "log_last_index l5 = 0" by blast
  moreover from this have "log_is_empty l5" by (simp add: log_is_empty_def log_len_def)
  ultimately show ?thesis using 1(1) 2(1) 3(1) cr by blast
qed

theorem log_sync_loses_new_segment_witness:
  "\<exists>l w1 l1 w2 l2 w3 w4 l5 w5. log_open sample_ext [''wal''] 64 (empty_world [''wal''] []) = (Inr l, w1) \<and>
     log_append sample_ext [1, 2, 3] (l, w1) = (Inr 1, l1, w2) \<and> log_sync (l1, w2) = (Inr (), l2, w3) \<and> crash w3 w4 \<and>
     log_open sample_ext [''wal''] 64 w4 = (Inr l5, w5) \<and> log_is_empty l5"
  by (rule log_sync_loses_new_segment) (simp add: max_payload_eq)

text \<open>C25. \<open>truncate_suffix\<close> puts the records it keeps at risk. It removes the segment file and writes a new one of the same name, and syncs the
  new file but not the directory: although the log was durable before and the call has succeeded, with the kept records in the
  file and synced, a power failure may leave the directory without the file. The reopened log is empty.\<close>

theorem truncate_suffix_loses_kept:
  assumes "log_fits X 1 recs" and "unat keep < length recs"
  shows "\<exists>l1 w1 w2 l3 w3. log_truncate_suffix X keep (sample_log X d recs, sample_world X d recs []) = (Inr (), l1, w1) \<and> log_holds X w1 l1 1 (take (unat keep) recs) \<and>
     log_synced w1 l1 \<and> crash w1 w2 \<and> log_open X d m w2 = (Inr l3, w3) \<and> log_is_empty l3"
proof -
  define l where "l = sample_log X d recs"
  define w where "w = sample_world X d recs []"
  obtain s where l: "segments l = [s]" "log_first_index l = 1" "log_last_index l = of_nat (length recs)" "log_dir l = d" "seg_path s = segment_path d 1"
    "bw_buf (seg_writer s) = []" "seg_base_index s = 1" by (simp add: l_def sample_log_def)
  have w: "w_clean w" "w_pend w = []" "w_disk w = [segment_path d 1 \<mapsto> 0]" by (simp_all add: w_def sample_world_def file_world_def)
  have ok: "log_holds X w l 1 recs" "log_ok X w l [recs]" "log_synced w l" using sample_log_holds [OF assms(1)] sample_log_ok [OF assms(1)] by (simp_all add: l_def w_def)
  have len: "length recs + 1 < u64_bound" using assms(1) by (simp add: log_fits_def)
  from wl.truncate_suffix_law [OF ok(1,3) w(1), of keep] obtain l1 w1 where
    t: "log_truncate_suffix X keep (l, w) = (Inr (), l1, w1)" "log_holds X w1 l1 1 (take (unat keep) recs)" "log_synced w1 l1" "w_clean w1" "only_in d w w1" "log_dir l1 = d"
    using l(4) by auto
  have "segs_ok X w d 1 ([] @ [s]) ([] @ [recs])" "seg_synced w s" using ok(2,3) l by (auto simp: log_ok_def log_synced_def)
  from segs_rewrite_last [OF this w(1) refl _ refl, of keep] len obtain es w2 f w3 f' w' where
    2: "segment_iter s (survivors_loop X keep (seg_base_index s) []) w = (Inr (take (unat keep) recs), w\<lparr>w_events := es\<rparr>)"
      "segment_remove s (w\<lparr>w_events := es\<rparr>) = (Inr (), w2)" "segment_create (seg_path s) (seg_base_index s) w2 = (Inr f, w3)"
      "refill X (take (unat keep) recs) f w3 = (Inr f', w')" "only_in d w2 w'" by auto
  have "\<not> log_last_index l \<le> keep" using assms(2) len l(3) by (simp add: word_le_nat_alt u64_unat_of_nat)
  moreover have "unat (keep + 1) = Suc (unat keep)" using assms(2) len by (subst unat_u64_Suc) simp_all
  then have "\<not> keep + 1 < log_first_index l" using l(2) by (simp add: word_less_nat_alt)
  ultimately have "log_truncate_suffix X keep (l, w) = (Inr (), l\<lparr>segments := [f'], log_last_index := keep\<rparr>, w')"
    using 2(1-4) l(1) by (simp add: log_truncate_suffix_def andThen_def get_st_def outside_def modify_def Let_def pop_segments.simps)
  then have w1: "w1 = w'" using t(1) by simp
  have "w_pend w2 = [[(segment_path d 1, None)]]" using segment_remove_pend [OF 2(2)] l(5,6) w(2) by simp
  then have "subseq [[(segment_path d 1, None)]] (w_pend w1)" using 2(5) w1 by (auto simp: only_in_def)
  moreover have "apply_ops [[(segment_path d 1, None)]] (w_disk w1) = Map.empty" using t(5) w(3) by (auto simp: only_in_def)
  ultimately have cr: "crash w1 (bare_world w1)" by (rule bare_world_crash)
  have fs: "fs_ok w1" "d \<in> set (w_dirs w1)" using t(2,6) by (auto simp: log_holds_def log_ok_def segs_ok_def)
  have "w_clean (bare_world w1)" "d \<in> set (w_dirs (bare_world w1))" "\<And>p. w_find (bare_world w1) p = None" using t(4) fs(2) by (simp_all add: bare_world_def)
  from log_open_fresh_run [OF this(1) crash_fs_ok [OF fs(1) cr] this(2,3), of X m] obtain l3 w3 where
    "log_open X d m (bare_world w1) = (Inr l3, w3)" "log_first_index l3 = 1" "log_last_index l3 = 0" by blast
  moreover from this have "log_is_empty l3" by (simp add: log_is_empty_def log_len_def)
  ultimately show ?thesis using t(1-3) cr unfolding l_def w_def by blast
qed

theorem truncate_suffix_loses_kept_witness:
  "\<exists>l1 w1 w2 l3 w3. log_truncate_suffix sample_ext 2 (sample_log sample_ext [''wal''] [[1], [2], [3]], sample_world sample_ext [''wal''] [[1], [2], [3]] []) = (Inr (), l1, w1) \<and>
     log_holds sample_ext w1 l1 1 [[1], [2]] \<and> log_synced w1 l1 \<and> crash w1 w2 \<and> log_open sample_ext [''wal''] 64 w2 = (Inr l3, w3) \<and> log_is_empty l3"
  using truncate_suffix_loses_kept [of sample_ext "[[1], [2], [3]]" 2 "[''wal'']" 64] by (simp add: log_fits_def max_payload_eq HEADER_LEN_def)

end
