(* ===== verification/Raft_Core.thy ===== *)
theory Raft_Core
  imports Snapshot_Store Durable_Log
begin

text \<open>
  The consensus core, \<^verbatim>\<open>src/raft/mod.rs\<close> (the first half) and \<^verbatim>\<open>src/raft/lease.rs\<close>: one node's state, its reconstruction
  from disk, access to the log across the snapshot boundary, appending as leader, taking committed entries, compaction,
  the leader's read lease.
\<close>

section \<open>Model\<close>

record leader_lease =
  ll_duration :: nat
  ll_expiry :: "nat option"

definition lease_new :: "nat \<Rightarrow> leader_lease" where
  "lease_new duration = \<lparr>ll_duration = duration, ll_expiry = None\<rparr>"

definition lease_renew :: "nat \<Rightarrow> leader_lease \<Rightarrow> leader_lease" where
  "lease_renew now l = l\<lparr>ll_expiry := Some (now + ll_duration l)\<rparr>"

definition lease_is_valid :: "nat \<Rightarrow> leader_lease \<Rightarrow> bool" where
  "lease_is_valid now l = (case ll_expiry l of None \<Rightarrow> False | Some deadline \<Rightarrow> now < deadline)"

definition lease_invalidate :: "leader_lease \<Rightarrow> leader_lease" where
  "lease_invalidate l = l\<lparr>ll_expiry := None\<rparr>"

record raft_core =
  c_id :: u64
  c_peers :: "u64 list"
  c_cluster_size :: nat
  c_election_start :: nat
  c_election_end :: nat
  c_hard :: hard_state
  c_hard_path :: path
  c_log :: wal_log
  c_entries :: "log_entry list"
  c_snapshot :: snapshot_meta
  c_role :: role
  c_commit_index :: u64
  c_last_applied :: u64
  c_leader_id :: "u64 option"
  c_election_deadline :: nat
  c_next_index :: "u64 \<Rightarrow> u64 option"
  c_match_index :: "u64 \<Rightarrow> u64 option"
  c_lease :: leader_lease

type_synonym 'a core_io = "(error, raft_core \<times> world, 'a) prog"

abbreviation upd_core :: "(raft_core \<Rightarrow> raft_core) \<Rightarrow> unit core_io" where
  "upd_core f \<equiv> modify (map_prod f id)"

definition on_log :: "'a log_io \<Rightarrow> 'a core_io" where
  "on_log = zoom c_log (\<lambda>l c. c\<lparr>c_log := l\<rparr>)"

definition is_leader :: "raft_core \<Rightarrow> bool" where
  "is_leader c \<longleftrightarrow> c_role c = Leader"

definition current_term :: "raft_core \<Rightarrow> u64" where
  "current_term c = hs_term (c_hard c)"

definition core_quorum :: "raft_core \<Rightarrow> nat" where
  "core_quorum c = c_cluster_size c div 2 + 1"

definition base_index :: "raft_core \<Rightarrow> u64" where
  "base_index c = sm_index (c_snapshot c) + 1"

definition last_log_index :: "raft_core \<Rightarrow> u64" where
  "last_log_index c = (if c_entries c = [] then sm_index (c_snapshot c) else le_index (last (c_entries c)))"

definition last_log_term :: "raft_core \<Rightarrow> u64" where
  "last_log_term c = (if c_entries c = [] then sm_term (c_snapshot c) else le_term (last (c_entries c)))"

text \<open>\<open>slice::get\<close>.\<close>

definition get_nth :: "'a list \<Rightarrow> nat \<Rightarrow> 'a option" where
  "get_nth xs n = (if n < length xs then Some (xs ! n) else None)"

definition term_at :: "raft_core \<Rightarrow> u64 \<Rightarrow> u64 option" where
  "term_at c index =
     (if index = sm_index (c_snapshot c) then Some (sm_term (c_snapshot c))
      else if index < base_index c then None
      else map_option le_term (get_nth (c_entries c) (unat (index - base_index c))))"

definition entry_at :: "raft_core \<Rightarrow> u64 \<Rightarrow> log_entry option" where
  "entry_at c index =
     (if index < base_index c then None else get_nth (c_entries c) (unat (index - base_index c)))"

definition entries_from :: "raft_core \<Rightarrow> u64 \<Rightarrow> log_entry list" where
  "entries_from c from_index =
     (if from_index < base_index c then c_entries c
      else let start = unat (from_index - base_index c) in
        if start \<le> length (c_entries c) then drop start (c_entries c) else [])"

definition append_command :: "('x) ext_node_scheme \<Rightarrow> command \<Rightarrow> log_entry core_io" where
  "append_command X command = andThen get_st (\<lambda>(c, _).
     if c_role c \<noteq> Leader then throw (error_raft ''only the leader may append commands'') else
     let index = last_log_index c + 1; entry = \<lparr>le_term = hs_term (c_hard c), le_index = index, le_command = command\<rparr> in
     case x_ser_entry X entry of None \<Rightarrow> throw Encode | Some bytes \<Rightarrow>
     andThen (on_log (log_append X bytes)) (\<lambda>wal_index.
     andThen (upd_core (\<lambda>c. c\<lparr>c_entries := c_entries c @ [entry]\<rparr>)) (\<lambda>_.
     ret entry)))"

definition core_sync :: "unit core_io" where
  "core_sync = on_log log_sync"

definition persist_hard :: "('x) ext_node_scheme \<Rightarrow> unit core_io" where
  "persist_hard X = andThen get_st (\<lambda>(c, _). outside (hard_persist X (c_hard c) (c_hard_path c)))"

text \<open>The loop ends: \<open>last_applied\<close> climbs towards \<open>commit_index\<close>.\<close>

function take_committed :: "raft_core \<Rightarrow> log_entry list \<times> raft_core" where
  "take_committed c =
     (if c_last_applied c < c_commit_index c then
        let next = c_last_applied c + 1 in
        case entry_at c next of
          Some entry \<Rightarrow> (case take_committed (c\<lparr>c_last_applied := next\<rparr>) of (out, c') \<Rightarrow> (entry # out, c'))
        | None \<Rightarrow> ([], c)
      else ([], c))"
  by pat_completeness auto

termination
proof (relation "measure (\<lambda>c. unat (c_commit_index c) - unat (c_last_applied c))", simp)
  fix c :: raft_core and n e
  assume "c_last_applied c < c_commit_index c" and n: "n = c_last_applied c + 1"
  then have "unat n = unat (c_last_applied c) + 1" by (simp add: unat_u64_next)
  moreover have "unat (c_last_applied c) < unat (c_commit_index c)" using \<open>c_last_applied c < c_commit_index c\<close> by (simp add: word_less_nat_alt)
  ultimately show "(c\<lparr>c_last_applied := n\<rparr>, c) \<in> measure (\<lambda>c. unat (c_commit_index c) - unat (c_last_applied c))" by simp
qed

declare take_committed.simps [simp del]

definition compact :: "snapshot_meta \<Rightarrow> unit core_io" where
  "compact meta = andThen get_st (\<lambda>(c, _).
     if sm_index meta \<le> sm_index (c_snapshot c) then ret () else
     andThen (upd_core (\<lambda>c. c\<lparr>c_entries := filter (\<lambda>e. sm_index meta < le_index e) (c_entries c)\<rparr>)) (\<lambda>_.
     andThen (on_log (log_truncate_prefix (sm_index meta + 1))) (\<lambda>_.
     upd_core (\<lambda>c. c\<lparr>c_snapshot := meta\<rparr>))))"

definition renew_lease :: "nat \<Rightarrow> raft_core \<Rightarrow> raft_core" where
  "renew_lease now c = (if is_leader c then c\<lparr>c_lease := lease_renew now (c_lease c)\<rparr> else c)"

definition can_serve_local_read :: "nat \<Rightarrow> raft_core \<Rightarrow> bool" where
  "can_serve_local_read now c \<longleftrightarrow> is_leader c \<and> lease_is_valid now (c_lease c)"

text \<open>Arming the election timer (\<^verbatim>\<open>election.rs\<close>); it panics when the range of timeouts is empty in milliseconds.\<close>

definition reset_election_timer :: "('x) ext_scheme \<Rightarrow> unit core_io" where
  "reset_election_timer X = andThen get_st (\<lambda>(c, _).
     andThen (outside (gen_range X (as_millis (c_election_start c)) (as_millis (c_election_end c)))) (\<lambda>ms.
     andThen (outside (instant_now X)) (\<lambda>now.
     upd_core (\<lambda>c. c\<lparr>c_election_deadline := now + from_millis ms\<rparr>))))"

text \<open>The loop of \<open>restore\<close> over the records of the log.\<close>

fun decode_entries :: "('x) ext_node_scheme \<Rightarrow> u64 \<Rightarrow> (u64 \<times> bytes) list \<Rightarrow> error + log_entry list" where
  "decode_entries X low [] = Inr []"
| "decode_entries X low ((index, bytes) # rs) =
     (if index \<le> low then decode_entries X low rs
      else case x_de_entry X bytes of None \<Rightarrow> Inl Encode
        | Some entry \<Rightarrow> (case decode_entries X low rs of Inl e \<Rightarrow> Inl e | Inr es \<Rightarrow> Inr (entry # es)))"

definition lift_sum :: "error + 'a \<Rightarrow> (error, 's, 'a) prog" where
  "lift_sum r s = (r, s)"

definition restore :: "('x) ext_node_scheme \<Rightarrow> config \<Rightarrow> snapshot_meta \<Rightarrow> wal_log \<Rightarrow> raft_core io" where
  "restore X cfg snapshot log =
     andThen (hard_load X (hard_state_path cfg)) (\<lambda>hard.
     andThen (log_read_all X log) (\<lambda>records.
     andThen (lift_sum (decode_entries X (sm_index snapshot) records)) (\<lambda>entries.
     andThen (instant_now X) (\<lambda>now.
     let core = \<lparr>c_id = cfg_id cfg, c_peers = map peer_id (cfg_peers cfg), c_cluster_size = cluster_size cfg,
       c_election_start = cfg_election_start cfg, c_election_end = cfg_election_end cfg,
       c_hard = hard, c_hard_path = hard_state_path cfg, c_log = log, c_entries = entries, c_snapshot = snapshot,
       c_role = Follower, c_commit_index = sm_index snapshot, c_last_applied = sm_index snapshot, c_leader_id = None,
       c_election_deadline = now, c_next_index = Map.empty, c_match_index = Map.empty,
       c_lease = lease_new (cfg_election_start cfg div 2)\<rparr>
     in (\<lambda>w. case reset_election_timer X (core, w) of
          (Inl e, (_, w')) \<Rightarrow> (Inl e, w') | (Inr _, (core', w')) \<Rightarrow> (Inr core', w'))))))"

section \<open>On a healthy disk\<close>

lemma timer_run:
  assumes "as_millis (c_election_start c) < as_millis (c_election_end c)" and "w_clean w"
  shows "\<exists>d w'. reset_election_timer X (c, w) = (Inr (), c\<lparr>c_election_deadline := d\<rparr>, w') \<and> w_clean w'"
  using assms by (auto simp: reset_election_timer_def andThen_def get_st_def outside_def gen_range_def instant_now_def modify_def)

lemma persist_hard_run:
  assumes "hard_file X w (c_hard_path c) hs" and "codec (x_ser_hard X) (x_de_hard X) UNIV" and "w_clean w"
  shows "\<exists>w'. persist_hard X (c, w) = (Inr (), c, w') \<and> w_clean w'"
  using hard_persist_run [OF assms, of "c_hard c"] by (auto simp: persist_hard_def andThen_def get_st_def outside_def)

section \<open>A sample core\<close>

text \<open>Node 1 of the cluster 1, 2, 3, on which witnesses are evaluated.\<close>

definition sample_core :: "role \<Rightarrow> hard_state \<Rightarrow> log_entry list \<Rightarrow> raft_core" where
  "sample_core r hard es = \<lparr>c_id = 1, c_peers = [2, 3], c_cluster_size = 3, c_election_start = from_millis 150, c_election_end = from_millis 300,
     c_hard = hard, c_hard_path = [''d'', ''hard_state''], c_log = sample_log sample_node [''d'', ''wal''] (map enc_entry es), c_entries = es,
     c_snapshot = default_meta, c_role = r, c_commit_index = 0, c_last_applied = 0, c_leader_id = None, c_election_deadline = 0,
     c_next_index = Map.empty, c_match_index = Map.empty, c_lease = lease_new (from_millis 75)\<rparr>"

end
