(* ===== verification/Raft_Election.thy ===== *)
theory Raft_Election
  imports Raft_Core
begin

text \<open>
  Elections, \<^verbatim>\<open>src/raft/election.rs\<close>: the changes of role and both sides of a vote.
\<close>

section \<open>Model\<close>

record request_vote_args =
  rv_term :: u64
  rv_candidate_id :: u64
  rv_last_log_index :: u64
  rv_last_log_term :: u64

record request_vote_reply =
  rvr_term :: u64
  rvr_vote_granted :: bool

definition election_timed_out :: "raft_core \<Rightarrow> nat \<Rightarrow> bool" where
  "election_timed_out c now \<longleftrightarrow> c_election_deadline c \<le> now"

definition become_follower :: "('x) ext_node_scheme \<Rightarrow> u64 \<Rightarrow> u64 option \<Rightarrow> unit core_io" where
  "become_follower X term leader = andThen get_st (\<lambda>(c, _).
     andThen (if hs_term (c_hard c) < term then
         andThen (upd_core (\<lambda>c. c\<lparr>c_hard := \<lparr>hs_term = term, hs_voted_for = None\<rparr>\<rparr>)) (\<lambda>_. persist_hard X)
       else ret ()) (\<lambda>_.
     upd_core (\<lambda>c. c\<lparr>c_role := Follower, c_leader_id := leader, c_lease := lease_invalidate (c_lease c)\<rparr>)))"

definition become_candidate :: "('x) ext_node_scheme \<Rightarrow> request_vote_args core_io" where
  "become_candidate X =
     andThen (upd_core (\<lambda>c. c\<lparr>c_role := Candidate, c_hard := \<lparr>hs_term = hs_term (c_hard c) + 1, hs_voted_for = Some (c_id c)\<rparr>\<rparr>)) (\<lambda>_.
     andThen (persist_hard X) (\<lambda>_.
     andThen (upd_core (\<lambda>c. c\<lparr>c_leader_id := None\<rparr>)) (\<lambda>_.
     andThen (reset_election_timer X) (\<lambda>_.
     andThen get_st (\<lambda>(c, _).
     ret \<lparr>rv_term = hs_term (c_hard c), rv_candidate_id = c_id c, rv_last_log_index = last_log_index c, rv_last_log_term = last_log_term c\<rparr>)))))"

definition become_leader :: "raft_core \<Rightarrow> raft_core" where
  "become_leader c =
     (let next = last_log_index c + 1 in
      c\<lparr>c_role := Leader, c_leader_id := Some (c_id c),
        c_next_index := fold (\<lambda>peer m. m(peer \<mapsto> next)) (c_peers c) Map.empty,
        c_match_index := fold (\<lambda>peer m. m(peer \<mapsto> 0)) (c_peers c) Map.empty\<rparr>)"

text \<open>\<open>theirs >= ours\<close> on pairs of term and index.\<close>

definition up_to_date :: "u64 \<times> u64 \<Rightarrow> u64 \<times> u64 \<Rightarrow> bool" where
  "up_to_date theirs ours \<longleftrightarrow> fst ours < fst theirs \<or> fst ours = fst theirs \<and> snd ours \<le> snd theirs"

definition handle_request_vote :: "('x) ext_node_scheme \<Rightarrow> request_vote_args \<Rightarrow> request_vote_reply core_io" where
  "handle_request_vote X args = andThen get_st (\<lambda>(c, _).
     if rv_term args < hs_term (c_hard c) then ret \<lparr>rvr_term = hs_term (c_hard c), rvr_vote_granted = False\<rparr> else
     andThen (if hs_term (c_hard c) < rv_term args then become_follower X (rv_term args) None else ret ()) (\<lambda>_.
     andThen get_st (\<lambda>(c, _).
     let log_ok = up_to_date (rv_last_log_term args, rv_last_log_index args) (last_log_term c, last_log_index c);
         free_to_vote = (hs_voted_for (c_hard c) = None \<or> hs_voted_for (c_hard c) = Some (rv_candidate_id args));
         vote_granted = (log_ok \<and> free_to_vote) in
     andThen (if vote_granted then
         andThen (upd_core (\<lambda>c. c\<lparr>c_hard := (c_hard c)\<lparr>hs_voted_for := Some (rv_candidate_id args)\<rparr>\<rparr>)) (\<lambda>_.
         andThen (persist_hard X) (\<lambda>_.
         reset_election_timer X))
       else ret ()) (\<lambda>_.
     andThen get_st (\<lambda>(c, _).
     ret \<lparr>rvr_term = hs_term (c_hard c), rvr_vote_granted = vote_granted\<rparr>)))))"

end
