(* ===== verification/Raft_Replication.thy ===== *)
theory Raft_Replication
  imports Raft_Election
begin

text \<open>
  Log replication, \<^verbatim>\<open>src/raft/replication.rs\<close>: both sides of \<open>AppendEntries\<close>, the leader's bookkeeping about its peers, and
  the rule by which an entry becomes committed.
\<close>

section \<open>Model\<close>

record append_entries_args =
  ae_term :: u64
  ae_leader_id :: u64
  ae_prev_log_index :: u64
  ae_prev_log_term :: u64
  ae_entries :: "log_entry list"
  ae_leader_commit :: u64

record append_entries_reply =
  aer_term :: u64
  aer_success :: bool
  aer_conflict_index :: u64

definition build_append_entries :: "raft_core \<Rightarrow> u64 \<Rightarrow> append_entries_args" where
  "build_append_entries c peer =
     (let next = or_default (last_log_index c + 1) (c_next_index c peer);
          prev_log_index = saturating_sub next 1;
          prev_log_term = or_default (sm_term (c_snapshot c)) (term_at c prev_log_index)
      in \<lparr>ae_term = hs_term (c_hard c), ae_leader_id = c_id c, ae_prev_log_index = prev_log_index, ae_prev_log_term = prev_log_term,
          ae_entries = entries_from c next, ae_leader_commit = c_commit_index c\<rparr>)"

definition truncate_from :: "('x) ext_node_scheme \<Rightarrow> u64 \<Rightarrow> unit core_io" where
  "truncate_from X index =
     andThen (upd_core (\<lambda>c. c\<lparr>c_entries := filter (\<lambda>e. le_index e < index) (c_entries c)\<rparr>)) (\<lambda>_.
     on_log (log_truncate_suffix X (saturating_sub index 1)))"

definition append_replicated :: "('x) ext_node_scheme \<Rightarrow> log_entry \<Rightarrow> unit core_io" where
  "append_replicated X entry = (case x_ser_entry X entry of None \<Rightarrow> throw Encode | Some bytes \<Rightarrow>
     andThen (on_log (log_append X bytes)) (\<lambda>wal_index.
     upd_core (\<lambda>c. c\<lparr>c_entries := c_entries c @ [entry]\<rparr>)))"

definition reject :: "raft_core \<Rightarrow> u64 \<Rightarrow> append_entries_reply" where
  "reject c conflict_index = \<lparr>aer_term = hs_term (c_hard c), aer_success = False, aer_conflict_index = conflict_index\<rparr>"

text \<open>The body of the loop over the entries.\<close>

definition splice_entry :: "('x) ext_node_scheme \<Rightarrow> log_entry \<Rightarrow> unit core_io" where
  "splice_entry X entry = andThen get_st (\<lambda>(c, _).
     if le_index entry < base_index c then ret ()
     else case term_at c (le_index entry) of
       Some t \<Rightarrow> if t = le_term entry then ret ()
         else andThen (truncate_from X (le_index entry)) (\<lambda>_. append_replicated X entry)
     | None \<Rightarrow> append_replicated X entry)"

definition handle_append_entries :: "('x) ext_node_scheme \<Rightarrow> append_entries_args \<Rightarrow> append_entries_reply core_io" where
  "handle_append_entries X args = andThen get_st (\<lambda>(c, _).
     if ae_term args < hs_term (c_hard c) then ret (reject c 0) else
     andThen (if hs_term (c_hard c) < ae_term args then become_follower X (ae_term args) (Some (ae_leader_id args))
       else upd_core (\<lambda>c. c\<lparr>c_role := Follower, c_leader_id := Some (ae_leader_id args)\<rparr>)) (\<lambda>_.
     andThen (reset_election_timer X) (\<lambda>_.
     andThen get_st (\<lambda>(c, _).
     if last_log_index c < ae_prev_log_index args then ret (reject c (last_log_index c + 1))
     else if term_at c (ae_prev_log_index args) \<notin> {None, Some (ae_prev_log_term args)} then ret (reject c (ae_prev_log_index args))
     else
       andThen (for_each (ae_entries args) (splice_entry X)) (\<lambda>_.
       andThen core_sync (\<lambda>_.
       andThen (upd_core (\<lambda>c. if c_commit_index c < ae_leader_commit args
           then c\<lparr>c_commit_index := min (ae_leader_commit args) (last_log_index c)\<rparr> else c)) (\<lambda>_.
       andThen get_st (\<lambda>(c, _).
       ret \<lparr>aer_term = hs_term (c_hard c), aer_success = True, aer_conflict_index = 0\<rparr>))))))))"

text \<open>The commit rule; indexing past the end of the sorted match indices would panic.\<close>

definition advance_commit_index :: "unit core_io" where
  "advance_commit_index = andThen get_st (\<lambda>(c, _).
     let matches = rev (sort (map (\<lambda>p. or_default 0 (c_match_index c p)) (c_peers c) @ [last_log_index c])) in
     case get_nth matches (core_quorum c - 1) of None \<Rightarrow> throw (Panic ''index out of bounds'')
     | Some candidate \<Rightarrow> upd_core (\<lambda>c. if c_commit_index c < candidate \<and> term_at c candidate = Some (hs_term (c_hard c))
         then c\<lparr>c_commit_index := candidate\<rparr> else c))"

definition on_append_entries_reply :: "u64 \<Rightarrow> u64 \<Rightarrow> append_entries_reply \<Rightarrow> unit core_io" where
  "on_append_entries_reply peer last_sent reply = andThen get_st (\<lambda>(c, _).
     if c_role c \<noteq> Leader then ret ()
     else if aer_success reply then
       andThen (upd_core (\<lambda>c. c\<lparr>c_match_index := (c_match_index c)(peer \<mapsto> last_sent),
                               c_next_index := (c_next_index c)(peer \<mapsto> last_sent + 1)\<rparr>)) (\<lambda>_.
       advance_commit_index)
     else
       let current = or_default 1 (c_next_index c peer);
           hint = (if 0 < aer_conflict_index reply then aer_conflict_index reply else saturating_sub current 1);
           backed_off = max (min hint (saturating_sub current 1)) 1 in
       upd_core (\<lambda>c. c\<lparr>c_next_index := (c_next_index c)(peer \<mapsto> backed_off)\<rparr>))"

end
