(* ===== verification/Raft_Driver.thy ===== *)
theory Raft_Driver
  imports Raft_Replication
begin

text \<open>
  The driver, \<^verbatim>\<open>src/raft/mod.rs\<close> (the second half). Every stretch of code that holds the lock of the core is one atomic step.
  Where the driver waits, a schedule says what happens meanwhile: answers of peers in the order they arrive, and what other
  tasks did to the node in between, as a function on its state. A schedule is not bound to the configured peers; a theorem that
  needs its events to come from them, or from nobody, says so.
\<close>

section \<open>Model\<close>

record node =
  n_core :: raft_core
  n_store :: store
  n_commit :: u64               \<comment> \<open>the value in the watch channel\<close>
  n_heartbeat_interval :: nat

type_synonym 'a node_io = "(error, node \<times> world, 'a) prog"
type_synonym others = "node \<times> world \<Rightarrow> node \<times> world"

definition on_core :: "'a core_io \<Rightarrow> 'a node_io" where
  "on_core = zoom n_core (\<lambda>c n. n\<lparr>n_core := c\<rparr>)"

definition on_store :: "'a store_io \<Rightarrow> 'a node_io" where
  "on_store = zoom n_store (\<lambda>s n. n\<lparr>n_store := s\<rparr>)"

definition ask_core :: "(raft_core \<Rightarrow> 'a) \<Rightarrow> 'a node_io" where
  "ask_core f = andThen get_st (\<lambda>(n, _). ret (f (n_core n)))"

definition bootstrap :: "('x) ext_node_scheme \<Rightarrow> config \<Rightarrow> node io" where
  "bootstrap X cfg =
     andThen (store_open X cfg) (\<lambda>store.
     andThen (log_open X (wal_dir cfg) (cfg_segment_max_bytes cfg)) (\<lambda>log.
     andThen (restore X cfg (st_last_snapshot store) log) (\<lambda>core.
     ret \<lparr>n_core = core, n_store = store, n_commit = c_commit_index core, n_heartbeat_interval = cfg_heartbeat_interval cfg\<rparr>)))"

subsection \<open>Elections\<close>

datatype vote_event = Voted "error + request_vote_reply" | VoteOthers others

text \<open>What the winner does before it releases the lock.\<close>

definition take_office :: "('x) ext_node_scheme \<Rightarrow> unit core_io" where
  "take_office X =
     andThen (upd_core become_leader) (\<lambda>_.
     andThen (append_command X Noop) (\<lambda>_.
     andThen core_sync (\<lambda>_.
     advance_commit_index)))"

fun gather_votes :: "('x) ext_node_scheme \<Rightarrow> u64 \<Rightarrow> nat \<Rightarrow> vote_event list \<Rightarrow> unit node_io" where
  "gather_votes X term votes [] = ret ()"
| "gather_votes X term votes (VoteOthers other # evs) = andThen (modify other) (\<lambda>_. gather_votes X term votes evs)"
| "gather_votes X term votes (Voted (Inl e) # evs) = gather_votes X term votes evs"
| "gather_votes X term votes (Voted (Inr reply) # evs) = andThen (ask_core id) (\<lambda>c.
     if current_term c < rvr_term reply then on_core (become_follower X (rvr_term reply) None)
     else if c_role c \<noteq> Candidate \<or> current_term c \<noteq> term then ret ()
     else if rvr_vote_granted reply then
       if core_quorum c \<le> votes + 1 then on_core (take_office X)
       else gather_votes X term (votes + 1) evs
     else gather_votes X term votes evs)"

text \<open>The peers' answers depend on what they are asked.\<close>

definition start_election :: "('x) ext_node_scheme \<Rightarrow> (request_vote_args \<Rightarrow> vote_event list) \<Rightarrow> unit node_io" where
  "start_election X answers =
     andThen (on_core (become_candidate X)) (\<lambda>args.
     andThen (ask_core current_term) (\<lambda>term.
     gather_votes X term 1 (answers args)))"

subsection \<open>Replication\<close>

text \<open>
  One round of \<open>AppendEntries\<close>: a peer's task builds its message when it gets the lock, later the peer's answer to that message
  arrives.
\<close>

datatype send_event = Built u64 | Answered u64 "append_entries_args \<Rightarrow> error + append_entries_reply" | SendOthers others

definition last_sent :: "append_entries_args \<Rightarrow> u64" where
  "last_sent args = ae_prev_log_index args + of_nat (length (ae_entries args))"

definition finish_round :: "('x) ext_scheme \<Rightarrow> nat \<Rightarrow> unit node_io" where
  "finish_round X acks = andThen (ask_core core_quorum) (\<lambda>quorum.
     if quorum \<le> acks then andThen (outside (instant_now X)) (\<lambda>now. on_core (upd_core (renew_lease now))) else ret ())"

fun broadcast_loop :: "('x) ext_node_scheme \<Rightarrow> u64 \<Rightarrow> nat \<Rightarrow> (u64 \<Rightarrow> append_entries_args option) \<Rightarrow> send_event list \<Rightarrow> unit node_io" where
  "broadcast_loop X term acks sent [] = finish_round X acks"
| "broadcast_loop X term acks sent (SendOthers other # evs) = andThen (modify other) (\<lambda>_. broadcast_loop X term acks sent evs)"
| "broadcast_loop X term acks sent (Built peer # evs) = andThen (ask_core id) (\<lambda>c.
     broadcast_loop X term acks (sent(peer \<mapsto> build_append_entries c peer)) evs)"
| "broadcast_loop X term acks sent (Answered peer answer # evs) =
     (case sent peer of None \<Rightarrow> broadcast_loop X term acks sent evs
      | Some args \<Rightarrow> (case answer args of
          Inl e \<Rightarrow> broadcast_loop X term acks (sent(peer := None)) evs
        | Inr reply \<Rightarrow> andThen (ask_core id) (\<lambda>c.
            if current_term c < aer_term reply then on_core (become_follower X (aer_term reply) None)
            else if \<not> is_leader c \<or> current_term c \<noteq> term then ret ()
            else andThen (on_core (on_append_entries_reply peer (last_sent args) reply)) (\<lambda>_.
              broadcast_loop X term (if aer_success reply then acks + 1 else acks) (sent(peer := None)) evs))))"

definition broadcast_append_entries :: "('x) ext_node_scheme \<Rightarrow> send_event list \<Rightarrow> unit node_io" where
  "broadcast_append_entries X evs = andThen (ask_core current_term) (\<lambda>term. broadcast_loop X term 1 Map.empty evs)"

subsection \<open>Applying\<close>

definition apply_entries :: "log_entry list \<Rightarrow> store \<Rightarrow> store" where
  "apply_entries = fold (\<lambda>entry. store_apply (le_index entry) (le_command entry))"

text \<open>The two arguments are what others do between the locked stretches: before the store is locked, and during the snapshot.\<close>

definition apply_committed :: "('x) ext_node_scheme \<Rightarrow> others \<Rightarrow> others \<Rightarrow> unit node_io" where
  "apply_committed X other1 other2 =
     andThen (\<lambda>(n, w). case take_committed (n_core n) of (out, c) \<Rightarrow> (Inr out, n\<lparr>n_core := c\<rparr>, w)) (\<lambda>committed.
     if committed = [] then ret () else
     andThen (modify other1) (\<lambda>_.
     andThen (modify (\<lambda>(n, w). (n\<lparr>n_store := apply_entries committed (n_store n)\<rparr>, w))) (\<lambda>_.
     andThen get_st (\<lambda>(n, _).
     andThen (if should_snapshot (n_store n) then
         andThen (ask_core (\<lambda>c. or_default 0 (term_at c (store_last_applied (n_store n))))) (\<lambda>term.
         andThen (on_store (store_snapshot X term)) (\<lambda>meta.
         andThen (modify other2) (\<lambda>_.
         on_core (compact meta))))
       else ret ()) (\<lambda>_.
     modify (\<lambda>(n, w). (n\<lparr>n_commit := le_index (last committed)\<rparr>, w)))))))"

subsection \<open>Proposals and the loop\<close>

definition propose :: "('x) ext_node_scheme \<Rightarrow> command \<Rightarrow> send_event list \<Rightarrow> others \<Rightarrow> others \<Rightarrow> u64 node_io" where
  "propose X command evs other1 other2 =
     andThen (ask_core is_leader) (\<lambda>leader.
     if \<not> leader then throw (error_raft ''not leader'') else
     andThen (on_core (append_command X command)) (\<lambda>entry.
     andThen (on_core core_sync) (\<lambda>_.
     andThen (on_core advance_commit_index) (\<lambda>_.
     andThen (\<lambda>s. (Inr (), snd (broadcast_append_entries X evs s))) (\<lambda>_.
     andThen (apply_committed X other1 other2) (\<lambda>_.
     ret (le_index entry)))))))"

datatype action = Elect | Replicate | Idle

record tick_schedule =
  ts_votes :: "request_vote_args \<Rightarrow> vote_event list"
  ts_sends :: "send_event list"
  ts_other1 :: others
  ts_other2 :: others

text \<open>A leader does not read the clock.\<close>

definition pick_action :: "('x) ext_scheme \<Rightarrow> action node_io" where
  "pick_action X = andThen (ask_core is_leader) (\<lambda>leader.
     if leader then ret Replicate else
     andThen (outside (instant_now X)) (\<lambda>now. ask_core (\<lambda>c. if election_timed_out c now then Elect else Idle)))"

definition tick :: "('x) ext_node_scheme \<Rightarrow> tick_schedule \<Rightarrow> unit node_io" where
  "tick X t =
     andThen (pick_action X) (\<lambda>action.
     andThen (case action of
         Elect \<Rightarrow> start_election X (ts_votes t)
       | Replicate \<Rightarrow> broadcast_append_entries X (ts_sends t)
       | Idle \<Rightarrow> ret ()) (\<lambda>_.
     apply_committed X (ts_other1 t) (ts_other2 t)))"

text \<open>The loop of \<open>run\<close>, as many ticks as there are schedules; errors are logged and forgotten.\<close>

primrec run_ticks :: "('x) ext_node_scheme \<Rightarrow> (others \<times> tick_schedule) list \<Rightarrow> node \<times> world \<Rightarrow> node \<times> world" where
  "run_ticks X [] s = s"
| "run_ticks X (t # ts) s = run_ticks X ts (snd (tick X (snd t) (fst t s)))"

definition tick_interval :: "nat \<Rightarrow> nat" where
  "tick_interval heartbeat_interval = max (heartbeat_interval div 2) (from_millis 5)"

end
