(* ===== verification/Wal_Frame.thy ===== *)
theory Wal_Frame
  imports World_Frame Wal_Log
begin

text \<open>
  The log stays in its directory: whatever fails, none of its operations touches a path or a file of another component.
\<close>

section \<open>Buffered writers\<close>

definition writer_apart :: "path set \<Rightarrow> nat set \<Rightarrow> world \<Rightarrow> bufw \<times> world \<Rightarrow> bool" where
  "writer_apart S I w0 = (\<lambda>(b, w). spares S I w0 w \<and> bw_ino b \<notin> I)"

lemma writer_apart_write_all:
  "writer_apart S I w0 (b, w) \<Longrightarrow> file_write_all (bw_ino b) pos bs w = (r, n, w') \<Longrightarrow> spares S I w0 w'"
  using keeps_file_write_all by (auto simp: writer_apart_def)

lemma preserves_bw [preserves_intros]:
  "preserves (writer_apart S I w0) bw_flush anything"
  "preserves (writer_apart S I w0) (bw_direct bs) anything"
  "preserves (writer_apart S I w0) (bw_push bs) anything"
  using writer_apart_write_all [of S I w0]
  by (auto simp: preserves_def bw_flush_def bw_direct_def bw_push_def modify_def split: prod.splits)
    (auto simp: writer_apart_def)

lemma preserves_bw_sync_all [preserves_intros]: "preserves (writer_apart S I w0) bw_sync_all anything"
  unfolding preserves_def
proof (intro allI impI conjI TrueI)
  fix s assume "writer_apart S I w0 s"
  then obtain b w where s: "s = (b, w)" "spares S I w0 w" "bw_ino b \<notin> I" by (auto simp: writer_apart_def)
  obtain r w' where "sync_all (bw_ino b) w = (r, w')" by (cases "sync_all (bw_ino b) w")
  moreover have "spares S I w0 w'"
    using preservesD [OF preserves_spares_file(1) s(2) calculation] s(3) by simp
  ultimately show "writer_apart S I w0 (snd (bw_sync_all s))" using s by (simp add: bw_sync_all_def writer_apart_def)
qed

lemma preserves_bw_seek_end [preserves_intros]: "preserves (writer_apart S I w0) bw_seek_end anything"
  unfolding bw_seek_end_def
proof (rule preserves_andThen_anything [OF preserves_bw(1)])
  fix x :: unit
  show "preserves (writer_apart S I w0) (\<lambda>(b, w). case file_len (bw_ino b) w of
       (Inl e, w') \<Rightarrow> (Inl e, b, w') | (Inr n, w') \<Rightarrow> (Inr (), b\<lparr>bw_pos := n\<rparr>, w')) anything"
    using preservesD [OF preserves_spares_pure(3)] by (fastforce simp: preserves_def writer_apart_def split: prod.splits sum.splits)
qed

lemma preserves_bw_write_all [preserves_intros]: "preserves (writer_apart S I w0) (bw_write_all X bs) anything"
  unfolding bw_write_all_def Let_def by (intro preserves_intros) auto

lemma preserves_write_record [preserves_intros]:
  "preserves (writer_apart S I w0) (write_record X (bw_write_all X) payload) anything"
  unfolding write_record_def Let_def by (intro preserves_intros) auto

lemma spares_bw_drop: "writer_apart S I w0 (b, w) \<Longrightarrow> spares S I w0 (bw_drop b w)"
  by (cases "bw_flush (b, w)") (use preservesD [OF preserves_bw(1), of S I w0 "(b, w)"] in \<open>auto simp: bw_drop_def writer_apart_def\<close>)

section \<open>Segments\<close>

definition segment_apart :: "path set \<Rightarrow> nat set \<Rightarrow> segment \<Rightarrow> bool" where
  "segment_apart S I s \<longleftrightarrow> bw_ino (seg_writer s) \<notin> I \<and> seg_path s \<notin> S"

definition segment_keeps :: "path set \<Rightarrow> nat set \<Rightarrow> world \<Rightarrow> segment \<times> world \<Rightarrow> bool" where
  "segment_keeps S I w0 = (\<lambda>(s, w). spares S I w0 w \<and> segment_apart S I s)"

lemma preserves_on_writer:
  assumes "preserves (writer_apart S I w0) m R"
  shows "preserves (segment_keeps S I w0) (on_writer m) R"
proof (rule preservesI)
  fix s assume "segment_keeps S I w0 s"
  then obtain t w where s: "s = (t, w)" "writer_apart S I w0 (seg_writer t, w)" "seg_path t \<notin> S"
    by (auto simp: segment_keeps_def segment_apart_def writer_apart_def)
  show "wp (on_writer m) (\<lambda>x s'. segment_keeps S I w0 s' \<and> R x) (\<lambda>_. segment_keeps S I w0) s"
    using wp_conseq [OF preserves_wp [OF assms s(2)]] s(3)
    by (auto simp: s(1) segment_keeps_def segment_apart_def writer_apart_def intro!: wp_conseq [OF preserves_wp [OF assms s(2)]])
qed

lemma preserves_segment_append [preserves_intros]: "preserves (segment_keeps S I w0) (segment_append X payload) anything"
  unfolding segment_append_def
  by (intro preserves_intros preserves_on_writer) (auto simp: segment_keeps_def segment_apart_def)

lemma preserves_segment_sync [preserves_intros]: "preserves (segment_keeps S I w0) segment_sync anything"
  unfolding segment_sync_def by (intro preserves_intros preserves_on_writer)

lemma preserves_segment_create:
  "p \<notin> S \<Longrightarrow> preserves (spares S I w0) (segment_create p base) (segment_apart S I)"
  unfolding segment_create_def
  by (rule preserves_andThen [OF preserves_spares_open(2)]) (auto intro!: preserves_ret simp: segment_apart_def bufw_new_def)

lemma preserves_segment_recover:
  assumes "p \<notin> S"
  shows "preserves (spares S I w0) (segment_recover X p base) (segment_apart S I)"
proof -
  have seek: "preserves (spares S I w0) (\<lambda>w. case bw_seek_end (bufw_new file2, w) of
          (Inl e, _, w') \<Rightarrow> (Inl e, w')
        | (Inr _, writer, w') \<Rightarrow> (Inr \<lparr>seg_base_index = base, seg_path = p, seg_writer = writer, seg_bytes = n, seg_count = k\<rparr>, w')) (segment_apart S I)"
    if "file2 \<notin> I" for file2 n k
    unfolding preserves_def
  proof (intro allI impI)
    fix w assume "spares S I w0 w"
    then have "writer_apart S I w0 (bufw_new file2, w)" using that by (simp add: writer_apart_def bufw_new_def)
    moreover obtain r b w' where b: "bw_seek_end (bufw_new file2, w) = (r, b, w')" by (cases "bw_seek_end (bufw_new file2, w)") auto
    ultimately have "spares S I w0 w'" "bw_ino b \<notin> I"
      using preservesD [OF preserves_bw_seek_end _ b] by (auto simp: writer_apart_def)
    then show "spares S I w0 (snd (case bw_seek_end (bufw_new file2, w) of
          (Inl e, _, w') \<Rightarrow> (Inl e, w')
        | (Inr _, writer, w') \<Rightarrow> (Inr \<lparr>seg_base_index = base, seg_path = p, seg_writer = writer, seg_bytes = n, seg_count = k\<rparr>, w'))) \<and>
      (\<forall>x. fst (case bw_seek_end (bufw_new file2, w) of
          (Inl e, _, w') \<Rightarrow> (Inl e, w')
        | (Inr _, writer, w') \<Rightarrow> (Inr \<lparr>seg_base_index = base, seg_path = p, seg_writer = writer, seg_bytes = n, seg_count = k\<rparr>, w')) = Inr x \<longrightarrow> segment_apart S I x)"
      using b assms by (auto simp: segment_apart_def split: sum.splits)
  qed
  show ?thesis
    unfolding segment_recover_def
    by (intro preserves_intros preserves_andThen [OF preserves_spares_open(1) [OF assms]] seek)
qed

lemma preserves_segment_iter [preserves_intros]:
  "segment_apart S I s \<Longrightarrow> preserves (spares S I w0) (segment_iter s body) anything"
  unfolding segment_iter_def
  by (rule preserves_andThen [OF preserves_spares_open(1)]) (auto simp: segment_apart_def intro: preserves_intros)

lemma preserves_segment_remove [preserves_intros]:
  assumes "segment_apart S I s"
  shows "preserves (spares S I w0) (segment_remove s) anything"
  unfolding preserves_def
proof (intro allI impI conjI TrueI)
  fix w assume w: "spares S I w0 w"
  obtain r w' where rm: "remove_file (seg_path s) w = (r, w')" by (cases "remove_file (seg_path s) w")
  have "spares S I w0 w'" using preservesD [OF preserves_spares_file(3) w rm] assms by (simp add: segment_apart_def)
  then show "spares S I w0 (snd (segment_remove s w))"
    using rm assms spares_bw_drop [of S I w0 "seg_writer s" w'] by (simp add: segment_remove_def writer_apart_def segment_apart_def)
qed

section \<open>The log\<close>

definition log_apart :: "path set \<Rightarrow> nat set \<Rightarrow> wal_log \<Rightarrow> bool" where
  "log_apart S I l \<longleftrightarrow> (\<forall>s\<in>set (segments l). segment_apart S I s) \<and> (\<forall>name. join_path (log_dir l) name \<notin> S)"

definition log_keeps :: "path set \<Rightarrow> nat set \<Rightarrow> world \<Rightarrow> wal_log \<times> world \<Rightarrow> bool" where
  "log_keeps S I w0 = (\<lambda>(l, w). spares S I w0 w \<and> log_apart S I l)"

lemma preserves_outside_log:
  assumes "preserves (spares S I w0) m R"
  shows "preserves (log_keeps S I w0) (outside m) R"
  using assms unfolding preserves_def outside_def log_keeps_def by (auto split: prod.splits)

lemma log_apart_butlast: "log_apart S I l \<Longrightarrow> log_apart S I (l\<lparr>segments := butlast (segments l)\<rparr>)"
  unfolding log_apart_def by (auto intro: in_set_butlastD)

lemma preserves_on_last:
  assumes "preserves (segment_keeps S I w0) m R"
  shows "preserves (log_keeps S I w0) (on_last m) R"
  unfolding preserves_def
proof (intro allI impI)
  fix s assume "log_keeps S I w0 s"
  then obtain l w where s: "s = (l, w)" "spares S I w0 w" "log_apart S I l" by (auto simp: log_keeps_def)
  show "log_keeps S I w0 (snd (on_last m s)) \<and> (\<forall>x. fst (on_last m s) = Inr x \<longrightarrow> R x)"
  proof (cases "segments l = []")
    case True
    then show ?thesis using s by (simp add: on_last_def log_keeps_def)
  next
    case False
    then have k: "segment_keeps S I w0 (last (segments l), w)" using s by (simp add: segment_keeps_def log_apart_def)
    obtain r t w' where m: "m (last (segments l), w) = (r, t, w')" by (cases "m (last (segments l), w)") auto
    have "spares S I w0 w'" "segment_apart S I t" using preservesD [OF assms k m] by (auto simp: segment_keeps_def)
    moreover have "R x" if "r = Inr x" for x using preserves_result [OF assms k] m that by simp
    ultimately show ?thesis using False s m by (auto simp: on_last_def log_keeps_def log_apart_def dest: in_set_butlastD)
  qed
qed

lemma preserves_log_rotate [preserves_intros]: "preserves (log_keeps S I w0) log_rotate anything"
proof -
  have "preserves (log_keeps S I w0) (andThen (outside (segment_create (segment_path (log_dir l) b) b))
      (\<lambda>s. modify (\<lambda>(l, w). (l\<lparr>segments := segments l @ [s]\<rparr>, w)))) anything" if "log_keeps S I w0 (l, w)" for l w b
  proof (rule preserves_andThen [OF preserves_outside_log [OF preserves_segment_create]])
    show "segment_path (log_dir l) b \<notin> S" using that by (simp add: log_keeps_def log_apart_def segment_path_def)
  qed (auto intro!: preserves_modify simp: log_keeps_def log_apart_def)
  then show ?thesis
    unfolding log_rotate_def Let_def by (intro preserves_read preserves_prod preserves_if preserves_throw preserves_ret) auto
qed

lemma preserves_log_append [preserves_intros]: "preserves (log_keeps S I w0) (log_append X payload) anything"
  unfolding log_append_def
  by (intro preserves_intros preserves_on_last) (auto simp: log_keeps_def log_apart_def)

lemma sync_segments_keeps:
  "spares S I w0 w \<Longrightarrow> \<forall>s\<in>set ss. segment_apart S I s \<Longrightarrow> sync_segments ss w = (r, ss', w') \<Longrightarrow>
   spares S I w0 w' \<and> (\<forall>s\<in>set ss'. segment_apart S I s)"
proof (induction ss arbitrary: w r ss' w')
  case (Cons s ss)
  obtain q t v where sync: "segment_sync (s, w) = (q, t, v)" by (cases "segment_sync (s, w)") auto
  have "segment_keeps S I w0 (t, v)"
    using preservesD [OF preserves_segment_sync _ sync, of S I w0] Cons.prems by (simp add: segment_keeps_def)
  then have k: "spares S I w0 v" "segment_apart S I t" by (simp_all add: segment_keeps_def)
  show ?case
  proof (cases q)
    case (Inl e)
    then show ?thesis using Cons.prems sync k by auto
  next
    case (Inr u)
    obtain r2 ss2 w2 where rest: "sync_segments ss v = (r2, ss2, w2)" by (cases "sync_segments ss v") auto
    then show ?thesis using Cons.IH [OF k(1) _ rest] Cons.prems sync k(2) Inr by auto
  qed
qed simp

lemma preserves_log_sync [preserves_intros]: "preserves (log_keeps S I w0) log_sync anything"
  unfolding preserves_def
proof (intro allI impI conjI TrueI)
  fix s assume "log_keeps S I w0 s"
  then obtain l w where s: "s = (l, w)" "spares S I w0 w" "log_apart S I l" by (auto simp: log_keeps_def)
  obtain r ss w' where "sync_segments (segments l) w = (r, ss, w')" by (cases "sync_segments (segments l) w") auto
  then show "log_keeps S I w0 (snd (log_sync s))"
    using sync_segments_keeps [OF s(2), of "segments l" r ss w'] s by (simp add: log_sync_def log_keeps_def log_apart_def)
qed

lemma preserves_read_segments:
  "\<forall>s\<in>set ss. segment_apart S I s \<Longrightarrow> preserves (spares S I w0) (read_segments X ss out) anything"
  by (induction ss arbitrary: out) (auto intro!: preserves_intros)

lemma preserves_log_read_all [preserves_intros]: "log_apart S I l \<Longrightarrow> preserves (spares S I w0) (log_read_all X l) anything"
  unfolding log_read_all_def by (rule preserves_read_segments) (simp add: log_apart_def)

lemma segment_remove_keeps:
  "spares S I w0 w \<Longrightarrow> segment_apart S I s \<Longrightarrow> segment_remove s w = (r, w') \<Longrightarrow> spares S I w0 w'"
  using preservesD [OF preserves_segment_remove] by blast

lemma shift_segments_keeps: "log_keeps S I w0 s \<Longrightarrow> log_keeps S I w0 (snd (shift_segments n s))"
proof (induction n s rule: shift_segments.induct)
  case (1 n l w)
  show ?case
  proof (cases "\<exists>s t ss. segments l = s # t # ss \<and> seg_base_index s + max (seg_count s) 1 - 1 < n")
    case True
    then obtain s t ss where ss: "segments l = s # t # ss" and low: "seg_base_index s + max (seg_count s) 1 - 1 < n" by blast
    obtain r w' where rm: "segment_remove s w = (r, w')" by (cases "segment_remove s w")
    have k: "log_keeps S I w0 (l\<lparr>segments := t # ss\<rparr>, w')"
      using 1(2) ss segment_remove_keeps [OF _ _ rm, of S I w0] by (simp add: log_keeps_def log_apart_def)
    show ?thesis
      using 1(1) [OF ss refl low rm [symmetric]] k ss low rm by (subst shift_segments.simps) (auto split: sum.splits)
  next
    case False
    then show ?thesis using 1(2) by (subst shift_segments.simps) (auto split: list.splits)
  qed
qed

lemma preserves_truncate_prefix [preserves_intros]: "preserves (log_keeps S I w0) (log_truncate_prefix n) anything"
  unfolding log_truncate_prefix_def
proof (rule preserves_andThen_anything)
  show "preserves (log_keeps S I w0) (shift_segments n) anything" using shift_segments_keeps by (auto simp: preserves_def)
qed (auto simp: preserves_def log_keeps_def log_apart_def)

lemma pop_segments_keeps: "log_keeps S I w0 s \<Longrightarrow> log_keeps S I w0 (snd (pop_segments n s))"
proof (induction n s rule: pop_segments.induct)
  case (1 n l w)
  show ?case
  proof (cases "1 < length (segments l) \<and> n < seg_base_index (last (segments l))")
    case True
    obtain r w' where rm: "segment_remove (last (segments l)) w = (r, w')" by (cases "segment_remove (last (segments l)) w")
    have "segments l \<noteq> []" using True by auto
    then have "segment_apart S I (last (segments l))" using 1(2) by (simp add: log_keeps_def log_apart_def)
    then have k: "log_keeps S I w0 (l\<lparr>segments := butlast (segments l)\<rparr>, w')"
      using 1(2) log_apart_butlast segment_remove_keeps [OF _ _ rm] by (simp add: log_keeps_def)
    show ?thesis
      using 1(1) [OF True rm [symmetric]] k True rm by (subst pop_segments.simps) (auto split: sum.splits)
  next
    case False
    then show ?thesis using 1(2) by (subst pop_segments.simps) (simp only: if_False snd_conv)
  qed
qed

lemma preserves_pop_segments [preserves_intros]: "preserves (log_keeps S I w0) (pop_segments n) anything"
  using pop_segments_keeps by (auto simp: preserves_def)

lemma preserves_refill:
  assumes "segment_apart S I fresh"
  shows "preserves (spares S I w0) (refill X survivors fresh) (segment_apart S I)"
  unfolding preserves_def
proof (intro allI impI)
  let ?m = "andThen (for_each survivors (segment_append X)) (\<lambda>_. segment_sync)"
  fix w assume "spares S I w0 w"
  then have k: "segment_keeps S I w0 (fresh, w)" using assms by (simp add: segment_keeps_def)
  obtain r t w' where m: "?m (fresh, w) = (r, t, w')" by (cases "?m (fresh, w)") auto
  have "preserves (segment_keeps S I w0) ?m anything" by (intro preserves_intros)
  from preservesD [OF this k m] have t: "spares S I w0 w'" "segment_apart S I t" by (simp_all add: segment_keeps_def)
  then have "spares S I w0 (bw_drop (seg_writer t) w')" by (intro spares_bw_drop) (simp add: writer_apart_def segment_apart_def)
  then show "spares S I w0 (snd (refill X survivors fresh w)) \<and> (\<forall>x. fst (refill X survivors fresh w) = Inr x \<longrightarrow> segment_apart S I x)"
    using m t by (auto simp: refill_def split: sum.splits)
qed

lemma preserves_truncate_suffix [preserves_intros]: "preserves (log_keeps S I w0) (log_truncate_suffix X n) anything"
proof -
  have new: "preserves (log_keeps S I w0) (modify (\<lambda>(l, w). (l\<lparr>segments := segments l @ [fresh], log_last_index := n\<rparr>, w))) anything"
    if "segment_apart S I fresh" for fresh
    using that by (intro preserves_modify) (auto simp: log_keeps_def log_apart_def)
  have rewrite: "preserves (log_keeps S I w0) (andThen (outside (segment_iter seg (survivors_loop X n (seg_base_index seg) []))) (\<lambda>survivors.
         andThen (modify (\<lambda>(l, w). (l\<lparr>segments := butlast (segments l)\<rparr>, w))) (\<lambda>_.
         andThen (outside (segment_remove seg)) (\<lambda>_.
         andThen (outside (segment_create (seg_path seg) (seg_base_index seg))) (\<lambda>fresh.
         andThen (outside (refill X survivors fresh)) (\<lambda>fresh.
         modify (\<lambda>(l, w). (l\<lparr>segments := segments l @ [fresh], log_last_index := n\<rparr>, w)))))))) anything"
    if "segment_apart S I seg" for seg
  proof -
    have "seg_path seg \<notin> S" using that by (simp add: segment_apart_def)
    then show ?thesis
      by (intro preserves_andThen_anything [OF preserves_outside_log [OF preserves_segment_iter [OF that]]]
        preserves_andThen_anything [OF preserves_modify] preserves_andThen_anything [OF preserves_outside_log [OF preserves_segment_remove [OF that]]]
        preserves_andThen [OF preserves_outside_log [OF preserves_segment_create]]
        preserves_andThen [OF preserves_outside_log [OF preserves_refill]] new)
        (auto simp: log_keeps_def log_apart_butlast)
  qed
  have "segment_apart S I (last (segments l))" if "log_keeps S I w0 (l, w)" "segments l \<noteq> []" for l w
    using that by (simp add: log_keeps_def log_apart_def)
  then show ?thesis
    unfolding log_truncate_suffix_def Let_def
    by (intro preserves_read preserves_prod preserves_if preserves_throw preserves_ret preserves_andThen_anything [OF preserves_pop_segments] rewrite) auto
qed

lemma preserves_log_open:
  assumes "\<And>name. join_path dir name \<notin> S"
  shows "preserves (spares S I w0) (log_open X dir max_bytes) (log_apart S I)"
proof -
  have p: "segment_path dir b \<notin> S" for b using assms by (simp add: segment_path_def)
  have disc: "preserves (spares S I w0) (discover_segments dir) anything"
    unfolding discover_segments_def by (intro preserves_intros) (simp add: preserves_def)
  have rec: "preserves (spares S I w0) (recover_segments X dir bs) (\<lambda>ss. \<forall>s\<in>set ss. segment_apart S I s)" for bs
  proof (induction bs)
    case (Cons b bs)
    show ?case
      unfolding recover_segments.simps
      by (intro preserves_andThen [OF preserves_segment_recover [OF p]] preserves_andThen [OF Cons] preserves_ret) auto
  qed (auto intro: preserves_ret)
  have one: "preserves (spares S I w0) (andThen (segment_create (segment_path dir 1) 1) (\<lambda>s. ret [s])) (\<lambda>ss. \<forall>s\<in>set ss. segment_apart S I s)"
    by (intro preserves_andThen [OF preserves_segment_create [OF p]] preserves_ret) auto
  show ?thesis
    unfolding log_open_def Let_def
  proof (intro preserves_andThen_anything [OF preserves_spares_pure(7)] preserves_andThen_anything [OF disc])
    fix found
    show "preserves (spares S I w0) (andThen (if sort found = [] then andThen (segment_create (segment_path dir 1) 1) (\<lambda>s. ret [s])
        else recover_segments X dir (sort found)) (\<lambda>segs. if segs = [] then throw unwrap_none
     else ret \<lparr>log_dir = dir, max_segment_bytes = max_bytes, segments = segs, log_first_index = seg_base_index (hd segs),
        log_last_index = (if seg_count (last segs) = 0 then seg_base_index (last segs) - 1 else seg_base_index (last segs) + seg_count (last segs) - 1)\<rparr>)) (log_apart S I)"
      by (rule preserves_andThen [where R = "\<lambda>ss. \<forall>s\<in>set ss. segment_apart S I s"])
        (use rec one assms in \<open>auto intro!: preserves_ret preserves_throw simp: log_apart_def\<close>)
  qed
qed

section \<open>Only allocated files\<close>

text \<open>The log writes to files that exist; the supply of file numbers only grows.\<close>

definition grown :: "nat \<Rightarrow> world \<Rightarrow> bool" where
  "grown n w \<longleftrightarrow> n \<le> w_next w"

lemma grown_syscall:
  assumes "\<And>w. grown n w \<Longrightarrow> grown n (snd (f w))"
  shows "preserves (grown n) (syscall f) anything"
  using assms by (auto simp: preserves_def syscall_def pop_event_def grown_def split: list.splits)

lemma preserves_grown [preserves_intros]:
  "preserves (grown n) (create_dir_all d) anything" "preserves (grown n) (read_dir d) anything"
  "preserves (grown n) (file_len i) anything" "preserves (grown n) (open_existing p) anything"
  "preserves (grown n) (open_create_new p) anything" "preserves (grown n) (set_len i k) anything"
  "preserves (grown n) (sync_all i) anything" "preserves (grown n) (remove_file p) anything"
  "preserves (grown n) (with_reader i m) anything"
  unfolding create_dir_all_def read_dir_def file_len_def open_existing_def open_create_new_def set_len_def sync_all_def remove_file_def
  by (rule grown_syscall; simp add: grown_def new_file_def split: option.splits)+
    (simp add: preserves_def with_reader_def grown_def split: prod.splits)

lemma file_write_all_next: "file_write_all i pos bs w = (r, k, w') \<Longrightarrow> w_next w' = w_next w"
  by (auto simp: file_write_all_def pop_event_def split: list.splits io_event.splits)

definition writer_grown :: "nat \<Rightarrow> nat \<Rightarrow> bufw \<times> world \<Rightarrow> bool" where
  "writer_grown n i = (\<lambda>(b, w). grown n w \<and> bw_ino b = i)"

lemma preserves_writer_grown [preserves_intros]:
  "preserves (writer_grown n i) bw_flush anything" "preserves (writer_grown n i) (bw_direct bs) anything"
  "preserves (writer_grown n i) (bw_push bs) anything" "preserves (writer_grown n i) bw_sync_all anything"
  by (auto simp: preserves_def writer_grown_def grown_def bw_flush_def bw_direct_def bw_push_def bw_sync_all_def modify_def
      sync_all_def syscall_def pop_event_def dest!: file_write_all_next split: prod.splits list.splits)

lemma preserves_writer_grown_write [preserves_intros]:
  "preserves (writer_grown n i) (bw_write_all X bs) anything"
  "preserves (writer_grown n i) (write_record X (bw_write_all X) payload) anything"
proof -
  show w: "preserves (writer_grown n i) (bw_write_all X bs) anything" for bs
    unfolding bw_write_all_def Let_def by (intro preserves_intros) auto
  show "preserves (writer_grown n i) (write_record X (bw_write_all X) payload) anything"
    unfolding write_record_def Let_def by (intro preserves_intros w) auto
qed

definition segment_grown :: "nat \<Rightarrow> nat \<Rightarrow> segment \<times> world \<Rightarrow> bool" where
  "segment_grown n i = (\<lambda>(s, w). grown n w \<and> bw_ino (seg_writer s) = i)"

lemma preserves_segment_grown [preserves_intros]:
  "preserves (segment_grown n i) (segment_append X payload) anything" "preserves (segment_grown n i) segment_sync anything"
proof -
  have z: "preserves (segment_grown n i) (on_writer m) anything" if "preserves (writer_grown n i) m anything" for m :: "'r bw_io"
    by (rule preserves_zoom) (use that in \<open>simp_all add: segment_grown_def writer_grown_def\<close>)
  show "preserves (segment_grown n i) segment_sync anything"
    unfolding segment_sync_def by (intro preserves_intros z)
  show "preserves (segment_grown n i) (segment_append X payload) anything"
    unfolding segment_append_def by (intro preserves_intros z) (auto simp: segment_grown_def)
qed

lemma segment_remove_next: "segment_remove s w = (r, w') \<Longrightarrow> w_next w' = w_next w"
  by (auto simp: segment_remove_def remove_file_def syscall_def pop_event_def bw_drop_def bw_flush_def
      split: prod.splits list.splits option.splits if_splits dest: file_write_all_next)

lemma segment_create_next: "segment_create p base w = (Inr s, w') \<Longrightarrow> bw_ino (seg_writer s) < w_next w' \<and> w_next w \<le> w_next w'"
  by (auto simp: segment_create_def open_create_new_def andThen_def syscall_def pop_event_def new_file_def ret_def bufw_new_def
      split: prod.splits list.splits option.splits if_splits sum.splits)

lemma segment_create_grows: "segment_create p base w = (r, w') \<Longrightarrow> w_next w \<le> w_next w'"
  by (auto simp: segment_create_def open_create_new_def andThen_def syscall_def pop_event_def new_file_def ret_def
      split: prod.splits list.splits option.splits if_splits sum.splits)

definition log_allocated :: "wal_log \<times> world \<Rightarrow> bool" where
  "log_allocated = (\<lambda>(l, w). \<forall>s\<in>set (segments l). bw_ino (seg_writer s) < w_next w)"

lemma preserves_on_last_allocated:
  assumes "\<And>n i. preserves (segment_grown n i) m anything"
  shows "preserves log_allocated (on_last m) anything"
  unfolding preserves_def
proof (intro allI impI conjI TrueI)
  fix s assume s: "log_allocated s"
  obtain l w where lw: "s = (l, w)" by (cases s)
  obtain r t w' where m: "m (last (segments l), w) = (r, t, w')" by (cases "m (last (segments l), w)") auto
  have "segment_grown (w_next w) (bw_ino (seg_writer (last (segments l)))) (t, w')"
    by (rule preservesD [OF assms _ m]) (simp add: segment_grown_def grown_def)
  then have t: "bw_ino (seg_writer t) = bw_ino (seg_writer (last (segments l)))" "w_next w \<le> w_next w'"
    by (simp_all add: segment_grown_def grown_def)
  show "log_allocated (snd (on_last m s))"
  proof (cases "segments l = []")
    case False
    then have "bw_ino (seg_writer u) < w_next w'" if "u \<in> set (segments l)" for u
      using s that t(2) by (fastforce simp: log_allocated_def lw)
    then have "bw_ino (seg_writer u) < w_next w'" if "u \<in> insert t (set (butlast (segments l)))" for u
      using that t(1) False by (auto dest: in_set_butlastD)
    then show ?thesis using False m by (simp add: on_last_def log_allocated_def lw)
  qed (use s lw in \<open>simp add: on_last_def\<close>)
qed

lemma sync_segments_allocated:
  "sync_segments ss w = (r, ss', w') \<Longrightarrow> map (\<lambda>s. bw_ino (seg_writer s)) ss' = map (\<lambda>s. bw_ino (seg_writer s)) ss \<and> w_next w \<le> w_next w'"
proof (induction ss arbitrary: w r ss' w')
  case (Cons s ss)
  obtain q t v where sync: "segment_sync (s, w) = (q, t, v)" by (cases "segment_sync (s, w)") auto
  have "segment_grown (w_next w) (bw_ino (seg_writer s)) (t, v)"
    by (rule preservesD [OF preserves_segment_grown(2) _ sync]) (simp add: segment_grown_def grown_def)
  then have t: "bw_ino (seg_writer t) = bw_ino (seg_writer s)" "w_next w \<le> w_next v" by (simp_all add: segment_grown_def grown_def)
  obtain r2 ss2 w2 where rest: "sync_segments ss v = (r2, ss2, w2)" by (cases "sync_segments ss v") auto
  show ?case using Cons.prems sync t Cons.IH [OF rest] rest by (cases q) auto
qed simp

lemma preserves_log_allocated_append [preserves_intros]: "preserves log_allocated (log_append X payload) anything"
proof -
  have rot: "preserves log_allocated log_rotate anything"
    unfolding preserves_def
  proof (intro allI impI conjI TrueI)
    fix s assume s: "log_allocated s"
    obtain l w where lw: "s = (l, w)" by (cases s)
    obtain r w' where c: "segment_create (segment_path (log_dir l) (log_last_index l + 1)) (log_last_index l + 1) w = (r, w')"
      by (cases "segment_create (segment_path (log_dir l) (log_last_index l + 1)) (log_last_index l + 1) w")
    show "log_allocated (snd (log_rotate s))"
      using s c segment_create_grows [OF c] segment_create_next [of "segment_path (log_dir l) (log_last_index l + 1)" "log_last_index l + 1" w _ w']
      by (cases r) (fastforce simp: lw log_rotate_def log_allocated_def andThen_def exec_simps outside_def Let_def)+
  qed
  show ?thesis
    unfolding log_append_def by (intro preserves_intros rot preserves_on_last_allocated) (auto simp: log_allocated_def)
qed

lemma preserves_log_allocated_sync [preserves_intros]: "preserves log_allocated log_sync anything"
  unfolding preserves_def
proof (intro allI impI conjI TrueI)
  fix s assume s: "log_allocated s"
  obtain l w where lw: "s = (l, w)" by (cases s)
  obtain r ss w' where sync: "sync_segments (segments l) w = (r, ss, w')" by (cases "sync_segments (segments l) w") auto
  have "\<forall>i\<in>set (map (\<lambda>s. bw_ino (seg_writer s)) ss). i < w_next w'"
    using s lw sync_segments_allocated [OF sync] by (fastforce simp: log_allocated_def)
  then show "log_allocated (snd (log_sync s))" using sync by (simp add: lw log_sync_def log_allocated_def)
qed

lemma shift_segments_allocated: "log_allocated s \<Longrightarrow> log_allocated (snd (shift_segments n s))"
proof (induction n s rule: shift_segments.induct)
  case (1 n l w)
  show ?case
  proof (cases "\<exists>s t ss. segments l = s # t # ss \<and> seg_base_index s + max (seg_count s) 1 - 1 < n")
    case True
    then obtain s t ss where ss: "segments l = s # t # ss" and low: "seg_base_index s + max (seg_count s) 1 - 1 < n" by blast
    obtain r w' where rm: "segment_remove s w = (r, w')" by (cases "segment_remove s w")
    have k: "log_allocated (l\<lparr>segments := t # ss\<rparr>, w')"
      using 1(2) ss segment_remove_next [OF rm] by (simp add: log_allocated_def)
    show ?thesis
      using 1(1) [OF ss refl low rm [symmetric]] k ss low rm by (subst shift_segments.simps) (auto split: sum.splits)
  next
    case False
    then show ?thesis using 1(2) by (subst shift_segments.simps) (auto split: list.splits)
  qed
qed

lemma preserves_log_allocated_prefix [preserves_intros]: "preserves log_allocated (log_truncate_prefix n) anything"
  unfolding log_truncate_prefix_def
proof (rule preserves_andThen_anything)
  show "preserves log_allocated (shift_segments n) anything" using shift_segments_allocated by (auto simp: preserves_def)
qed (auto simp: preserves_def log_allocated_def)

lemma pop_segments_allocated: "log_allocated s \<Longrightarrow> log_allocated (snd (pop_segments n s))"
proof (induction n s rule: pop_segments.induct)
  case (1 n l w)
  show ?case
  proof (cases "1 < length (segments l) \<and> n < seg_base_index (last (segments l))")
    case True
    obtain r w' where rm: "segment_remove (last (segments l)) w = (r, w')" by (cases "segment_remove (last (segments l)) w")
    then have k: "log_allocated (l\<lparr>segments := butlast (segments l)\<rparr>, w')"
      using 1(2) segment_remove_next [OF rm] in_set_butlastD [of _ "segments l"] by (fastforce simp: log_allocated_def)
    show ?thesis
      using 1(1) [OF True rm [symmetric]] k True rm by (subst pop_segments.simps) (auto split: sum.splits)
  next
    case False
    then show ?thesis using 1(2) by (subst pop_segments.simps) (simp only: if_False snd_conv)
  qed
qed


lemma preserves_create_allocated:
  assumes "\<And>fresh. preserves (\<lambda>(l, w). log_allocated (l, w) \<and> bw_ino (seg_writer fresh) < w_next w) (f fresh) anything"
  shows "preserves log_allocated (andThen (outside (segment_create p base)) f) anything"
  unfolding preserves_def
proof (intro allI impI conjI TrueI)
  fix s assume s: "log_allocated s"
  obtain l w where lw: "s = (l, w)" by (cases s)
  obtain r w' where c: "segment_create p base w = (r, w')" by (cases "segment_create p base w")
  have k: "log_allocated (l, w')" using s lw segment_create_grows [OF c] by (fastforce simp: log_allocated_def)
  show "log_allocated (snd (andThen (outside (segment_create p base)) f s))"
  proof (cases r)
    case (Inr fresh)
    obtain q l' w2 where q: "f fresh (l, w') = (q, l', w2)" by (cases "f fresh (l, w')") auto
    then have "log_allocated (l', w2)"
      using preservesD [OF assms _ q] k segment_create_next [of p base w fresh w'] c Inr by simp
    then show ?thesis using c Inr q by (simp add: lw andThen_def outside_def)
  qed (use c k in \<open>simp add: lw andThen_def outside_def\<close>)
qed

lemma refill_grows: "refill X survivors fresh w = (r, w') \<Longrightarrow> w_next w \<le> w_next w' \<and> (\<forall>s. r = Inr s \<longrightarrow> bw_ino (seg_writer s) = bw_ino (seg_writer fresh))"
proof -
  let ?m = "andThen (for_each survivors (segment_append X)) (\<lambda>_. segment_sync)"
  assume r: "refill X survivors fresh w = (r, w')"
  obtain q t v where m: "?m (fresh, w) = (q, t, v)" by (cases "?m (fresh, w)") auto
  have "preserves (segment_grown (w_next w) (bw_ino (seg_writer fresh))) ?m anything" by (intro preserves_intros)
  from preservesD [OF this _ m] have "w_next w \<le> w_next v" "bw_ino (seg_writer t) = bw_ino (seg_writer fresh)"
    by (simp_all add: segment_grown_def grown_def)
  moreover have "w_next (bw_drop b v) = w_next v" for b
    by (auto simp: bw_drop_def bw_flush_def split: prod.splits dest: file_write_all_next)
  ultimately show ?thesis using r m by (auto simp: refill_def split: sum.splits)
qed

lemma preserves_log_allocated_suffix [preserves_intros]: "preserves log_allocated (log_truncate_suffix X n) anything"
proof -
  have iter: "preserves log_allocated (outside (segment_iter seg body)) anything" for seg and body :: "(error, seg_iter, 'b) prog"
  proof -
    have "preserves (grown k) (segment_iter seg body) anything" for k
      unfolding segment_iter_def by (intro preserves_intros)
    from preservesD [OF this, of "w_next w" w for w] have "w_next w \<le> w_next w'" if "segment_iter seg body w = (r, w')" for r w w'
      using that by (simp add: grown_def)
    then show ?thesis by (fastforce simp: preserves_def outside_def log_allocated_def split: prod.splits)
  qed
  have rm: "preserves log_allocated (outside (segment_remove seg)) anything" for seg
    using segment_remove_next by (fastforce simp: preserves_def outside_def log_allocated_def split: prod.splits)
  have drop: "preserves log_allocated (modify (\<lambda>(l, w). (l\<lparr>segments := butlast (segments l)\<rparr>, w))) anything"
    by (rule preserves_modify) (clarsimp simp: log_allocated_def, meson in_set_butlastD)
  have fill: "preserves (\<lambda>(l, w). log_allocated (l, w) \<and> bw_ino (seg_writer fresh) < w_next w) (andThen (outside (refill X survivors fresh))
      (\<lambda>fresh. modify (\<lambda>(l, w). (l\<lparr>segments := segments l @ [fresh], log_last_index := n\<rparr>, w)))) anything" for survivors fresh
  proof (rule preserves_andThen [where R = "\<lambda>s. bw_ino (seg_writer s) = bw_ino (seg_writer fresh)"])
    show "preserves (\<lambda>(l, w). log_allocated (l, w) \<and> bw_ino (seg_writer fresh) < w_next w) (outside (refill X survivors fresh))
        (\<lambda>s. bw_ino (seg_writer s) = bw_ino (seg_writer fresh))"
      using refill_grows [of X survivors fresh] by (fastforce simp: preserves_def outside_def log_allocated_def split: prod.splits)
  qed (auto intro!: preserves_modify simp: log_allocated_def)
  have pop: "preserves log_allocated (pop_segments n) anything" using pop_segments_allocated by (auto simp: preserves_def)
  show ?thesis
    unfolding log_truncate_suffix_def Let_def
    by (intro preserves_read preserves_prod preserves_if preserves_throw preserves_ret preserves_andThen_anything [OF pop]
        preserves_andThen_anything [OF iter] preserves_andThen_anything [OF drop] preserves_andThen_anything [OF rm] preserves_create_allocated fill TrueI)
qed


text \<open>Opening a log.\<close>

definition allocating :: "nat \<Rightarrow> world \<Rightarrow> bool" where
  "allocating n w \<longleftrightarrow> fs_ok w \<and> n \<le> w_next w"

lemma preserves_allocating:
  assumes "\<And>w0. preserves (spares {} {} w0) m R" and "preserves (grown n) m R'"
  shows "preserves (allocating n) m R"
  unfolding preserves_def
proof (intro allI impI)
  fix w assume w: "allocating n w"
  then have "spares {} {} w w" by (intro spares_refl) (simp add: walled_def allocating_def)
  moreover have "grown n w" using w by (simp add: allocating_def grown_def)
  ultimately have "spares {} {} w (snd (m w)) \<and> (\<forall>x. fst (m w) = Inr x \<longrightarrow> R x)" "grown n (snd (m w))"
    using assms unfolding preserves_def by auto
  then show "allocating n (snd (m w)) \<and> (\<forall>x. fst (m w) = Inr x \<longrightarrow> R x)"
    by (simp add: allocating_def grown_def spares_def walled_def)
qed

lemma wp_allocating:
  "preserves (allocating n) m anything \<Longrightarrow> allocating n w \<Longrightarrow> wp m (\<lambda>_. allocating n) (\<lambda>_. allocating n) w"
  using preserves_wp [of "allocating n" m anything w] by simp

lemma wp_open_existing_allocating:
  "allocating n w \<Longrightarrow> wp (open_existing p) (\<lambda>i w'. allocating n w' \<and> allocating (Suc i) w') (\<lambda>_. allocating n) w"
  unfolding open_existing_def
proof (rule wp_syscall)
  fix es assume w: "allocating n w"
  then have "i < w_next w" if "w_find w p = Some i" for i
    using fs_ok_reach [of w p i] that by (simp add: allocating_def reach_def)
  then show "wp (\<lambda>w. case w_find w p of None \<Rightarrow> (Inl (Io NotFound), w) | Some i \<Rightarrow> (Inr i, w))
      (\<lambda>i w'. allocating n w' \<and> allocating (Suc i) w') (\<lambda>_. allocating n) (w\<lparr>w_events := es\<rparr>)"
    using w by (auto simp: wp_def allocating_def Suc_le_eq split: option.splits)
qed (simp add: allocating_def)

lemma wp_seek_allocating:
  assumes "allocating n w"
  shows "wp bw_seek_end (\<lambda>_ (b, w'). allocating n w' \<and> bw_ino b = i) (\<lambda>_ (b, w'). allocating n w') (bufw_new i, w)"
proof -
  have "writer_apart {} {} w (bufw_new i, w)" using assms by (simp add: writer_apart_def spares_refl walled_def allocating_def)
  moreover have "preserves (writer_grown n i) bw_seek_end anything"
    unfolding bw_seek_end_def
    by (rule preserves_andThen_anything [OF preserves_writer_grown(1)])
      (auto simp: preserves_def writer_grown_def grown_def file_len_def syscall_def pop_event_def split: prod.splits sum.splits list.splits)
  moreover have "writer_grown n i (bufw_new i, w)" using assms by (simp add: writer_grown_def grown_def bufw_new_def allocating_def)
  ultimately have "wp bw_seek_end (\<lambda>x s. (writer_apart {} {} w s \<and> True) \<and> writer_grown n i s \<and> True)
      (\<lambda>_ s. writer_apart {} {} w s \<and> writer_grown n i s) (bufw_new i, w)"
    using wp_conj [OF preserves_wp [OF preserves_bw_seek_end] preserves_wp] by blast
  then show ?thesis
    by (rule wp_conseq) (auto simp: writer_apart_def writer_grown_def grown_def allocating_def spares_def walled_def)
qed

lemma wp_segment_recover:
  assumes "allocating n w"
  shows "wp (segment_recover X p base) (\<lambda>s w'. allocating n w' \<and> bw_ino (seg_writer s) < w_next w') (\<lambda>_. allocating n) w"
proof -
  let ?E = "\<lambda>_ :: error. allocating n"
  have both: "allocating n w \<and> allocating m w \<longleftrightarrow> allocating (max n m) w" for m w by (auto simp: allocating_def)
  have seek: "wp (\<lambda>w. case bw_seek_end (bufw_new i, w) of
          (Inl e, _, w') \<Rightarrow> (Inl e, w')
        | (Inr _, writer, w') \<Rightarrow> (Inr \<lparr>seg_base_index = base, seg_path = p, seg_writer = writer, seg_bytes = k, seg_count = c\<rparr>, w'))
      (\<lambda>s w'. allocating n w' \<and> bw_ino (seg_writer s) < w_next w') ?E w"
    if "allocating (max n (Suc i)) w" for i k c w
    using wp_seek_allocating [OF that, of i] by (auto simp: wp_def allocating_def split: prod.splits sum.splits)
  have cut: "wp (andThen (set_len i k) (\<lambda>_. andThen (sync_all i) (\<lambda>_. f))) Q ?E w"
    if "allocating (max n (Suc i)) w" "\<And>w. allocating (max n (Suc i)) w \<Longrightarrow> wp f Q ?E w" for i k w and f :: "segment io" and Q
  proof -
    have p: "preserves (allocating m) (set_len i k) anything" "preserves (allocating m) (sync_all i) anything" for m
      by (rule preserves_allocating [OF preserves_spares_file(2) preserves_grown(6)], simp)
        (rule preserves_allocating [OF preserves_spares_file(1) preserves_grown(7)], simp)
    show ?thesis
      unfolding wp_andThen
    proof (rule wp_conseq [OF wp_allocating [OF p(1) that(1)]])
      fix w1 assume "allocating (max n (Suc i)) w1"
      then show "wp (sync_all i) (\<lambda>_. wp f Q ?E) ?E w1"
        by (rule wp_conseq [OF wp_allocating [OF p(2)]]) (use that(2) in \<open>auto simp: allocating_def\<close>)
    qed (simp add: allocating_def)
  qed
  have pure: "preserves (allocating n) (file_len i) anything" "preserves (allocating n) (with_reader i m) anything" for i and m :: "(error, reader, u64 \<times> u64) prog"
    by (rule preserves_allocating [OF preserves_spares_pure(3) preserves_grown(3)])
      (rule preserves_allocating [OF preserves_spares_reader preserves_grown(9)])
  show ?thesis
    unfolding segment_recover_def wp_andThen
    apply (rule wp_conseq [OF wp_open_existing_allocating [OF assms]])
     apply (rule wp_conseq [OF wp_allocating [OF pure(1)]], simp)
      apply (rule wp_conseq [OF wp_allocating [OF pure(2)]], simp)
       apply (clarsimp simp del: split_paired_All)
       apply (rule wp_conseq [OF wp_open_existing_allocating], assumption)
        apply (rule cut)
         apply (simp add: both)
        apply (rule seek, assumption)
    by simp_all
qed

lemma log_open_allocated:
  assumes "fs_ok w" and "log_open X dir max_bytes w = (Inr l, w')"
  shows "log_allocated (l, w')"
proof -
  let ?E = "\<lambda>_ _. True"
  have rec: "allocating n w \<Longrightarrow> wp (recover_segments X dir bs) (\<lambda>ss w'. allocating n w' \<and> (\<forall>s\<in>set ss. bw_ino (seg_writer s) < w_next w')) ?E w" for n bs w
  proof (induction bs arbitrary: w n)
    case (Cons b bs)
    show ?case
      unfolding recover_segments.simps wp_andThen
    proof (rule wp_conseq [OF wp_segment_recover [OF Cons.prems]], elim conjE)
      fix s :: segment and w1 assume "allocating n w1" and s: "bw_ino (seg_writer s) < w_next w1"
      then have "allocating (max n (Suc (bw_ino (seg_writer s)))) w1" by (simp add: allocating_def)
      from Cons.IH [OF this] show "wp (recover_segments X dir bs) (\<lambda>x. wp (ret (s # x)) (\<lambda>ss w'. allocating n w' \<and> (\<forall>s\<in>set ss. bw_ino (seg_writer s) < w_next w')) ?E) ?E w1"
        by (rule wp_conseq) (auto simp: allocating_def)
    qed simp
  qed simp
  have one: "wp (andThen (segment_create p b) (\<lambda>s. ret [s])) (\<lambda>ss w'. \<forall>s\<in>set ss. bw_ino (seg_writer s) < w_next w') ?E w" for p b w
    using segment_create_next [of p b w] by (simp, auto simp: wp_def ret_def split: prod.splits sum.splits)
  have "preserves (allocating n) (read_dir dir) anything" for n
    by (rule preserves_allocating [OF preserves_spares_pure(1) preserves_grown(2)])
  then have disc: "preserves (allocating n) (discover_segments dir) anything" for n
    unfolding discover_segments_def by (rule preserves_andThen_anything) (simp add: preserves_def)
  have mkdir: "preserves (allocating n) (create_dir_all dir) anything" for n
    by (rule preserves_allocating [OF preserves_spares_pure(7) preserves_grown(1)])
  have w: "allocating (w_next w) w" using assms(1) by (simp add: allocating_def)
  have "wp (log_open X dir max_bytes) (\<lambda>l w'. log_allocated (l, w')) ?E w"
    unfolding log_open_def Let_def wp_andThen
    apply (rule wp_conseq [OF wp_allocating [OF mkdir w]])
     apply (rule wp_conseq [OF wp_allocating [OF disc]], assumption)
    subgoal for _ _ found w2
      by (cases "sort found = []")
        (auto intro!: wp_conseq [OF one] wp_conseq [OF rec] simp: wp_if log_allocated_def simp del: wp_andThen)
    by simp_all
  then show ?thesis using assms(2) by (simp add: wp_def)
qed

end
