(* ===== verification/Raft_Votes.thy ===== *)
theory Raft_Votes
  imports Raft_Driver Wal_Frame
begin

text \<open>
  A node keeps its promises. A vote that a node has announced stays recorded, in memory and in every state a crash may
  leave on disk, until the node is in a later term; no operation of the core, the driver or the store undoes it, whatever
  fails on the way. This is the per-node half of election safety.
\<close>

section \<open>Promises\<close>

text \<open>A promise is a term and the candidate the node voted for in it.\<close>

type_synonym promise = "u64 \<times> u64"

definition covers :: "hard_state \<Rightarrow> promise \<Rightarrow> bool" where
  "covers h g \<longleftrightarrow> fst g < hs_term h \<or> hs_term h = fst g \<and> hs_voted_for h = Some (snd g)"

text \<open>The parts of the file system a node's core relies on.\<close>

definition core_disk :: "('x) ext_node_scheme \<Rightarrow> hard_state set \<Rightarrow> raft_core \<times> world \<Rightarrow> bool" where
  "core_disk X hs = (\<lambda>(c, w). hard_file X w (c_hard_path c) hs \<and>
     log_apart (hard_paths (c_hard_path c)) (files_of w (hard_paths (c_hard_path c))) (c_log c) \<and> log_allocated (c_log c, w))"

definition keeps_promises :: "('x) ext_node_scheme \<Rightarrow> promise set \<Rightarrow> raft_core \<times> world \<Rightarrow> bool" where
  "keeps_promises X G = (\<lambda>(c, w). (\<forall>g\<in>G. covers (c_hard c) g) \<and> (\<exists>hs. (\<forall>h\<in>hs. \<forall>g\<in>G. covers h g) \<and> core_disk X hs (c, w)))"

text \<open>What no operation changes.\<close>

definition identity :: "raft_core \<Rightarrow> u64 \<times> u64 list \<times> nat \<times> path" where
  "identity c = (c_id c, c_peers c, c_cluster_size c, c_hard_path c)"

definition vote_inv :: "('x) ext_node_scheme \<Rightarrow> u64 \<times> u64 list \<times> nat \<times> path \<Rightarrow> promise set \<Rightarrow> raft_core \<times> world \<Rightarrow> bool" where
  "vote_inv X me G = (\<lambda>(c, w). identity c = me \<and> keeps_promises X G (c, w))"

lemma vote_inv_mono: "vote_inv X me G s \<Longrightarrow> G' \<subseteq> G \<Longrightarrow> vote_inv X me G' s"
  unfolding vote_inv_def keeps_promises_def by fast

lemma log_apart_antimono: "log_apart S I l \<Longrightarrow> J \<subseteq> I \<Longrightarrow> log_apart S J l"
  by (auto simp: log_apart_def segment_apart_def)

section \<open>Operations that leave the hard state alone\<close>

text \<open>Changes of the core in memory.\<close>

lemma preserves_upd_core [preserves_intros]:
  assumes "\<And>c. identity (f c) = identity c \<and> c_hard (f c) = c_hard c \<and> c_log (f c) = c_log c"
  shows "preserves (vote_inv X me G) (upd_core f) anything"
proof (rule preserves_modify)
  fix s assume s: "vote_inv X me G s"
  obtain c w where cw: "s = (c, w)" by (cases s)
  have "c_hard_path (f c) = c_hard_path c" using assms [of c] by (simp add: identity_def)
  then show "vote_inv X me G (map_prod f id s)"
    using s assms [of c] by (simp add: cw vote_inv_def keeps_promises_def core_disk_def)
qed

lemma core_disk_spares:
  assumes "core_disk X hs (c, w)" and "spares (hard_paths (c_hard_path c)) (files_of w (hard_paths (c_hard_path c))) w w'"
    and "log_apart (hard_paths (c_hard_path c)) (files_of w (hard_paths (c_hard_path c))) l" and "log_allocated (l, w')"
  shows "core_disk X hs (c\<lparr>c_log := l\<rparr>, w')"
  using assms hard_file_spares [OF _ assms(2), of X hs] log_apart_antimono [OF assms(3) spares_files_of [OF assms(2)]]
  by (simp add: core_disk_def)

lemma vote_inv_outside:
  assumes "\<And>S I w0. S = hard_paths (snd (snd (snd me))) \<Longrightarrow> preserves (spares S I w0) m anything"
  shows "preserves (vote_inv X me G) (outside m) anything"
  unfolding preserves_def
proof (intro allI impI conjI TrueI)
  fix s assume s: "vote_inv X me G s"
  obtain c w where cw: "s = (c, w)" by (cases s)
  obtain r w' where m: "m w = (r, w')" by (cases "m w")
  obtain hs where hs: "\<forall>h\<in>hs. \<forall>g\<in>G. covers h g" "core_disk X hs (c, w)" using s by (auto simp: cw vote_inv_def keeps_promises_def)
  have path: "c_hard_path c = snd (snd (snd me))" using s by (auto simp: cw vote_inv_def identity_def)
  let ?S = "hard_paths (c_hard_path c)"
  have "owned w ?S" using hs(2) by (simp add: core_disk_def hard_file_def)
  then have sp: "spares ?S (files_of w ?S) w w'" using preservesD [OF assms _ m] spares_refl path by simp
  have "log_allocated (c_log c, w')"
    using hs(2) sp by (fastforce simp: core_disk_def log_allocated_def spares_def)
  then have "core_disk X hs (c, w')" using core_disk_spares [OF hs(2) sp, of "c_log c"] hs(2) by (simp add: core_disk_def)
  then show "vote_inv X me G (snd (outside m s))" using s hs(1) m by (auto simp: cw vote_inv_def keeps_promises_def outside_def)
qed

lemma wp_timer:
  "wp (reset_election_timer X) (\<lambda>_ (c', w'). \<exists>d. c' = c\<lparr>c_election_deadline := d\<rparr>) (\<lambda>_ (c', w'). c' = c) (c, w)"
  by (simp add: reset_election_timer_def) (auto simp: wp_def gen_range_def instant_now_def)

lemma vote_inv_on_log:
  assumes "\<And>S I w0. preserves (log_keeps S I w0) m anything" and "preserves log_allocated m anything"
  shows "preserves (vote_inv X me G) (on_log m) anything"
  unfolding preserves_def
proof (intro allI impI conjI TrueI)
  fix s assume s: "vote_inv X me G s"
  obtain c w where cw: "s = (c, w)" by (cases s)
  obtain r l w' where m: "m (c_log c, w) = (r, l, w')" by (cases "m (c_log c, w)") auto
  obtain hs where hs: "\<forall>h\<in>hs. \<forall>g\<in>G. covers h g" "core_disk X hs (c, w)" using s by (auto simp: cw vote_inv_def keeps_promises_def)
  let ?S = "hard_paths (c_hard_path c)"
  have "owned w ?S" using hs(2) by (simp add: core_disk_def hard_file_def)
  then have "log_keeps ?S (files_of w ?S) w (c_log c, w)" using hs(2) spares_refl by (simp add: log_keeps_def core_disk_def)
  from preservesD [OF assms(1) this m] have k: "spares ?S (files_of w ?S) w w'" "log_apart ?S (files_of w ?S) l" by (simp_all add: log_keeps_def)
  have "log_allocated (l, w')" using preservesD [OF assms(2) _ m] hs(2) by (simp add: core_disk_def)
  from core_disk_spares [OF hs(2) k this] show "vote_inv X me G (snd (on_log m s))"
    using s hs(1) m by (auto simp: cw vote_inv_def keeps_promises_def on_log_def zoom_def identity_def)
qed

lemma vote_inv_log_ops [preserves_intros]:
  "preserves (vote_inv X me G) (on_log (log_append Y payload)) anything"
  "preserves (vote_inv X me G) (on_log log_sync) anything"
  "preserves (vote_inv X me G) (on_log (log_truncate_prefix n)) anything"
  "preserves (vote_inv X me G) (on_log (log_truncate_suffix Y n)) anything"
  by (rule vote_inv_on_log; rule preserves_intros)+

lemma vote_inv_timer [preserves_intros]: "preserves (vote_inv X me G) (reset_election_timer Y) anything"
  unfolding reset_election_timer_def
  by (intro preserves_read preserves_prod preserves_andThen_anything preserves_upd_core vote_inv_outside preserves_spares_pure)
    (simp add: identity_def)

section \<open>Persisting the hard state\<close>

lemma core_disk_stays:
  assumes "core_disk X hs (c, w)" and "stays_in (hard_paths (c_hard_path c)) w w'" and "hard_file X w' (c_hard_path c) hs'"
  shows "core_disk X hs' (c, w')"
proof -
  let ?S = "hard_paths (c_hard_path c)"
  have l: "log_apart ?S (files_of w ?S) (c_log c)" "log_allocated (c_log c, w)" using assms(1) by (simp_all add: core_disk_def)
  have "log_apart ?S (files_of w' ?S) (c_log c)"
    using l stays_in_files [OF assms(2)] by (fastforce simp: log_apart_def segment_apart_def log_allocated_def)
  moreover have "log_allocated (c_log c, w')" using l(2) assms(2) by (fastforce simp: log_allocated_def stays_in_def)
  ultimately show ?thesis using assms(3) by (simp add: core_disk_def)
qed

text \<open>A new hard state that keeps the promises is written; whatever fails, all possible contents of the disk keep them.\<close>

lemma wp_persist_hard:
  assumes "codec (x_ser_hard X) (x_de_hard X) UNIV" and "keeps_promises X G (c, w)"
  shows "wp (persist_hard X) (\<lambda>_ (c', w'). c' = c \<and> (\<forall>G'. (\<forall>g\<in>G'. covers (c_hard c) g) \<longrightarrow> keeps_promises X G' (c', w')))
     (\<lambda>_ (c', w'). c' = c \<and> keeps_promises X G (c', w')) (c, w)"
proof -
  obtain hs where hs: "\<forall>h\<in>hs. \<forall>g\<in>G. covers h g" "core_disk X hs (c, w)" "\<forall>g\<in>G. covers (c_hard c) g"
    using assms(2) by (auto simp: keeps_promises_def)
  have "hard_file X w (c_hard_path c) hs" using hs(2) by (simp add: core_disk_def)
  from wp_hard_persist [OF this assms(1), of "c_hard c"]
  show ?thesis
    unfolding persist_hard_def wp_andThen wp_get_st split wp_outside
  proof (rule wp_conseq)
    fix w' assume "hard_file X w' (c_hard_path c) {c_hard c} \<and> stays_in (hard_paths (c_hard_path c)) w w'"
    then have "core_disk X {c_hard c} (c, w')" using core_disk_stays [OF hs(2)] by blast
    then show "c = c \<and> (\<forall>G'. (\<forall>g\<in>G'. covers (c_hard c) g) \<longrightarrow> keeps_promises X G' (c, w'))"
      unfolding keeps_promises_def by (auto intro!: exI [of _ "{c_hard c}"])
  next
    fix w' assume "hard_file X w' (c_hard_path c) (insert (c_hard c) hs) \<and> stays_in (hard_paths (c_hard_path c)) w w'"
    then have "core_disk X (insert (c_hard c) hs) (c, w')" using core_disk_stays [OF hs(2)] by blast
    then show "c = c \<and> keeps_promises X G (c, w')"
      using hs(1,3) unfolding keeps_promises_def by (auto intro!: exI [of _ "insert (c_hard c) hs"])
  qed
qed

text \<open>Moving the hard state forward in memory.\<close>

lemma covers_later: "covers h g \<Longrightarrow> hs_term h < hs_term h' \<Longrightarrow> covers h' g"
  by (auto simp: covers_def)

lemma keeps_promises_hard:
  assumes "keeps_promises X G (c, w)" and "\<forall>g\<in>G. covers h g"
  shows "keeps_promises X G (c\<lparr>c_hard := h\<rparr>, w)"
  using assms by (simp add: keeps_promises_def core_disk_def)

lemma wp_become_follower:
  assumes "codec (x_ser_hard X) (x_de_hard X) UNIV" and "vote_inv X me G (c, w)"
  shows "wp (become_follower X term leader)
     (\<lambda>_ (c', w'). vote_inv X me G (c', w') \<and>
        c_hard c' = (if hs_term (c_hard c) < term then \<lparr>hs_term = term, hs_voted_for = None\<rparr> else c_hard c))
     (\<lambda>_. vote_inv X me G) (c, w)"
proof -
  let ?c = "c\<lparr>c_hard := \<lparr>hs_term = term, hs_voted_for = None\<rparr>\<rparr>"
  let ?f = "\<lambda>c. c\<lparr>c_role := Follower, c_leader_id := leader, c_lease := lease_invalidate (c_lease c)\<rparr>"
  have f: "vote_inv X me G (?f c, w) = vote_inv X me G (c, w)" for c w
    by (simp add: vote_inv_def identity_def keeps_promises_def core_disk_def)
  show ?thesis
  proof (cases "hs_term (c_hard c) < term")
    case True
    have k: "keeps_promises X G (?c, w)"
      using True assms(2) by (intro keeps_promises_hard) (auto simp: vote_inv_def keeps_promises_def intro: covers_later)
    then have cov: "\<forall>g\<in>G. covers (c_hard ?c) g" by (simp add: keeps_promises_def)
    have i: "identity ?c = me" using assms(2) by (simp add: vote_inv_def identity_def)
    have "wp (persist_hard X) (\<lambda>_ (c', w'). vote_inv X me G (?f c', w') \<and> c_hard (?f c') = \<lparr>hs_term = term, hs_voted_for = None\<rparr>)
        (\<lambda>_. vote_inv X me G) (?c, w)"
    proof (rule wp_conseq [OF wp_persist_hard [OF assms(1) k]])
      fix s :: "raft_core \<times> world"
      assume "case s of (c', w') \<Rightarrow> c' = ?c \<and> (\<forall>G'. (\<forall>g\<in>G'. covers (c_hard ?c) g) \<longrightarrow> keeps_promises X G' (c', w'))"
      then obtain w' where s: "s = (?c, w')" "keeps_promises X G (?c, w')" using cov by (cases s) blast
      then have "vote_inv X me G (?f ?c, w')" unfolding f using i by (simp add: vote_inv_def)
      then show "case s of (c', w') \<Rightarrow> vote_inv X me G (?f c', w') \<and> c_hard (?f c') = \<lparr>hs_term = term, hs_voted_for = None\<rparr>" using s(1) by simp
    qed (use i in \<open>auto simp: vote_inv_def\<close>)
    then show ?thesis using True by (simp add: become_follower_def) (elim wp_conseq, auto)
  next
    case False
    then show ?thesis using assms(2) f by (simp add: become_follower_def)
  qed
qed

lemma preserves_wpI: "(\<And>c w. vote_inv X me G (c, w) \<Longrightarrow> wp m (\<lambda>_. vote_inv X me G) (\<lambda>_. vote_inv X me G) (c, w)) \<Longrightarrow>
   preserves (vote_inv X me G) m anything"
  by (rule preservesI) (auto intro: wp_conseq)

lemma vote_inv_become_follower [preserves_intros]:
  assumes "codec (x_ser_hard X) (x_de_hard X) UNIV"
  shows "preserves (vote_inv X me G) (become_follower X term leader) anything"
  by (rule preserves_wpI) (auto intro: wp_conseq [OF wp_become_follower [OF assms]])

text \<open>A candidate votes for itself in a term it has made no promise for, as long as the term counter does not overflow.\<close>

lemma wp_become_candidate:
  assumes "codec (x_ser_hard X) (x_de_hard X) UNIV" and "vote_inv X me G (c, w)" and "hs_term (c_hard c) < -1"
  shows "wp (become_candidate X)
     (\<lambda>args s. vote_inv X me (insert (rv_term args, rv_candidate_id args) G) s \<and> rv_candidate_id args = c_id c \<and>
        hs_term (c_hard c) < rv_term args \<and> hs_term (c_hard (fst s)) = rv_term args)
     (\<lambda>_. vote_inv X me G) (c, w)"
proof -
  let ?c = "c\<lparr>c_role := Candidate, c_hard := \<lparr>hs_term = hs_term (c_hard c) + 1, hs_voted_for = Some (c_id c)\<rparr>\<rparr>"
  let ?vote = "(hs_term (c_hard c) + 1, c_id c)"
  have up: "hs_term (c_hard c) < hs_term (c_hard c) + 1" using assms(3) by (simp add: word_less_nat_alt unat_u64_next)
  have k: "keeps_promises X G (?c, w)"
  proof -
    have "keeps_promises X G (c\<lparr>c_hard := \<lparr>hs_term = hs_term (c_hard c) + 1, hs_voted_for = Some (c_id c)\<rparr>\<rparr>, w)"
      using up assms(2) by (intro keeps_promises_hard) (auto simp: vote_inv_def keeps_promises_def intro: covers_later)
    then show ?thesis by (simp add: keeps_promises_def core_disk_def)
  qed
  then have cov: "\<forall>g\<in>insert ?vote G. covers (c_hard ?c) g" by (simp add: keeps_promises_def covers_def)
  have i: "identity ?c = me" using assms(2) by (simp add: vote_inv_def identity_def)
  have timer: "wp (reset_election_timer X) (\<lambda>_ (c', w'). vote_inv X me (insert ?vote G) (c', w') \<and> c_hard c' = c_hard ?c \<and> c_id c' = c_id c)
      (\<lambda>_. vote_inv X me G) (c1, w1)" if v: "vote_inv X me (insert ?vote G) (c1, w1)" and c1: "c_hard c1 = c_hard ?c" "c_id c1 = c_id c" for c1 w1
  proof -
    have "wp (reset_election_timer X) (\<lambda>_ s. vote_inv X me (insert ?vote G) s \<and> True) (\<lambda>_. vote_inv X me (insert ?vote G)) (c1, w1)"
      by (rule preserves_wp [OF vote_inv_timer v])
    from wp_conj [OF this wp_timer] show ?thesis
      by (rule wp_conseq) (use c1 in \<open>auto intro: vote_inv_mono\<close>)
  qed
  have "wp (persist_hard X) (\<lambda>_ (c', w'). wp (reset_election_timer X) (\<lambda>_ (c', w'). vote_inv X me (insert ?vote G) (c', w') \<and> c_hard c' = c_hard ?c \<and> c_id c' = c_id c)
        (\<lambda>_. vote_inv X me G) (c'\<lparr>c_leader_id := None\<rparr>, w')) (\<lambda>_. vote_inv X me G) (?c, w)"
  proof (rule wp_conseq [OF wp_persist_hard [OF assms(1) k]])
    fix s :: "raft_core \<times> world"
    assume "case s of (c', w') \<Rightarrow> c' = ?c \<and> (\<forall>G'. (\<forall>g\<in>G'. covers (c_hard ?c) g) \<longrightarrow> keeps_promises X G' (c', w'))"
    then obtain w' where s: "s = (?c, w')" "keeps_promises X (insert ?vote G) (?c, w')" using cov by (cases s) blast
    then have "vote_inv X me (insert ?vote G) (?c\<lparr>c_leader_id := None\<rparr>, w')"
      using i by (simp add: vote_inv_def identity_def keeps_promises_def core_disk_def)
    from timer [OF this] show "case s of (c', w') \<Rightarrow> wp (reset_election_timer X)
        (\<lambda>_ (c', w'). vote_inv X me (insert ?vote G) (c', w') \<and> c_hard c' = c_hard ?c \<and> c_id c' = c_id c) (\<lambda>_. vote_inv X me G) (c'\<lparr>c_leader_id := None\<rparr>, w')"
      using s(1) by simp
  qed (use i in \<open>auto simp: vote_inv_def\<close>)
  then show ?thesis
    unfolding become_candidate_def
    by (simp add: case_prod_beta) (elim wp_conseq, auto elim!: wp_conseq simp: up)
qed

text \<open>
  Granting a vote: the promise is new in memory and on disk before the reply exists, it is for the current term, and it agrees
  with any promise already made for that term.
\<close>

lemma wp_grant:
  assumes "codec (x_ser_hard X) (x_de_hard X) UNIV" and "vote_inv X me G (c, w)" and "hs_voted_for (c_hard c) \<in> {None, Some v}"
  shows "wp (andThen (upd_core (\<lambda>c. c\<lparr>c_hard := (c_hard c)\<lparr>hs_voted_for := Some v\<rparr>\<rparr>)) (\<lambda>_. andThen (persist_hard X) (\<lambda>_. reset_election_timer X)))
     (\<lambda>_ s. vote_inv X me (insert (hs_term (c_hard c), v) G) s) (\<lambda>_. vote_inv X me G) (c, w)"
proof -
  let ?c = "c\<lparr>c_hard := (c_hard c)\<lparr>hs_voted_for := Some v\<rparr>\<rparr>" and ?G = "insert (hs_term (c_hard c), v) G"
  have cov: "\<forall>g\<in>?G. covers (c_hard ?c) g"
    using assms(2,3) by (fastforce simp: vote_inv_def keeps_promises_def covers_def)
  have k: "keeps_promises X G (?c, w)"
    using assms(2) cov by (intro keeps_promises_hard) (auto simp: vote_inv_def)
  have i: "identity ?c = me" using assms(2) by (simp add: vote_inv_def identity_def)
  have "wp (persist_hard X) (\<lambda>_. wp (reset_election_timer X) (\<lambda>_ s. vote_inv X me ?G s) (\<lambda>_. vote_inv X me G)) (\<lambda>_. vote_inv X me G) (?c, w)"
  proof (rule wp_conseq [OF wp_persist_hard [OF assms(1) k]])
    fix s :: "raft_core \<times> world"
    assume "case s of (c', w') \<Rightarrow> c' = ?c \<and> (\<forall>G'. (\<forall>g\<in>G'. covers (c_hard ?c) g) \<longrightarrow> keeps_promises X G' (c', w'))"
    then obtain w' where "s = (?c, w')" "keeps_promises X ?G (?c, w')" using cov by (cases s) blast
    then have "vote_inv X me ?G s" using i by (simp add: vote_inv_def)
    then show "wp (reset_election_timer X) (\<lambda>_ s. vote_inv X me ?G s) (\<lambda>_. vote_inv X me G) s"
      by (intro wp_conseq [OF preserves_wp [OF vote_inv_timer [where G = ?G]]]) (auto intro: vote_inv_mono)
  qed (use i in \<open>auto simp: vote_inv_def\<close>)
  then show ?thesis by simp
qed

lemma wp_request_vote:
  assumes "codec (x_ser_hard X) (x_de_hard X) UNIV" and "vote_inv X me G (c, w)"
  shows "wp (handle_request_vote X args)
     (\<lambda>reply s. if rvr_vote_granted reply
        then vote_inv X me (insert (rv_term args, rv_candidate_id args) G) s \<and> (\<forall>v. (rv_term args, v) \<in> G \<longrightarrow> v = rv_candidate_id args)
        else vote_inv X me G s)
     (\<lambda>_. vote_inv X me G) (c, w)"
proof (cases "rv_term args < hs_term (c_hard c)")
  case True
  then show ?thesis using assms(2) by (simp add: handle_request_vote_def)
next
  case False
  let ?v = "rv_candidate_id args" and ?t = "rv_term args"
  let ?Q = "\<lambda>reply s. if rvr_vote_granted reply then vote_inv X me (insert (?t, ?v) G) s \<and> (\<forall>v. (?t, v) \<in> G \<longrightarrow> v = ?v) else vote_inv X me G s"
  have decide: "wp (andThen (if ok \<and> (hs_voted_for (c_hard c1) = None \<or> hs_voted_for (c_hard c1) = Some ?v)
        then andThen (upd_core (\<lambda>c. c\<lparr>c_hard := (c_hard c)\<lparr>hs_voted_for := Some ?v\<rparr>\<rparr>)) (\<lambda>_. andThen (persist_hard X) (\<lambda>_. reset_election_timer X))
        else ret ()) (\<lambda>_. andThen get_st (\<lambda>(c, _).
          ret \<lparr>rvr_term = hs_term (c_hard c), rvr_vote_granted = ok \<and> (hs_voted_for (c_hard c1) = None \<or> hs_voted_for (c_hard c1) = Some ?v)\<rparr>)))
      ?Q (\<lambda>_. vote_inv X me G) (c1, w1)"
    if v: "vote_inv X me G (c1, w1)" and t: "hs_term (c_hard c1) = ?t" for c1 w1 ok
  proof (cases "ok \<and> (hs_voted_for (c_hard c1) = None \<or> hs_voted_for (c_hard c1) = Some ?v)")
    case True
    then have same: "v = ?v" if "(?t, v) \<in> G" for v
      using that v t by (auto simp: vote_inv_def keeps_promises_def covers_def dest!: bspec)
    have g: "wp (andThen (upd_core (\<lambda>c. c\<lparr>c_hard := (c_hard c)\<lparr>hs_voted_for := Some ?v\<rparr>\<rparr>)) (\<lambda>_. andThen (persist_hard X) (\<lambda>_. reset_election_timer X)))
        (\<lambda>_ s. vote_inv X me (insert (?t, ?v) G) s) (\<lambda>_. vote_inv X me G) (c1, w1)"
      using wp_grant [OF assms(1) v, of ?v] True t by auto
    show ?thesis unfolding if_P [OF True] by (rule wp_andThen [THEN iffD2], rule wp_conseq [OF g]) (use True same in auto)
  next
    case False
    then have f: "(ok \<and> (hs_voted_for (c_hard c1) = None \<or> hs_voted_for (c_hard c1) = Some ?v)) = False" by blast
    show ?thesis unfolding f using v by simp
  qed
  have step: "wp (if hs_term (c_hard c) < ?t then become_follower X ?t None else ret ())
     (\<lambda>_ (c1, w1). vote_inv X me G (c1, w1) \<and> hs_term (c_hard c1) = ?t) (\<lambda>_. vote_inv X me G) (c, w)"
  proof (cases "hs_term (c_hard c) < ?t")
    case True
    then show ?thesis by (simp, intro wp_conseq [OF wp_become_follower [OF assms]]) auto
  qed (use assms(2) False in auto)
  show ?thesis
    unfolding handle_request_vote_def wp_andThen [of get_st] wp_get_st split if_not_P [OF False]
  proof (rule wp_andThen [THEN iffD2], rule wp_conseq [OF step])
    fix s :: "raft_core \<times> world"
    assume s: "case s of (c1, w1) \<Rightarrow> vote_inv X me G (c1, w1) \<and> hs_term (c_hard c1) = ?t"
    obtain c1 w1 where cw: "s = (c1, w1)" by (cases s)
    show "wp (andThen get_st (\<lambda>(c, _).
       let log_ok = up_to_date (rv_last_log_term args, rv_last_log_index args) (last_log_term c, last_log_index c);
           free_to_vote = (hs_voted_for (c_hard c) = None \<or> hs_voted_for (c_hard c) = Some ?v);
           vote_granted = (log_ok \<and> free_to_vote) in
       andThen (if vote_granted then
           andThen (upd_core (\<lambda>c. c\<lparr>c_hard := (c_hard c)\<lparr>hs_voted_for := Some ?v\<rparr>\<rparr>)) (\<lambda>_.
           andThen (persist_hard X) (\<lambda>_. reset_election_timer X)) else ret ()) (\<lambda>_.
       andThen get_st (\<lambda>(c, _). ret \<lparr>rvr_term = hs_term (c_hard c), rvr_vote_granted = vote_granted\<rparr>)))) ?Q (\<lambda>_. vote_inv X me G) s"
      unfolding cw wp_andThen [of get_st] wp_get_st split Let_def by (rule decide) (use s cw in auto)
  qed
qed

section \<open>The other operations\<close>

lemma vote_inv_request_vote:
  assumes "codec (x_ser_hard X) (x_de_hard X) UNIV"
  shows "preserves (vote_inv X me G) (handle_request_vote X args) anything"
  by (rule preserves_wpI) (auto intro!: wp_conseq [OF wp_request_vote [OF assms]] intro: vote_inv_mono split: if_splits)

lemma vote_inv_core_sync [preserves_intros]: "preserves (vote_inv X me G) core_sync anything"
  unfolding core_sync_def by (rule preserves_intros)

lemma vote_inv_append_command [preserves_intros]: "preserves (vote_inv X me G) (append_command Y command) anything"
  unfolding append_command_def Let_def
  by (intro preserves_intros) (simp_all add: identity_def)

lemma vote_inv_append_replicated [preserves_intros]: "preserves (vote_inv X me G) (append_replicated Y entry) anything"
  unfolding append_replicated_def
  by (intro preserves_intros) (simp_all add: identity_def)

lemma vote_inv_truncate_from [preserves_intros]: "preserves (vote_inv X me G) (truncate_from Y index) anything"
  unfolding truncate_from_def
  by (intro preserves_andThen_anything preserves_upd_core vote_inv_log_ops) (simp add: identity_def)

lemma vote_inv_splice_entry [preserves_intros]: "preserves (vote_inv X me G) (splice_entry Y entry) anything"
  unfolding splice_entry_def
  by (intro preserves_read preserves_prod preserves_if preserves_option preserves_ret preserves_andThen_anything TrueI
      vote_inv_truncate_from vote_inv_append_replicated)

lemma vote_inv_append_entries [preserves_intros]:
  assumes "codec (x_ser_hard X) (x_de_hard X) UNIV"
  shows "preserves (vote_inv X me G) (handle_append_entries X args) anything"
  unfolding handle_append_entries_def
  by (intro preserves_read preserves_prod preserves_if preserves_ret preserves_andThen_anything preserves_for_each TrueI preserves_upd_core
      vote_inv_become_follower [OF assms] vote_inv_timer vote_inv_splice_entry vote_inv_core_sync) (simp_all add: identity_def)

lemma vote_inv_advance_commit_index [preserves_intros]: "preserves (vote_inv X me G) advance_commit_index anything"
  unfolding advance_commit_index_def Let_def
  by (intro preserves_read preserves_prod preserves_option preserves_throw preserves_upd_core) (simp add: identity_def)

lemma vote_inv_append_entries_reply [preserves_intros]:
  "preserves (vote_inv X me G) (on_append_entries_reply peer sent reply) anything"
  unfolding on_append_entries_reply_def Let_def
  by (intro preserves_read preserves_prod preserves_if preserves_ret TrueI preserves_andThen_anything preserves_upd_core
      vote_inv_advance_commit_index) (simp_all add: identity_def)

lemma vote_inv_compact [preserves_intros]: "preserves (vote_inv X me G) (compact meta) anything"
  unfolding compact_def
  by (intro preserves_read preserves_prod preserves_if preserves_ret TrueI preserves_andThen_anything preserves_upd_core
      vote_inv_log_ops) (simp_all add: identity_def)

lemma vote_inv_take_office [preserves_intros]: "preserves (vote_inv X me G) (take_office Y) anything"
  unfolding take_office_def
  by (intro preserves_andThen_anything preserves_upd_core vote_inv_append_command vote_inv_core_sync vote_inv_advance_commit_index)
    (simp add: identity_def become_leader_def Let_def)

lemma take_committed_keeps:
  "take_committed c = (out, c') \<Longrightarrow> \<exists>n. c' = c\<lparr>c_last_applied := n\<rparr>"
proof (induction c arbitrary: out c' rule: take_committed.induct)
  case (1 c)
  show ?case
  proof (cases "c_last_applied c < c_commit_index c \<and> entry_at c (c_last_applied c + 1) \<noteq> None")
    case True
    then obtain e where e: "entry_at c (c_last_applied c + 1) = Some e" by blast
    obtain out2 where "take_committed (c\<lparr>c_last_applied := c_last_applied c + 1\<rparr>) = (out2, c')"
      using "1.prems" True e by (subst (asm) take_committed.simps) (simp add: Let_def split: prod.splits)
    from "1.IH" [OF _ refl e this] True show ?thesis by auto
  next
    case False
    then have "c' = c" using "1.prems" by (subst (asm) take_committed.simps) (auto simp: Let_def split: if_splits option.splits)
    then show ?thesis by (intro exI [of _ "c_last_applied c"]) simp
  qed
qed

section \<open>Starting up\<close>

definition node_identity :: "config \<Rightarrow> u64 \<times> u64 list \<times> nat \<times> path" where
  "node_identity cfg = (cfg_id cfg, map peer_id (cfg_peers cfg), cluster_size cfg, hard_state_path cfg)"

lemma hard_paths_apart:
  "join_path (wal_dir cfg) name \<notin> hard_paths (hard_state_path cfg)"
  "\<forall>p\<in>hard_paths (hard_state_path cfg). \<not> (p \<noteq> [] \<and> butlast p = snapshot_dir cfg)"
  by (auto simp: hard_paths_def hard_state_path_def wal_dir_def snapshot_dir_def tmp_path_def dest: arg_cong [of _ _ length])

lemma preserves_store_open: "preserves (spares S I w0) (store_open X cfg) (\<lambda>st. st_snapshot_dir st = snapshot_dir cfg)"
proof -
  have "preserves (spares S I w0) (load_latest X (snapshot_dir cfg)) anything"
    unfolding load_latest_def
    by (intro preserves_andThen_anything [OF preserves_weaken [OF preserves_discover]] preserves_option preserves_prod preserves_ret
        preserves_andThen_anything [OF preserves_spares_pure(4)] preserves_throw TrueI)
  then show ?thesis
    unfolding store_open_def Let_def
    by (intro preserves_andThen_anything preserves_prod preserves_ret) (simp_all split: prod.splits)
qed

text \<open>Reading the state back: the core starts with a hard state the disk holds.\<close>

lemma wp_restore:
  assumes "hard_file X w (hard_state_path cfg) hs" and "\<forall>h\<in>hs. \<forall>g\<in>G. covers h g"
    and "log_apart (hard_paths (hard_state_path cfg)) (files_of w (hard_paths (hard_state_path cfg))) l" and "log_allocated (l, w)"
  shows "wp (restore X cfg snap l) (\<lambda>c w'. vote_inv X (node_identity cfg) G (c, w')) (\<lambda>_ w'. hard_file X w' (hard_state_path cfg) hs) w"
proof -
  let ?S = "hard_paths (hard_state_path cfg)" and ?p = "hard_state_path cfg"
  let ?I = "files_of w ?S"
  let ?good = "\<lambda>w'. spares ?S ?I w w' \<and> log_allocated (l, w')"
  have o: "walled ?S ?I w" using assms(1) by (simp add: hard_file_def)
  have keep: "wp m (\<lambda>_. ?good) (\<lambda>_ w'. hard_file X w' ?p hs) w1" if "preserves (spares ?S ?I w) m anything" "?good w1" for m :: "'b io" and w1
  proof -
    have "log_allocated (l, w2)" if "spares ?S ?I w w2" for w2
      using assms(4) that by (fastforce simp: log_allocated_def spares_def)
    then show ?thesis
      using that(2) hard_file_spares [OF assms(1)] by (intro wp_conseq [OF preserves_wp [OF that(1)]]) auto
  qed
  have timer: "wp (\<lambda>w. case reset_election_timer X (core, w) of (Inl e, (_, w')) \<Rightarrow> (Inl e, w') | (Inr _, (core', w')) \<Rightarrow> (Inr core', w'))
      (\<lambda>c w'. vote_inv X (node_identity cfg) G (c, w')) (\<lambda>_ w'. hard_file X w' ?p hs) w1"
    if "?good w1" and core: "identity core = node_identity cfg" "c_hard core \<in> hs" "c_log core = l" for core w1
  proof -
    have "core_disk X hs (core, w1)"
      using that(1) core hard_file_spares [OF assms(1)] log_apart_antimono [OF assms(3) spares_files_of]
      by (auto simp: core_disk_def identity_def node_identity_def)
    then have v: "vote_inv X (node_identity cfg) G (core, w1)"
      using assms(2) core by (auto simp: vote_inv_def keeps_promises_def)
    have sp: "preserves (\<lambda>(c, w'). spares ?S ?I w w') (reset_election_timer X) anything"
      unfolding reset_election_timer_def
      by (intro preserves_read preserves_prod preserves_andThen_anything preserves_outside) (auto intro: preserves_spares_pure preserves_modify)
    obtain r c2 w2 where t: "reset_election_timer X (core, w1) = (r, c2, w2)" by (cases "reset_election_timer X (core, w1)") auto
    have "spares ?S ?I w w2" using preservesD [OF sp _ t] that(1) by simp
    then have "hard_file X w2 ?p hs" using hard_file_spares [OF assms(1)] by blast
    moreover have "vote_inv X (node_identity cfg) G (c2, w2)" using preservesD [OF vote_inv_timer v t] .
    ultimately show ?thesis using t by (cases r) (auto simp: wp_def)
  qed
  have load: "wp (hard_load X ?p) (\<lambda>h w'. h \<in> hs \<and> ?good w') (\<lambda>_ w'. hard_file X w' ?p hs) w"
    using wp_hard_load [OF assms(1)] o assms(1,4) spares_refl [OF o]
    by (elim wp_conseq) (auto simp: log_allocated_def)
  have dec: "wp (lift_sum r) (\<lambda>_. ?good) (\<lambda>_ w'. hard_file X w' ?p hs) w1" if "?good w1" for r :: "error + 'c" and w1
    using that hard_file_spares [OF assms(1)] by (cases r) (auto simp: wp_def lift_sum_def)
  show ?thesis
    unfolding restore_def Let_def wp_andThen
    by (rule wp_conseq [OF load], rule wp_conseq [OF keep [OF preserves_log_read_all [OF assms(3)]]], simp, rule wp_conseq [OF dec], simp,
        rule wp_conseq [OF keep [OF preserves_spares_pure(5)]], simp, rule timer) (auto simp: identity_def node_identity_def)
qed

lemma wp_bootstrap:
  assumes "hard_file X w (hard_state_path cfg) hs" and "\<forall>h\<in>hs. \<forall>g\<in>G. covers h g"
  shows "wp (bootstrap X cfg) (\<lambda>n w'. vote_inv X (node_identity cfg) G (n_core n, w') \<and> st_snapshot_dir (n_store n) = snapshot_dir cfg)
     (\<lambda>_ w'. hard_file X w' (hard_state_path cfg) hs) w"
proof -
  let ?S = "hard_paths (hard_state_path cfg)" and ?p = "hard_state_path cfg"
  let ?I = "files_of w ?S"
  have o: "spares ?S ?I w w" using assms(1) by (simp add: hard_file_def spares_refl)
  have kept: "hard_file X w' ?p hs" if "spares ?S ?I w w'" for w' using hard_file_spares [OF assms(1) that] .
  have logw: "wp (log_open X (wal_dir cfg) (cfg_segment_max_bytes cfg)) (\<lambda>l w'. spares ?S ?I w w' \<and> log_apart ?S ?I l \<and> log_allocated (l, w'))
      (\<lambda>_ w'. hard_file X w' ?p hs) w1" if "spares ?S ?I w w1" for w1
  proof -
    have "wp (log_open X (wal_dir cfg) (cfg_segment_max_bytes cfg)) (\<lambda>l w'. log_allocated (l, w')) (\<lambda>_ _. True) w1"
      using log_open_allocated [OF walled_fs_ok [OF spares_walled [OF that]]] by (fastforce simp: wp_def split: prod.splits sum.splits)
    from wp_conj [OF this preserves_wp [OF preserves_log_open [OF hard_paths_apart(1)] that]]
    show ?thesis by (rule wp_conseq) (auto intro: kept)
  qed
  have rest: "wp (restore X cfg snap l) (\<lambda>c w'. vote_inv X (node_identity cfg) G (c, w')) (\<lambda>_ w'. hard_file X w' ?p hs) w1"
    if "spares ?S ?I w w1 \<and> log_apart ?S ?I l \<and> log_allocated (l, w1)" for snap l w1
    using that log_apart_antimono [OF _ spares_files_of] by (intro wp_restore kept assms(2)) blast+
  show ?thesis
    unfolding bootstrap_def wp_andThen
    by (rule wp_conseq [OF preserves_wp [OF preserves_store_open o]], rule wp_conseq [OF logw], simp,
        rule wp_conseq [OF rest]) (auto intro: kept)
qed

end
