(* ===== verification/Raft_Cluster.thy ===== *)
theory Raft_Cluster
  imports Raft_Votes
begin

text \<open>
  A cluster of nodes as a transition system, and election safety. Every stretch of code a node runs under the lock of its core
  or store is one step, so steps of different tasks and of different nodes interleave freely. Requests and answers of an
  election travel through sets of messages: they may be delayed, lost, reordered or handled twice. A node may crash at any
  point between two stretches, lose what its disk had not synced, and start again; the disk may fail any call.
\<close>

section \<open>Model\<close>

subsection \<open>One node\<close>

definition publish_commit :: "u64 \<Rightarrow> node \<Rightarrow> node" where
  "publish_commit index n = n\<lparr>n_commit := index\<rparr>"

text \<open>
  The stretches that neither start an election nor take part in one. The arguments of a call that come from another node are
  arbitrary. The last rule lets the script of disk failures, the clock and the random numbers be anything.
\<close>

inductive stretch :: "('x) ext_node_scheme \<Rightarrow> node \<times> world \<Rightarrow> node \<times> world \<Rightarrow> bool" for X where
  append_entries: "stretch X s (snd (on_core (handle_append_entries X args) s))"
| newer_term: "stretch X s (snd (on_core (become_follower X term None) s))"
| append_reply: "stretch X s (snd (on_core (on_append_entries_reply peer sent reply) s))"
| lease: "stretch X s (snd (on_core (upd_core (renew_lease now)) s))"
| command: "stretch X s (snd (on_core (andThen (append_command X cmd) (\<lambda>_. andThen core_sync (\<lambda>_. advance_commit_index))) s))"
| take: "stretch X (n, w) (n\<lparr>n_core := snd (take_committed (n_core n))\<rparr>, w)"
| apply_stretch: "stretch X (n, w) (n\<lparr>n_store := apply_entries es (n_store n)\<rparr>, w)"
| snapshot: "stretch X s (snd (on_store (store_snapshot X term) s))"
| compaction: "stretch X s (snd (on_core (compact meta) s))"
| publish: "stretch X (n, w) (publish_commit index n, w)"
| outside_world: "stretch X (n, w) (n, w\<lparr>w_events := es, w_ticks := ticks, w_draws := draws\<rparr>)"

subsection \<open>Counting votes\<close>

text \<open>What the answer of a peer does to the election that is running: \<open>start_election\<close>, the body of the loop.\<close>

datatype verdict = Over | Won | Go_on nat

definition tally :: "raft_core \<Rightarrow> u64 \<Rightarrow> nat \<Rightarrow> request_vote_reply \<Rightarrow> verdict" where
  "tally c term votes reply =
     (if current_term c < rvr_term reply then Over
      else if c_role c \<noteq> Candidate \<or> current_term c \<noteq> term then Over
      else if rvr_vote_granted reply then if core_quorum c \<le> votes + 1 then Won else Go_on (votes + 1)
      else Go_on votes)"

definition count_vote :: "('x) ext_node_scheme \<Rightarrow> u64 \<Rightarrow> nat \<Rightarrow> request_vote_reply \<Rightarrow> unit node_io" where
  "count_vote X term votes reply = gather_votes X term votes [Voted (Inr reply)]"

record poll =
  p_args :: request_vote_args
  p_votes :: nat
  p_heard :: "u64 list"

definition next_poll :: "poll \<Rightarrow> u64 \<Rightarrow> verdict \<Rightarrow> poll option" where
  "next_poll p peer v = (case v of Go_on votes \<Rightarrow> Some (p\<lparr>p_votes := votes, p_heard := peer # p_heard p\<rparr>) | _ \<Rightarrow> None)"

subsection \<open>The cluster\<close>

datatype proc = Running node world | Stopped world

record system =
  k_proc :: "u64 \<Rightarrow> proc"
  k_poll :: "u64 \<Rightarrow> poll option"
  k_asked :: "request_vote_args set"
  k_replies :: "(u64 \<times> request_vote_args \<times> request_vote_reply) set"
  k_won :: "(u64 \<times> u64) set"              \<comment> \<open>the elections won so far: term and winner\<close>

definition running :: "u64 \<Rightarrow> node \<times> world \<Rightarrow> system \<Rightarrow> system" where
  "running i s k = k\<lparr>k_proc := (k_proc k)(i := Running (fst s) (snd s))\<rparr>"

definition stopped :: "u64 \<Rightarrow> world \<Rightarrow> system \<Rightarrow> system" where
  "stopped i w k = k\<lparr>k_proc := (k_proc k)(i := Stopped w), k_poll := (k_poll k)(i := None)\<rparr>"

text \<open>
  The only guard that is not in the code: an election does not start in the last term a \<open>u64\<close> can count.
\<close>

inductive system_step :: "('x) ext_node_scheme \<Rightarrow> (u64 \<Rightarrow> config) \<Rightarrow> u64 set \<Rightarrow> system \<Rightarrow> system \<Rightarrow> bool" for X cfgs M where
  local: "i \<in> M \<Longrightarrow> k_proc k i = Running n w \<Longrightarrow> stretch X (n, w) s \<Longrightarrow> system_step X cfgs M k (running i s k)"
| campaign: "i \<in> M \<Longrightarrow> k_proc k i = Running n w \<Longrightarrow> current_term (n_core n) < -1 \<Longrightarrow>
    on_core (become_candidate X) (n, w) = (Inr args, s) \<Longrightarrow>
    system_step X cfgs M k ((running i s k)\<lparr>k_poll := (k_poll k)(i \<mapsto> \<lparr>p_args = args, p_votes = 1, p_heard = []\<rparr>), k_asked := insert args (k_asked k)\<rparr>)"
| campaign_fails: "i \<in> M \<Longrightarrow> k_proc k i = Running n w \<Longrightarrow> current_term (n_core n) < -1 \<Longrightarrow>
    on_core (become_candidate X) (n, w) = (Inl e, s) \<Longrightarrow> system_step X cfgs M k ((running i s k)\<lparr>k_poll := (k_poll k)(i := None)\<rparr>)"
| vote: "i \<in> M \<Longrightarrow> k_proc k i = Running n w \<Longrightarrow> args \<in> k_asked k \<Longrightarrow> on_core (handle_request_vote X args) (n, w) = (Inr reply, s) \<Longrightarrow>
    system_step X cfgs M k ((running i s k)\<lparr>k_replies := insert (i, args, reply) (k_replies k)\<rparr>)"
| vote_fails: "i \<in> M \<Longrightarrow> k_proc k i = Running n w \<Longrightarrow> args \<in> k_asked k \<Longrightarrow> on_core (handle_request_vote X args) (n, w) = (Inl e, s) \<Longrightarrow>
    system_step X cfgs M k (running i s k)"
| count: "i \<in> M \<Longrightarrow> k_proc k i = Running n w \<Longrightarrow> k_poll k i = Some p \<Longrightarrow> peer \<in> set (c_peers (n_core n)) \<Longrightarrow> peer \<notin> set (p_heard p) \<Longrightarrow>
    (peer, p_args p, reply) \<in> k_replies k \<Longrightarrow> v = tally (n_core n) (rv_term (p_args p)) (p_votes p) reply \<Longrightarrow>
    s = snd (count_vote X (rv_term (p_args p)) (p_votes p) reply (n, w)) \<Longrightarrow>
    system_step X cfgs M k ((running i s k)\<lparr>k_poll := (k_poll k)(i := next_poll p peer v),
      k_won := (if v = Won then insert (rv_term (p_args p), i) (k_won k) else k_won k)\<rparr>)"
| crash: "i \<in> M \<Longrightarrow> k_proc k i = Running n w \<Longrightarrow> w' = w \<or> crash w w' \<Longrightarrow> system_step X cfgs M k (stopped i w' k)"
| start: "i \<in> M \<Longrightarrow> k_proc k i = Stopped w \<Longrightarrow> bootstrap X (cfgs i) (w\<lparr>w_events := es\<rparr>) = (Inr n, w') \<Longrightarrow>
    system_step X cfgs M k (running i (n, w') k)"
| start_fails: "i \<in> M \<Longrightarrow> k_proc k i = Stopped w \<Longrightarrow> bootstrap X (cfgs i) (w\<lparr>w_events := es\<rparr>) = (Inl e, w') \<Longrightarrow>
    system_step X cfgs M k (stopped i w' k)"

text \<open>The nodes agree on who they are, and every configuration passes the validation of \<^verbatim>\<open>src/config.rs\<close>.\<close>

definition one_cluster :: "(u64 \<Rightarrow> config) \<Rightarrow> u64 set \<Rightarrow> bool" where
  "one_cluster cfgs M \<longleftrightarrow> (\<forall>i\<in>M. cfg_id (cfgs i) = i \<and> validate (cfgs i) = Inr () \<and> cluster (cfgs i) = M)"

text \<open>Before the first start: no node has a hard state on its disk yet.\<close>

definition fresh_disk :: "config \<Rightarrow> world \<Rightarrow> bool" where
  "fresh_disk cfg w \<longleftrightarrow> fs_ok w \<and> (\<forall>p\<in>hard_paths (hard_state_path cfg). \<forall>i. \<not> reach w p i)"

definition system_init :: "(u64 \<Rightarrow> config) \<Rightarrow> u64 set \<Rightarrow> system \<Rightarrow> bool" where
  "system_init cfgs M k \<longleftrightarrow> (\<forall>i\<in>M. \<exists>w. k_proc k i = Stopped w \<and> fresh_disk (cfgs i) w) \<and>
     k_poll k = Map.empty \<and> k_asked k = {} \<and> k_replies k = {} \<and> k_won k = {}"

section \<open>The loop of an election is its steps\<close>

lemma gather_votes_Cons:
  "gather_votes X term votes (Voted (Inr reply) # evs) s =
     andThen (count_vote X term votes reply) (\<lambda>_. case tally (n_core (fst s)) term votes reply of
        Go_on votes' \<Rightarrow> gather_votes X term votes' evs | _ \<Rightarrow> ret ()) s"
  by (cases s) (auto simp: count_vote_def tally_def ask_core_def andThen_def get_st_def ret_def split: prod.splits sum.splits)

section \<open>The invariant of a node\<close>

definition node_inv :: "('x) ext_node_scheme \<Rightarrow> config \<Rightarrow> promise set \<Rightarrow> node \<times> world \<Rightarrow> bool" where
  "node_inv X cfg G = (\<lambda>(n, w). vote_inv X (node_identity cfg) G (n_core n, w) \<and> st_snapshot_dir (n_store n) = snapshot_dir cfg)"

definition proc_inv :: "('x) ext_node_scheme \<Rightarrow> config \<Rightarrow> promise set \<Rightarrow> proc \<Rightarrow> bool" where
  "proc_inv X cfg G p = (case p of Running n w \<Rightarrow> node_inv X cfg G (n, w)
     | Stopped w \<Rightarrow> \<exists>hs. (\<forall>h\<in>hs. \<forall>g\<in>G. covers h g) \<and> hard_file X w (hard_state_path cfg) hs)"

lemma node_inv_mono: "node_inv X cfg G s \<Longrightarrow> G' \<subseteq> G \<Longrightarrow> node_inv X cfg G' s"
  by (auto simp: node_inv_def intro: vote_inv_mono)

lemma preserves_on_core:
  assumes "preserves (vote_inv X (node_identity cfg) G) m anything"
  shows "preserves (node_inv X cfg G) (on_core m) anything"
proof -
  have "preserves (\<lambda>(c, w). node_inv X cfg G (n\<lparr>n_core := c\<rparr>, w)) m anything" for n
    using assms by (auto simp: preserves_def node_inv_def)
  then show ?thesis unfolding on_core_def by (intro preserves_zoom) simp_all
qed

lemma node_inv_snapshot: "preserves (node_inv X cfg G) (on_store (store_snapshot Y term)) anything"
  unfolding preserves_def
proof (intro allI impI conjI TrueI)
  fix s assume s: "node_inv X cfg G s"
  obtain n w where nw: "s = (n, w)" by (cases s)
  let ?m = "\<lambda>meta. snapshot_write Y (snapshot_dir cfg) meta (st_memtable (n_store n))"
  have "preserves (vote_inv X (node_identity cfg) G) (outside (?m meta)) anything" for meta
    by (rule vote_inv_outside) (simp add: node_identity_def preserves_snapshot_write [OF hard_paths_apart(2)])
  then have "vote_inv X (node_identity cfg) G (n_core n, snd (?m meta w))" for meta
    using s run_inv [of "vote_inv X (node_identity cfg) G" "outside (?m meta)" anything "(n_core n, w)"]
    by (simp add: nw node_inv_def outside_def split: prod.splits)
  then show "node_inv X cfg G (snd (on_store (store_snapshot Y term) s))"
    using s by (auto simp: nw node_inv_def on_store_def zoom_def store_snapshot_def andThen_def get_st_def outside_def modify_def ret_def Let_def
        split: prod.splits sum.splits) (metis snd_conv)+
qed

lemma node_inv_script: "node_inv X cfg G (n, w) \<Longrightarrow> node_inv X cfg G (n, w\<lparr>w_events := es, w_ticks := ticks, w_draws := draws\<rparr>)"
proof -
  let ?m = "(\<lambda>w. (Inr (), w\<lparr>w_events := es, w_ticks := ticks, w_draws := draws\<rparr>)) :: unit io"
  assume "node_inv X cfg G (n, w)"
  moreover have "preserves (vote_inv X (node_identity cfg) G) (outside ?m) anything"
    by (rule vote_inv_outside) (simp add: preserves_def)
  ultimately show ?thesis
    using run_inv [of "vote_inv X (node_identity cfg) G" "outside ?m" anything "(n_core n, w)"] by (simp add: node_inv_def outside_def)
qed

lemma stretch_node_inv:
  assumes "codec (x_ser_hard X) (x_de_hard X) UNIV" and "stretch X s s'" and "node_inv X cfg G s"
  shows "node_inv X cfg G s'"
proof -
  have core: "node_inv X cfg G (snd (on_core m s))" if "preserves (vote_inv X (node_identity cfg) G) m anything" for m :: "'b core_io"
    using run_inv [OF preserves_on_core [OF that]] assms(3) by simp
  show ?thesis
    using assms(2)
  proof cases
    case lease
    show ?thesis unfolding lease by (intro core preserves_upd_core) (simp add: renew_lease_def identity_def)
  next
    case (take n w)
    obtain m where "snd (take_committed (n_core n)) = (n_core n)\<lparr>c_last_applied := m\<rparr>"
      using take_committed_keeps [of "n_core n"] by (cases "take_committed (n_core n)") auto
    then show ?thesis using assms(3) by (simp add: take node_inv_def vote_inv_def identity_def keeps_promises_def core_disk_def)
  next
    case (apply_stretch n w es)
    have "st_snapshot_dir (apply_entries es st) = st_snapshot_dir st" for st
      by (induction es arbitrary: st) (simp_all add: apply_entries_def store_apply_def)
    then show ?thesis using assms(3) by (simp add: apply_stretch node_inv_def)
  next
    case snapshot
    then show ?thesis using run_inv [OF node_inv_snapshot] assms(3) by simp
  next
    case outside_world
    then show ?thesis using node_inv_script assms(3) by simp
  next
    case publish
    then show ?thesis using assms(3) by (simp add: node_inv_def publish_commit_def)
  qed (simp only:, intro core preserves_intros assms(1))+
qed

section \<open>The invariant of the cluster\<close>

text \<open>What a node has announced: the votes it granted, and the elections it stood in.\<close>

definition promises :: "system \<Rightarrow> u64 \<Rightarrow> promise set" where
  "promises k i = {(rv_term a, rv_candidate_id a) | a r. (i, a, r) \<in> k_replies k \<and> rvr_vote_granted r} \<union>
     {(rv_term a, i) | a. a \<in> k_asked k \<and> rv_candidate_id a = i}"

definition supporters :: "system \<Rightarrow> u64 set \<Rightarrow> u64 \<Rightarrow> u64 \<Rightarrow> u64 set" where
  "supporters k M term i = {j\<in>M. (term, i) \<in> promises k j}"

text \<open>The votes a running election has counted come from different nodes that promised them.\<close>

definition poll_ok :: "system \<Rightarrow> u64 set \<Rightarrow> u64 \<Rightarrow> poll \<Rightarrow> bool" where
  "poll_ok k M i p \<longleftrightarrow> rv_candidate_id (p_args p) = i \<and> p_args p \<in> k_asked k \<and> i \<notin> set (p_heard p) \<and>
     p_votes p \<le> card (supporters k M (rv_term (p_args p)) i \<inter> insert i (set (p_heard p)))"

definition system_inv :: "('x) ext_node_scheme \<Rightarrow> (u64 \<Rightarrow> config) \<Rightarrow> u64 set \<Rightarrow> system \<Rightarrow> bool" where
  "system_inv X cfgs M k \<longleftrightarrow>
     (\<forall>i\<in>M. proc_inv X (cfgs i) (promises k i) (k_proc k i) \<and> single_valued (promises k i) \<and>
        (\<forall>p. k_poll k i = Some p \<longrightarrow> poll_ok k M i p)) \<and>
     (\<forall>(t, i)\<in>k_won k. majority (card M) (supporters k M t i))"

lemma poll_ok_mono:
  assumes "poll_ok k M i p" and "finite M" and "\<And>j. promises k j \<subseteq> promises k' j" and "k_asked k \<subseteq> k_asked k'"
  shows "poll_ok k' M i p"
proof -
  let ?s = "\<lambda>k. supporters k M (rv_term (p_args p)) i \<inter> insert i (set (p_heard p))"
  have "?s k \<subseteq> ?s k'" using assms(3) by (auto simp: supporters_def)
  then have "card (?s k) \<le> card (?s k')" by (intro card_mono) auto
  then show ?thesis using assms(1,4) by (auto simp: poll_ok_def)
qed

lemma majority_mono: "majority n Q \<Longrightarrow> Q \<subseteq> R \<Longrightarrow> finite R \<Longrightarrow> majority n R"
  using card_mono [of R Q] by (simp add: majority_def)

text \<open>A step of one node: what has to be shown of it.\<close>

lemma system_inv_step:
  assumes "system_inv X cfgs M k" and "finite M"
    and "k_proc k' = (k_proc k)(i := q)" and "\<And>j. j \<noteq> i \<Longrightarrow> promises k' j = promises k j" and "promises k i \<subseteq> promises k' i"
    and "k_asked k \<subseteq> k_asked k'" and "\<And>j. j \<noteq> i \<Longrightarrow> k_poll k' j = k_poll k j"
    and "proc_inv X (cfgs i) (promises k' i) q" and "single_valued (promises k' i)"
    and "\<And>p. k_poll k' i = Some p \<Longrightarrow> poll_ok k' M i p"
    and "\<And>t j. (t, j) \<in> k_won k' \<Longrightarrow> (t, j) \<in> k_won k \<or> majority (card M) (supporters k' M t j)"
  shows "system_inv X cfgs M k'"
  unfolding system_inv_def
proof (intro conjI ballI allI impI; clarsimp?)
  have mono: "promises k j \<subseteq> promises k' j" for j using assms(4,5) by (cases "j = i") auto
  {
    fix j assume "j \<in> M"
    then have "proc_inv X (cfgs j) (promises k j) (k_proc k j) \<and> single_valued (promises k j)" using assms(1) by (simp add: system_inv_def)
    then show "proc_inv X (cfgs j) (promises k' j) (k_proc k' j)" and "single_valued (promises k' j)"
      using assms(3,4,8,9) by (cases "j = i"; simp)+
    fix p assume p: "k_poll k' j = Some p"
    show "poll_ok k' M j p"
    proof (cases "j = i")
      case False
      then have "poll_ok k M j p" using \<open>j \<in> M\<close> p assms(1,7) by (simp add: system_inv_def)
      then show ?thesis using poll_ok_mono [OF _ assms(2) mono assms(6)] by blast
    qed (use assms(10) p in simp)
  next
    fix t j assume "(t, j) \<in> k_won k'"
    moreover have "supporters k M t j \<subseteq> supporters k' M t j" "finite (supporters k' M t j)"
      using mono assms(2) by (auto simp: supporters_def)
    ultimately show "majority (card M) (supporters k' M t j)"
      using assms(1,11) majority_mono by (fastforce simp: system_inv_def)
  }
qed

text \<open>The same for a step that announces nothing.\<close>

lemma system_inv_quiet:
  assumes "system_inv X cfgs M k" and "finite M" and "k_proc k' = (k_proc k)(i := q)"
    and "k_asked k' = k_asked k" and "k_replies k' = k_replies k" and "k_won k' = k_won k"
    and "\<And>j. k_poll k' j = k_poll k j \<or> k_poll k' j = None" and "i \<in> M" and "proc_inv X (cfgs i) (promises k i) q"
  shows "system_inv X cfgs M k'"
proof -
  have same: "promises k' = promises k" "supporters k' = supporters k" using assms(4,5) by (auto simp: promises_def supporters_def fun_eq_iff)
  have "poll_ok k' M j p" if "k_poll k' j = Some p" "j \<in> M" for j p
    using that assms(1) assms(7) [of j] same assms(4) by (auto simp: system_inv_def poll_ok_def)
  then show ?thesis
    using assms(1,3,6,8,9) same unfolding system_inv_def by auto
qed

section \<open>Every step keeps it\<close>

lemma on_core_runs:
  assumes "on_core m (n, w) = (r, s)"
  obtains c' w' where "m (n_core n, w) = (r, (c', w'))" and "s = (n\<lparr>n_core := c'\<rparr>, w')"
  using assms by (auto simp: on_core_def zoom_def split: prod.splits)

text \<open>Standing in an election: the node's own vote is new and belongs to a term later than all its promises.\<close>

lemma campaign_node_inv:
  assumes "codec (x_ser_hard X) (x_de_hard X) UNIV" and "node_inv X cfg G (n, w)" and "current_term (n_core n) < -1"
    and "on_core (become_candidate X) (n, w) = (r, s)"
  shows "node_inv X cfg G s"
    and "r = Inr args \<Longrightarrow> node_inv X cfg (insert (rv_term args, rv_candidate_id args) G) s \<and> rv_candidate_id args = cfg_id cfg \<and>
       (\<forall>g\<in>G. fst g < rv_term args)"
proof -
  from assms(4) obtain c' w' where m: "become_candidate X (n_core n, w) = (r, (c', w'))" and s: "s = (n\<lparr>n_core := c'\<rparr>, w')"
    by (rule on_core_runs)
  have v: "vote_inv X (node_identity cfg) G (n_core n, w)" using assms(2) by (simp add: node_inv_def)
  note cand = wp_become_candidate [OF assms(1) v assms(3) [unfolded current_term_def]]
  have w: "st_snapshot_dir (n_store n) = snapshot_dir cfg" "c_id (n_core n) = cfg_id cfg" "\<forall>g\<in>G. fst g \<le> hs_term (c_hard (n_core n))"
    using assms(2) v by (auto simp: node_inv_def vote_inv_def identity_def node_identity_def keeps_promises_def covers_def)
  show "r = Inr args \<Longrightarrow> node_inv X cfg (insert (rv_term args, rv_candidate_id args) G) s \<and> rv_candidate_id args = cfg_id cfg \<and>
       (\<forall>g\<in>G. fst g < rv_term args)"
    using cand m w by (auto simp: wp_def s node_inv_def)
  then show "node_inv X cfg G s"
    using cand m w by (cases r) (auto simp: wp_def s node_inv_def intro: vote_inv_mono)
qed

lemma vote_node_inv:
  assumes "codec (x_ser_hard X) (x_de_hard X) UNIV" and "node_inv X cfg G (n, w)" and "on_core (handle_request_vote X args) (n, w) = (r, s)"
  shows "node_inv X cfg G s"
    and "r = Inr reply \<Longrightarrow> rvr_vote_granted reply \<Longrightarrow> node_inv X cfg (insert (rv_term args, rv_candidate_id args) G) s \<and>
       (\<forall>v. (rv_term args, v) \<in> G \<longrightarrow> v = rv_candidate_id args)"
proof -
  from assms(3) obtain c' w' where m: "handle_request_vote X args (n_core n, w) = (r, (c', w'))" and s: "s = (n\<lparr>n_core := c'\<rparr>, w')"
    by (rule on_core_runs)
  have v: "vote_inv X (node_identity cfg) G (n_core n, w)" using assms(2) by (simp add: node_inv_def)
  show "node_inv X cfg G s"
    using preservesD [OF vote_inv_request_vote [OF assms(1)] v m] assms(2) by (simp add: s node_inv_def)
  show "r = Inr reply \<Longrightarrow> rvr_vote_granted reply \<Longrightarrow> node_inv X cfg (insert (rv_term args, rv_candidate_id args) G) s \<and>
       (\<forall>v. (rv_term args, v) \<in> G \<longrightarrow> v = rv_candidate_id args)"
    using wp_request_vote [OF assms(1) v, of args] m assms(2) by (simp add: wp_def s node_inv_def)
qed

lemma count_node_inv:
  assumes "codec (x_ser_hard X) (x_de_hard X) UNIV"
  shows "preserves (node_inv X cfg G) (count_vote X term votes reply) anything"
  unfolding count_vote_def gather_votes.simps ask_core_def
  by (intro preserves_andThen_anything preserves_read preserves_prod preserves_if preserves_ret TrueI preserves_on_core
      vote_inv_become_follower [OF assms] vote_inv_take_office)

lemma start_node_inv:
  assumes "proc_inv X cfg G (Stopped w)" and "bootstrap X cfg (w\<lparr>w_events := es\<rparr>) = (r, w')"
  shows "case r of Inr n \<Rightarrow> node_inv X cfg G (n, w') | Inl _ \<Rightarrow> proc_inv X cfg G (Stopped w')"
proof -
  obtain hs where hs: "\<forall>h\<in>hs. \<forall>g\<in>G. covers h g" "hard_file X (w\<lparr>w_events := es\<rparr>) (hard_state_path cfg) hs"
    using assms(1) by (auto simp: proc_inv_def)
  show ?thesis using wp_bootstrap [OF hs(2,1)] assms(2) hs(1) by (cases r) (auto simp: wp_def node_inv_def proc_inv_def)
qed

lemma crash_proc_inv:
  assumes "node_inv X cfg G (n, w)" and "w' = w \<or> crash w w'"
  shows "proc_inv X cfg G (Stopped w')"
proof -
  obtain hs where hs: "\<forall>h\<in>hs. \<forall>g\<in>G. covers h g" "core_disk X hs (n_core n, w)" and i: "identity (n_core n) = node_identity cfg"
    using assms(1) by (auto simp: node_inv_def vote_inv_def keeps_promises_def)
  have "hard_file X w (hard_state_path cfg) hs" using hs(2) i by (simp add: core_disk_def identity_def node_identity_def)
  then have "hard_file X w' (hard_state_path cfg) hs" using assms(2) hard_file_crash [of X w _ hs w'] by blast
  then show ?thesis using hs(1) by (auto simp: proc_inv_def)
qed

lemma promises_ask:
  "k_replies k' = k_replies k \<Longrightarrow> k_asked k' = insert a (k_asked k) \<Longrightarrow>
   promises k' j = (if rv_candidate_id a = j then insert (rv_term a, j) (promises k j) else promises k j)"
  by (auto simp: promises_def)

lemma promises_reply:
  "k_asked k' = k_asked k \<Longrightarrow> k_replies k' = insert (i, a, r) (k_replies k) \<Longrightarrow>
   promises k' j = (if j = i \<and> rvr_vote_granted r then insert (rv_term a, rv_candidate_id a) (promises k j) else promises k j)"
  by (auto simp: promises_def)

lemma single_valued_insert_new: "single_valued R \<Longrightarrow> (\<And>v. (t, v) \<in> R \<Longrightarrow> v = x) \<Longrightarrow> single_valued (insert (t, x) R)"
  by (auto simp: single_valued_def)

lemma one_cluster_facts:
  assumes "one_cluster cfgs M" and "i \<in> M"
  shows "finite M" and "cfg_id (cfgs i) = i" and "peer_id ` set (cfg_peers (cfgs i)) = M - {i}" and "cluster_size (cfgs i) = card M"
proof -
  have c: "cfg_id (cfgs i) = i" "insert i (peer_id ` set (cfg_peers (cfgs i))) = M" "distinct (i # map peer_id (cfg_peers (cfgs i)))"
    using assms by (auto simp: one_cluster_def validate_iff cluster_def)
  then show "finite M" "cfg_id (cfgs i) = i" "peer_id ` set (cfg_peers (cfgs i)) = M - {i}" by auto
  have "card M = length (i # map peer_id (cfg_peers (cfgs i)))" using distinct_card [OF c(3)] c(2) by simp
  then show "cluster_size (cfgs i) = card M" by (simp add: cluster_size_def)
qed

lemma node_inv_identity:
  "node_inv X cfg G (n, w) \<Longrightarrow> c_peers (n_core n) = map peer_id (cfg_peers cfg) \<and> c_cluster_size (n_core n) = cluster_size cfg"
  by (simp add: node_inv_def vote_inv_def identity_def node_identity_def)

lemma system_inv_campaign:
  assumes "codec (x_ser_hard X) (x_de_hard X) UNIV" and "one_cluster cfgs M" and "system_inv X cfgs M k" and "i \<in> M"
    and "k_proc k i = Running n w" and "current_term (n_core n) < -1" and "on_core (become_candidate X) (n, w) = (Inr args, s)"
    and k': "k' = (running i s k)\<lparr>k_poll := (k_poll k)(i \<mapsto> \<lparr>p_args = args, p_votes = 1, p_heard = []\<rparr>), k_asked := insert args (k_asked k)\<rparr>"
  shows "system_inv X cfgs M k'"
proof -
  have c: "finite M" "cfg_id (cfgs i) = i" using one_cluster_facts [OF assms(2,4)] by blast+
  have inv: "node_inv X (cfgs i) (promises k i) (n, w)" "single_valued (promises k i)"
    using assms(3,4,5) by (auto simp: system_inv_def proc_inv_def split: proc.splits)
  have a: "node_inv X (cfgs i) (insert (rv_term args, i) (promises k i)) s" "rv_candidate_id args = i" "\<forall>g\<in>promises k i. fst g < rv_term args"
    using campaign_node_inv(2) [OF assms(1) inv(1) assms(6,7)] c(2) by auto
  have f: "k_proc k' = (k_proc k)(i := Running (fst s) (snd s))" "k_asked k' = insert args (k_asked k)" "k_replies k' = k_replies k"
    "k_poll k' = (k_poll k)(i \<mapsto> \<lparr>p_args = args, p_votes = 1, p_heard = []\<rparr>)" "k_won k' = k_won k"
    by (simp_all add: k' running_def)
  have p: "promises k' j = (if j = i then insert (rv_term args, i) (promises k i) else promises k j)" for j
    using promises_ask [OF f(3,2), of j] a(2) by auto
  have "single_valued (promises k' i)" using inv(2) a(3) by (auto simp: p intro!: single_valued_insert_new)
  moreover have "supporters k' M (rv_term args) i \<inter> {i} = {i}" using assms(4) p by (auto simp: supporters_def)
  then have "poll_ok k' M i \<lparr>p_args = args, p_votes = 1, p_heard = []\<rparr>" using a(2) by (simp add: poll_ok_def f)
  ultimately show ?thesis
    using a(1) by (intro system_inv_step [OF assms(3) c(1) f(1)]) (auto simp: p f(2-5) proc_inv_def)
qed

lemma system_inv_vote:
  assumes "codec (x_ser_hard X) (x_de_hard X) UNIV" and "one_cluster cfgs M" and "system_inv X cfgs M k" and "i \<in> M"
    and "k_proc k i = Running n w" and "on_core (handle_request_vote X args) (n, w) = (Inr reply, s)"
    and k': "k' = (running i s k)\<lparr>k_replies := insert (i, args, reply) (k_replies k)\<rparr>"
  shows "system_inv X cfgs M k'"
proof -
  have c: "finite M" using one_cluster_facts [OF assms(2,4)] by blast
  have inv: "node_inv X (cfgs i) (promises k i) (n, w)" "single_valued (promises k i)"
    using assms(3,4,5) by (auto simp: system_inv_def proc_inv_def split: proc.splits)
  note v = vote_node_inv [OF assms(1) inv(1) assms(6)]
  have f: "k_proc k' = (k_proc k)(i := Running (fst s) (snd s))" "k_asked k' = k_asked k" "k_replies k' = insert (i, args, reply) (k_replies k)"
    "k_poll k' = k_poll k" "k_won k' = k_won k"
    by (simp_all add: k' running_def)
  have p: "promises k' j = (if j = i \<and> rvr_vote_granted reply then insert (rv_term args, rv_candidate_id args) (promises k i) else promises k j)" for j
    using promises_reply [OF f(2,3), of j] by auto
  have "single_valued (promises k' i)" using inv(2) v(2) [OF refl] by (auto simp: p intro!: single_valued_insert_new)
  moreover have "node_inv X (cfgs i) (promises k' i) s" using v by (simp add: p)
  moreover have "poll_ok k' M i q" if "k_poll k i = Some q" for q
  proof (rule poll_ok_mono)
    show "poll_ok k M i q" using that assms(3,4) by (simp add: system_inv_def)
  qed (use c p f(2) in auto)
  ultimately show ?thesis
    by (intro system_inv_step [OF assms(3) c f(1)]) (auto simp: p f(2-5) proc_inv_def)
qed

text \<open>A vote that is counted was promised by a peer not heard before.\<close>

lemma count_supporters:
  assumes "poll_ok k M i p" and "finite M" and "peer \<in> M" and "peer \<noteq> i" and "peer \<notin> set (p_heard p)"
    and "(peer, p_args p, reply) \<in> k_replies k" and "rvr_vote_granted reply"
  shows "p_votes p + 1 \<le> card (supporters k M (rv_term (p_args p)) i \<inter> insert i (set (peer # p_heard p)))"
proof -
  let ?S = "supporters k M (rv_term (p_args p)) i"
  have "peer \<in> ?S" using assms(1,3,6,7) by (auto simp: supporters_def promises_def poll_ok_def)
  then have "?S \<inter> insert i (set (peer # p_heard p)) = insert peer (?S \<inter> insert i (set (p_heard p)))" by auto
  moreover have "peer \<notin> ?S \<inter> insert i (set (p_heard p))" using assms(4,5) by auto
  ultimately show ?thesis using assms(1) by (simp add: poll_ok_def)
qed

lemma system_inv_count:
  assumes "codec (x_ser_hard X) (x_de_hard X) UNIV" and "one_cluster cfgs M" and "system_inv X cfgs M k" and "i \<in> M"
    and "k_proc k i = Running n w" and "k_poll k i = Some p" and "peer \<in> set (c_peers (n_core n))" and "peer \<notin> set (p_heard p)"
    and "(peer, p_args p, reply) \<in> k_replies k" and "v = tally (n_core n) (rv_term (p_args p)) (p_votes p) reply"
    and "s = snd (count_vote X (rv_term (p_args p)) (p_votes p) reply (n, w))"
    and k': "k' = (running i s k)\<lparr>k_poll := (k_poll k)(i := next_poll p peer v),
      k_won := (if v = Won then insert (rv_term (p_args p), i) (k_won k) else k_won k)\<rparr>"
  shows "system_inv X cfgs M k'"
proof -
  note c = one_cluster_facts [OF assms(2,4)]
  have inv: "node_inv X (cfgs i) (promises k i) (n, w)" "single_valued (promises k i)" and ok: "poll_ok k M i p"
    using assms(3,4,5,6) by (auto simp: system_inv_def proc_inv_def split: proc.splits)
  have n: "node_inv X (cfgs i) (promises k i) s" unfolding assms(11) by (rule run_inv [OF count_node_inv [OF assms(1)] inv(1)])
  have peer: "peer \<in> M" "peer \<noteq> i" and size: "core_quorum (n_core n) = card M div 2 + 1"
    using node_inv_identity [OF inv(1)] assms(7) c(3,4) by (auto simp: core_quorum_def)
  have f: "k_proc k' = (k_proc k)(i := Running (fst s) (snd s))" "k_asked k' = k_asked k" "k_replies k' = k_replies k"
    "k_poll k' = (k_poll k)(i := next_poll p peer v)" "k_won k' = (if v = Won then insert (rv_term (p_args p), i) (k_won k) else k_won k)"
    by (simp_all add: k' running_def)
  have same: "promises k' = promises k" "supporters k' = supporters k" by (auto simp: promises_def supporters_def f fun_eq_iff)
  let ?S = "supporters k M (rv_term (p_args p)) i"
  note up = count_supporters [OF ok c(1) peer assms(8,9)]
  have "poll_ok k' M i q" if q: "next_poll p peer v = Some q" for q
  proof -
    obtain votes where votes: "v = Go_on votes" "q = p\<lparr>p_votes := votes, p_heard := peer # p_heard p\<rparr>"
      using q by (auto simp: next_poll_def split: verdict.splits)
    have "card (?S \<inter> insert i (set (p_heard p))) \<le> card (?S \<inter> insert i (set (peer # p_heard p)))" by (intro card_mono) auto
    then have "votes \<le> card (?S \<inter> insert i (set (peer # p_heard p)))"
      using votes(1) assms(10) up ok by (auto simp: tally_def poll_ok_def split: if_splits)
    then show ?thesis using ok peer by (simp add: poll_ok_def votes(2) same f(2))
  qed
  moreover have "majority (card M) ?S" if "v = Won"
  proof -
    have "card M div 2 + 1 \<le> card (?S \<inter> insert i (set (peer # p_heard p)))"
      using that assms(10) up size by (auto simp: tally_def split: if_splits)
    then show ?thesis using majority_mono [of "card M" "?S \<inter> insert i (set (peer # p_heard p))" ?S] c(1) by (auto simp: majority_def supporters_def)
  qed
  ultimately show ?thesis
    using n inv(2) by (intro system_inv_step [OF assms(3) c(1) f(1)]) (auto simp: same f(2-5) proc_inv_def split: if_splits)
qed

lemma system_inv_running:
  assumes "system_inv X cfgs M k" and "finite M" and "i \<in> M" and "node_inv X (cfgs i) (promises k i) s"
  shows "system_inv X cfgs M (running i s k)" and "system_inv X cfgs M ((running i s k)\<lparr>k_poll := (k_poll k)(i := None)\<rparr>)"
  by (rule system_inv_quiet [OF assms(1,2), of _ i "Running (fst s) (snd s)"]; use assms(3,4) in \<open>simp add: running_def proc_inv_def\<close>)+

lemma system_inv_stopped:
  assumes "system_inv X cfgs M k" and "finite M" and "i \<in> M" and "proc_inv X (cfgs i) (promises k i) (Stopped w)"
  shows "system_inv X cfgs M (stopped i w k)"
  by (rule system_inv_quiet [OF assms(1,2), of _ i "Stopped w"]; use assms(3,4) in \<open>simp add: stopped_def\<close>)

lemma system_step_inv:
  assumes "codec (x_ser_hard X) (x_de_hard X) UNIV" and "one_cluster cfgs M" and "system_step X cfgs M k k'" and "system_inv X cfgs M k"
  shows "system_inv X cfgs M k'"
proof -
  have proc: "proc_inv X (cfgs i) (promises k i) (k_proc k i)" if "i \<in> M" for i using assms(4) that by (simp add: system_inv_def)
  have run: "node_inv X (cfgs i) (promises k i) (n, w)" if "i \<in> M" "k_proc k i = Running n w" for i n w
    using proc [OF that(1)] that(2) by (simp add: proc_inv_def)
  have fin: "finite M" if "i \<in> M" for i using one_cluster_facts(1) [OF assms(2) that] .
  show ?thesis
    using assms(3)
  proof cases
    case (local i n w s)
    show ?thesis unfolding local(1)
      by (rule system_inv_running(1) [OF assms(4) fin [OF local(2)] local(2) stretch_node_inv [OF assms(1) local(4) run [OF local(2,3)]]])
  next
    case (campaign_fails i n w e s)
    show ?thesis unfolding campaign_fails(1)
      by (rule system_inv_running(2) [OF assms(4) fin [OF campaign_fails(2)] campaign_fails(2)
          campaign_node_inv(1) [OF assms(1) run [OF campaign_fails(2,3)] campaign_fails(4,5)]])
  next
    case (vote_fails i n w args e s)
    show ?thesis unfolding vote_fails(1)
      by (rule system_inv_running(1) [OF assms(4) fin [OF vote_fails(2)] vote_fails(2) vote_node_inv(1) [OF assms(1) run [OF vote_fails(2,3)] vote_fails(5)]])
  next
    case (crash i n w w')
    show ?thesis unfolding crash(1)
      by (rule system_inv_stopped [OF assms(4) fin [OF crash(2)] crash(2) crash_proc_inv [OF run [OF crash(2,3)] crash(4)]])
  next
    case (start i w es n w')
    have "node_inv X (cfgs i) (promises k i) (n, w')" using start_node_inv [OF proc [OF start(2), unfolded start(3)] start(4)] by simp
    then show ?thesis unfolding start(1) by (rule system_inv_running(1) [OF assms(4) fin [OF start(2)] start(2)])
  next
    case (start_fails i w es e w')
    have "proc_inv X (cfgs i) (promises k i) (Stopped w')"
      using start_node_inv [OF proc [OF start_fails(2), unfolded start_fails(3)] start_fails(4)] by simp
    then show ?thesis unfolding start_fails(1) by (rule system_inv_stopped [OF assms(4) fin [OF start_fails(2)] start_fails(2)])
  next
    case (campaign i n w args s)
    show ?thesis by (rule system_inv_campaign [OF assms(1,2,4) campaign(2-5,1)])
  next
    case (vote i n w args reply s)
    show ?thesis by (rule system_inv_vote [OF assms(1,2,4) vote(2,3,5,1)])
  next
    case (count i n w p peer reply v s)
    show ?thesis by (rule system_inv_count [OF assms(1,2,4) count(2-9,1)])
  qed
qed

lemma system_init_inv:
  assumes "system_init cfgs M k"
  shows "system_inv X cfgs M k"
proof -
  have "\<exists>hs. hard_file X w (hard_state_path (cfgs i)) hs" if "fresh_disk (cfgs i) w" for i w
    using that hard_file_fresh [of w "hard_state_path (cfgs i)" X]
    by (auto simp: fresh_disk_def hard_state_path_def tmp_path_def)
  moreover have "promises k i = {}" for i using assms by (auto simp: system_init_def promises_def)
  ultimately show ?thesis using assms by (force simp: system_init_def system_inv_def proc_inv_def single_valued_def)
qed

lemma system_reach_inv:
  assumes "codec (x_ser_hard X) (x_de_hard X) UNIV" and "one_cluster cfgs M" and "system_init cfgs M k" and "(system_step X cfgs M)\<^sup>*\<^sup>* k k'"
  shows "system_inv X cfgs M k'"
  using assms(4) by (induction rule: rtranclp_induct) (auto intro: system_init_inv [OF assms(3)] system_step_inv [OF assms(1,2)])

section \<open>Election safety\<close>

lemma won_unique:
  assumes "system_inv X cfgs M k" and "finite M"
  shows "single_valued (k_won k)"
  unfolding single_valued_def
proof (intro allI impI)
  fix t a b assume w: "(t, a) \<in> k_won k" "(t, b) \<in> k_won k"
  then have "majority (card M) (supporters k M t a)" "majority (card M) (supporters k M t b)" using assms(1) by (auto simp: system_inv_def)
  then obtain j where "j \<in> supporters k M t a \<inter> supporters k M t b"
    using majorities_intersect [OF assms(2) order_refl] by (metis (no_types, lifting) equals0I mem_Collect_eq subsetI supporters_def)
  then have "j \<in> M" "(t, a) \<in> promises k j" "(t, b) \<in> promises k j" by (auto simp: supporters_def)
  moreover have "single_valued (promises k j)" using assms(1) \<open>j \<in> M\<close> by (simp add: system_inv_def)
  ultimately show "a = b" by (auto simp: single_valued_def)
qed

end
