(* ===== verification/Raft_Safety.thy ===== *)
theory Raft_Safety
  imports Raft_Cluster
begin

text \<open>
  The properties of elections: at most one winner per term, votes that survive crashes, and the outcome of the loop that
  counts votes. The first part shows that on a disk that does not fail the operations of an election succeed.
\<close>

section \<open>Progress on a healthy disk\<close>

lemma become_candidate_run:
  assumes "hard_file X w (c_hard_path c) hs" and "codec (x_ser_hard X) (x_de_hard X) UNIV" and "w_clean w"
    and "as_millis (c_election_start c) < as_millis (c_election_end c)"
  shows "\<exists>c' w'. become_candidate X (c, w) = (Inr \<lparr>rv_term = current_term c + 1, rv_candidate_id = c_id c, rv_last_log_index = last_log_index c,
     rv_last_log_term = last_log_term c\<rparr>, c', w') \<and> w_clean w' \<and> c_role c' = Candidate \<and> current_term c' = current_term c + 1 \<and> identity c' = identity c"
proof -
  let ?c = "c\<lparr>c_role := Candidate, c_hard := \<lparr>hs_term = hs_term (c_hard c) + 1, hs_voted_for = Some (c_id c)\<rparr>\<rparr>"
  obtain w1 where 1: "persist_hard X (?c, w) = (Inr (), ?c, w1)" "w_clean w1"
    using persist_hard_run [of X w ?c hs, OF _ assms(2,3)] assms(1) by auto
  obtain d w2 where "reset_election_timer X (?c\<lparr>c_leader_id := None\<rparr>, w1) = (Inr (), ?c\<lparr>c_leader_id := None, c_election_deadline := d\<rparr>, w2)" "w_clean w2"
    using timer_run [OF _ 1(2), of "?c\<lparr>c_leader_id := None\<rparr>" X] assms(4) by auto
  then show ?thesis
    using 1(1) by (simp add: become_candidate_def andThen_def modify_def get_st_def ret_def last_log_index_def last_log_term_def current_term_def identity_def)
qed

text \<open>A node in an earlier term grants its vote to a candidate whose log is up to date.\<close>

lemma request_vote_run:
  assumes "hard_file X w (c_hard_path c) hs" and "codec (x_ser_hard X) (x_de_hard X) UNIV" and "w_clean w"
    and "as_millis (c_election_start c) < as_millis (c_election_end c)" and "current_term c < rv_term args"
    and "up_to_date (rv_last_log_term args, rv_last_log_index args) (last_log_term c, last_log_index c)"
  shows "\<exists>s. handle_request_vote X args (c, w) = (Inr \<lparr>rvr_term = rv_term args, rvr_vote_granted = True\<rparr>, s)"
proof -
  let ?c = "c\<lparr>c_hard := \<lparr>hs_term = rv_term args, hs_voted_for = None\<rparr>\<rparr>"
  let ?c1 = "?c\<lparr>c_role := Follower, c_leader_id := None, c_lease := lease_invalidate (c_lease c)\<rparr>"
  let ?c2 = "?c1\<lparr>c_hard := \<lparr>hs_term = rv_term args, hs_voted_for = Some (rv_candidate_id args)\<rparr>\<rparr>"
  obtain w1 where 1: "hard_persist X (c_hard ?c) (c_hard_path c) w = (Inr (), w1)" "w_clean w1" "hard_file X w1 (c_hard_path c) {c_hard ?c}"
    using hard_persist_run [OF assms(1-3)] by blast
  obtain w2 where 2: "hard_persist X (c_hard ?c2) (c_hard_path c) w1 = (Inr (), w2)" "w_clean w2"
    using hard_persist_run [OF 1(3) assms(2) 1(2)] by blast
  obtain d w3 where "reset_election_timer X (?c2, w2) = (Inr (), ?c2\<lparr>c_election_deadline := d\<rparr>, w3)"
    using timer_run [OF _ 2(2), of ?c2 X] assms(4) by auto
  then show ?thesis
    using assms(5,6) 1(1) 2(1)
    by (simp add: handle_request_vote_def become_follower_def persist_hard_def andThen_def modify_def get_st_def ret_def outside_def Let_def
        last_log_index_def last_log_term_def current_term_def not_less_iff_gr_or_eq split: if_splits)
qed

text \<open>The first start of a node.\<close>

lemma bootstrap_run:
  assumes "fresh_disk cfg w" and "w_clean w" and "wal_dir cfg \<in> set (w_dirs w)" and "snapshot_dir cfg \<notin> set (w_dirs w)"
    and "\<And>p. butlast p = wal_dir cfg \<Longrightarrow> w_find w p = None" and "as_millis (cfg_election_start cfg) < as_millis (cfg_election_end cfg)"
  shows "\<exists>n w'. bootstrap X cfg w = (Inr n, w') \<and> w_clean w' \<and> c_hard (n_core n) = default_hard_state \<and> c_entries (n_core n) = [] \<and>
     c_snapshot (n_core n) = default_meta \<and> c_role (n_core n) = Follower \<and> c_election_start (n_core n) = cfg_election_start cfg \<and>
     c_election_end (n_core n) = cfg_election_end cfg"
proof -
  let ?p = "hard_state_path cfg" and ?w1 = "w\<lparr>w_events := tl (w_events w)\<rparr>"
  have f: "hard_file X w ?p {default_hard_state}"
    using assms(1) by (intro hard_file_fresh) (auto simp: fresh_disk_def hard_state_path_def tmp_path_def)
  have "dir_exists (snapshot_dir cfg) w = (Inr False, ?w1)"
    using assms(2,4) pop_event_clean [OF assms(2)] by (auto simp: dir_exists_def)
  then obtain st where st: "store_open X cfg w = (Inr st, ?w1)" "st_last_snapshot st = default_meta"
    by (simp add: store_open_def load_latest_def discover_def andThen_def ret_def Let_def)
  have "fs_ok ?w1" "w_clean ?w1" using assms(1,2) by (auto simp: fresh_disk_def)
  with log_open_fresh_run [of ?w1 "wal_dir cfg" X "cfg_segment_max_bytes cfg"] assms(3,5)
  obtain l w2 where l: "log_open X (wal_dir cfg) (cfg_segment_max_bytes cfg) ?w1 = (Inr l, w2)" "log_ok X w2 l [[]]" "log_synced w2 l" "w_clean w2"
    "log_first_index l = 1" by auto
  have sp: "spares (hard_paths ?p) (files_of w (hard_paths ?p)) w ?w1" using f by (simp add: hard_file_def spares_refl)
  have "hard_file X w2 ?p {default_hard_state}"
    using hard_file_spares [OF f preservesD [OF preserves_log_open [OF hard_paths_apart(1)] sp l(1)]] .
  from hard_load_run [OF this l(4)] have load: "hard_load X ?p w2 = (Inr default_hard_state, w2\<lparr>w_events := tl (w_events w2)\<rparr>)" by simp
  let ?w3 = "w2\<lparr>w_events := tl (w_events w2)\<rparr>"
  have "log_holds X ?w3 l 1 []" using l(2,5) by (auto simp: log_holds_def intro!: exI [of _ "[[]]"])
  moreover have "log_synced ?w3 l" "w_clean ?w3" using l(3,4) by (auto simp: log_synced_def seg_synced_def)
  ultimately obtain es where rd: "log_read_all X l ?w3 = (Inr (numbered 1 []), ?w3\<lparr>w_events := es\<rparr>)" "clean es"
    using wl.read_all_law [of X ?w3 l 1 "[]"] by blast
  show ?thesis
    using st l(1) load rd assms(6)
    by (simp add: bootstrap_def restore_def andThen_def ret_def lift_sum_def numbered_def instant_now_def Let_def reset_election_timer_def get_st_def
        outside_def gen_range_def modify_def)
qed

section \<open>An election of two nodes\<close>

text \<open>A run of the transition system in which somebody wins.\<close>

definition pair_cfg :: "u64 \<Rightarrow> config" where
  "pair_cfg i = (config_new i ''127.0.0.1:1'' [''d''])\<lparr>cfg_peers := [\<lparr>peer_id = 3 - i, peer_addr = ''127.0.0.1:2''\<rparr>]\<rparr>"

definition pair_start :: system where
  "pair_start = \<lparr>k_proc = (\<lambda>i. Stopped (empty_world (wal_dir (pair_cfg i)) [])), k_poll = Map.empty, k_asked = {}, k_replies = {}, k_won = {}\<rparr>"

lemma pair_cfg_facts:
  "cfg_id (pair_cfg i) = i" "map peer_id (cfg_peers (pair_cfg i)) = [3 - i]" "cluster_size (pair_cfg i) = 2"
  "as_millis (cfg_election_start (pair_cfg i)) < as_millis (cfg_election_end (pair_cfg i))"
  by (simp_all add: pair_cfg_def config_new_def cluster_size_def)

lemma pair_one_cluster: "one_cluster pair_cfg {1, 2}"
  by (auto simp: one_cluster_def validate_iff pair_cfg_def config_new_def cluster_def from_millis_def)

lemma pair_fresh: "fresh_disk (pair_cfg i) (empty_world (wal_dir (pair_cfg i)) [])"
  by (simp add: fresh_disk_def empty_world_reach)

lemma pair_init: "system_init pair_cfg {1, 2} pair_start"
  by (auto simp: system_init_def pair_start_def pair_fresh)

text \<open>A node that has just started for the first time.\<close>

definition newborn :: "config \<Rightarrow> node \<times> world \<Rightarrow> bool" where
  "newborn cfg = (\<lambda>(n, w). identity (n_core n) = node_identity cfg \<and> (\<exists>hs. hard_file sample_node w (c_hard_path (n_core n)) hs) \<and> w_clean w \<and>
     current_term (n_core n) = 0 \<and> last_log_index (n_core n) = 0 \<and> last_log_term (n_core n) = 0 \<and>
     as_millis (c_election_start (n_core n)) < as_millis (c_election_end (n_core n)))"

lemma pair_bootstrap:
  "\<exists>n w'. bootstrap sample_node (pair_cfg i) (empty_world (wal_dir (pair_cfg i)) []) = (Inr n, w') \<and> newborn (pair_cfg i) (n, w')"
proof -
  let ?w = "empty_world (wal_dir (pair_cfg i)) []"
  have "snapshot_dir (pair_cfg i) \<notin> set (w_dirs ?w)" by (simp add: snapshot_dir_def wal_dir_def)
  from bootstrap_run [OF pair_fresh _ _ this _ pair_cfg_facts(4), of sample_node] obtain n w' where
    b: "bootstrap sample_node (pair_cfg i) ?w = (Inr n, w')" "w_clean w'" "c_hard (n_core n) = default_hard_state" "c_entries (n_core n) = []"
      "c_snapshot (n_core n) = default_meta" "c_election_start (n_core n) = cfg_election_start (pair_cfg i)"
      "c_election_end (n_core n) = cfg_election_end (pair_cfg i)" by auto
  have "hard_file sample_node ?w (hard_state_path (pair_cfg i)) {default_hard_state}"
    using pair_fresh [of i] by (intro hard_file_fresh) (auto simp: fresh_disk_def hard_state_path_def tmp_path_def)
  from wpD [OF wp_bootstrap [OF this, of "{}"] b(1)] have "vote_inv sample_node (node_identity (pair_cfg i)) {} (n_core n, w')" by simp
  then show ?thesis
    using b pair_cfg_facts(4) [of i]
    by (auto simp: newborn_def vote_inv_def keeps_promises_def core_disk_def last_log_index_def last_log_term_def default_meta_def
        current_term_def default_hard_state_def)
qed

lemma pair_started: "\<exists>k n1 w1 n2 w2. (system_step sample_node pair_cfg {1, 2})\<^sup>*\<^sup>* pair_start k \<and> k_proc k 1 = Running n1 w1 \<and>
   k_proc k 2 = Running n2 w2 \<and> newborn (pair_cfg 1) (n1, w1) \<and> newborn (pair_cfg 2) (n2, w2)"
proof -
  let ?step = "system_step sample_node pair_cfg {1, 2}"
  obtain n1 w1 where b1: "bootstrap sample_node (pair_cfg 1) (empty_world (wal_dir (pair_cfg 1)) []) = (Inr n1, w1)" "newborn (pair_cfg 1) (n1, w1)"
    using pair_bootstrap by blast
  obtain n2 w2 where b2: "bootstrap sample_node (pair_cfg 2) (empty_world (wal_dir (pair_cfg 2)) []) = (Inr n2, w2)" "newborn (pair_cfg 2) (n2, w2)"
    using pair_bootstrap by blast
  let ?k1 = "running 1 (n1, w1) pair_start"
  let ?k2 = "running 2 (n2, w2) ?k1"
  have "?step pair_start ?k1"
    by (rule start [of 1 _ _ "empty_world (wal_dir (pair_cfg 1)) []" _ _ "[]"]) (use b1(1) in \<open>simp_all add: pair_start_def empty_world_def\<close>)
  moreover have "?step ?k1 ?k2"
    by (rule start [of 2 _ _ "empty_world (wal_dir (pair_cfg 2)) []" _ _ "[]"]) (use b2(1) in \<open>simp_all add: running_def pair_start_def empty_world_def\<close>)
  ultimately have "?step\<^sup>*\<^sup>* pair_start ?k2" by (meson rtranclp.rtrancl_into_rtrancl rtranclp.rtrancl_refl)
  then show ?thesis using b1(2) b2(2) by (intro exI [of _ ?k2] exI [of _ n1] exI [of _ w1] exI [of _ n2] exI [of _ w2]) (simp add: running_def)
qed

lemma pair_election: "\<exists>k. (system_step sample_node pair_cfg {1, 2})\<^sup>*\<^sup>* pair_start k \<and> (1, 1) \<in> k_won k \<and>
   (2, \<lparr>rv_term = 1, rv_candidate_id = 1, rv_last_log_index = 0, rv_last_log_term = 0\<rparr>, \<lparr>rvr_term = 1, rvr_vote_granted = True\<rparr>) \<in> k_replies k"
proof -
  let ?step = "system_step sample_node pair_cfg {1, 2}"
  let ?args = "\<lparr>rv_term = 1, rv_candidate_id = 1, rv_last_log_index = 0, rv_last_log_term = 0\<rparr> :: request_vote_args"
  let ?reply = "\<lparr>rvr_term = 1, rvr_vote_granted = True\<rparr> :: request_vote_reply"
  let ?poll = "\<lparr>p_args = ?args, p_votes = 1, p_heard = []\<rparr>"
  obtain k n1 w1 n2 w2 where k: "?step\<^sup>*\<^sup>* pair_start k" "k_proc k 1 = Running n1 w1" "k_proc k 2 = Running n2 w2"
    and b1: "newborn (pair_cfg 1) (n1, w1)" and b2: "newborn (pair_cfg 2) (n2, w2)" using pair_started by blast
  have me: "c_id (n_core n1) = 1" "c_peers (n_core n1) = [2]" "c_cluster_size (n_core n1) = 2" "current_term (n_core n1) = 0"
    using b1 pair_cfg_facts [of 1] by (simp_all add: newborn_def identity_def node_identity_def)
  obtain hs1 where h1: "hard_file sample_node w1 (c_hard_path (n_core n1)) hs1" using b1 by (auto simp: newborn_def)
  obtain c1 w1' where c1: "become_candidate sample_node (n_core n1, w1) = (Inr ?args, c1, w1')" "c_role c1 = Candidate" "current_term c1 = 1"
      "identity c1 = identity (n_core n1)"
    using become_candidate_run [OF h1 sample_codecs(1)] b1 me by (auto simp: newborn_def)
  define k3 where "k3 = (running 1 (n1\<lparr>n_core := c1\<rparr>, w1') k)\<lparr>k_poll := (k_poll k)(1 \<mapsto> ?poll), k_asked := insert ?args (k_asked k)\<rparr>"
  have s3: "?step k k3" unfolding k3_def
    by (rule campaign [OF _ k(2)]) (use c1(1) me(4) in \<open>simp_all add: on_core_def zoom_def word_gt_0\<close>)
  obtain hs2 where h2: "hard_file sample_node w2 (c_hard_path (n_core n2)) hs2" using b2 by (auto simp: newborn_def)
  obtain c2 w2' where c2: "handle_request_vote sample_node ?args (n_core n2, w2) = (Inr ?reply, c2, w2')"
    using request_vote_run [OF h2 sample_codecs(1), of ?args] b2 by (auto simp: newborn_def up_to_date_def)
  have p3: "k_proc k3 1 = Running (n1\<lparr>n_core := c1\<rparr>) w1'" "k_proc k3 2 = Running n2 w2" "k_poll k3 1 = Some ?poll" "?args \<in> k_asked k3"
    using k by (simp_all add: k3_def running_def)
  define k4 where "k4 = (running 2 (n2\<lparr>n_core := c2\<rparr>, w2') k3)\<lparr>k_replies := insert (2, ?args, ?reply) (k_replies k3)\<rparr>"
  have s4: "?step k3 k4" unfolding k4_def
    by (rule vote [OF _ p3(2,4)]) (use c2 in \<open>simp_all add: on_core_def zoom_def\<close>)
  have p4: "k_proc k4 1 = Running (n1\<lparr>n_core := c1\<rparr>) w1'" "k_poll k4 1 = Some ?poll" "(2, ?args, ?reply) \<in> k_replies k4"
    using p3 by (simp_all add: k4_def running_def)
  have won: "Won = tally c1 1 1 ?reply" "c_peers c1 = [2]" using c1 me by (auto simp: tally_def core_quorum_def identity_def)
  from count [OF _ p4(1,2), of "{1, 2}" 2 ?reply Won _ sample_node pair_cfg] obtain k5 where "?step k4 k5" "(1, 1) \<in> k_won k5" "k_replies k5 = k_replies k4"
    using p4(3) won by (auto simp: running_def)
  moreover from this have "?step\<^sup>*\<^sup>* pair_start k5" using k(1) s3 s4 by (meson rtranclp.rtrancl_into_rtrancl)
  ultimately show ?thesis using p4(3) by (intro exI [of _ k5]) simp
qed

definition sample_state :: "role \<Rightarrow> hard_state \<Rightarrow> node" where
  "sample_state r hard = \<lparr>n_core = sample_core r hard [], n_store = \<lparr>st_snapshot_dir = [''d'', ''snapshots''], st_memtable = memtable_new,
     st_snapshot_threshold = 10, st_last_snapshot = default_meta\<rparr>, n_commit = 0, n_heartbeat_interval = from_millis 50\<rparr>"

section \<open>The loop that counts votes\<close>

definition granted :: "vote_event \<Rightarrow> bool" where
  "granted ev = (case ev of Voted (Inr reply) \<Rightarrow> rvr_vote_granted reply | _ \<Rightarrow> False)"

text \<open>An answer that does not end the election: a failed call, or a reply from no later term.\<close>

definition timely :: "u64 \<Rightarrow> vote_event \<Rightarrow> bool" where
  "timely term ev = (case ev of Voted (Inl _) \<Rightarrow> True | Voted (Inr reply) \<Rightarrow> rvr_term reply \<le> term | VoteOthers _ \<Rightarrow> False)"

text \<open>What happens to the role; nothing but these operations matters for it.\<close>

definition in_role :: "(role \<Rightarrow> bool) \<Rightarrow> raft_core \<times> world \<Rightarrow> bool" where
  "in_role P = (\<lambda>(c, w). P (c_role c))"

lemma in_role_upd: "(\<And>c. c_role (f c) = c_role c) \<Longrightarrow> preserves (in_role P) (upd_core f) anything"
  by (rule preserves_modify) (auto simp: in_role_def)

lemma in_role_on_log: "preserves (in_role P) (on_log m) anything"
  by (auto simp: preserves_def in_role_def on_log_def zoom_def split: prod.splits)

lemma in_role_append_command: "preserves (in_role P) (append_command X command) anything"
  unfolding append_command_def Let_def
  by (intro preserves_read preserves_prod preserves_if preserves_throw preserves_option preserves_andThen_anything preserves_ret TrueI
      in_role_on_log in_role_upd) simp

lemma in_role_advance: "preserves (in_role P) advance_commit_index anything"
  unfolding advance_commit_index_def Let_def
  by (intro preserves_read preserves_prod preserves_option preserves_throw in_role_upd) simp

lemma take_office_leads: "c_role (fst (snd (take_office X (c, w)))) = Leader"
proof -
  have "preserves (in_role (\<lambda>r. r = Leader)) (andThen (append_command X Noop) (\<lambda>_. andThen core_sync (\<lambda>_. advance_commit_index))) anything"
    unfolding core_sync_def by (intro preserves_andThen_anything in_role_append_command in_role_on_log in_role_advance)
  from run_inv [OF this, of "(become_leader c, w)"]
  have "c_role (fst (snd (andThen (append_command X Noop) (\<lambda>_. andThen core_sync (\<lambda>_. advance_commit_index)) (become_leader c, w)))) = Leader"
    by (auto simp: in_role_def become_leader_def Let_def split: prod.splits)
  moreover have "take_office X (c, w) = andThen (append_command X Noop) (\<lambda>_. andThen core_sync (\<lambda>_. advance_commit_index)) (become_leader c, w)"
    by (simp add: take_office_def andThen_modify)
  ultimately show ?thesis by simp
qed

lemma gather_votes_role:
  assumes "c_role (n_core n) = Candidate" and "current_term (n_core n) = term" and "list_all (timely term) evs"
  shows "is_leader (n_core (fst (snd (gather_votes X term votes evs (n, w))))) \<longleftrightarrow>
     0 < length (filter granted evs) \<and> core_quorum (n_core n) \<le> votes + length (filter granted evs)"
  using assms(3)
proof (induction evs arbitrary: votes)
  case Nil
  show ?case using assms(1) by (simp add: ret_def is_leader_def)
next
  case (Cons ev evs)
  show ?case
  proof (cases "\<exists>reply. ev = Voted (Inr reply)")
    case False
    then obtain e where "ev = Voted (Inl e)" using Cons.prems by (cases ev) (auto simp: timely_def split: sum.splits)
    moreover from this have "\<not> granted ev" by (simp add: granted_def)
    ultimately show ?thesis using Cons by simp
  next
    case True
    then obtain reply where ev: "ev = Voted (Inr reply)" by blast
    have t: "\<not> current_term (n_core n) < rvr_term reply" using Cons.prems assms(2) by (simp add: ev timely_def not_less)
    have IH: "is_leader (n_core (fst (snd (gather_votes X term v evs (n, w))))) \<longleftrightarrow>
        0 < length (filter granted evs) \<and> core_quorum (n_core n) \<le> v + length (filter granted evs)" for v
      using Cons by simp
    have lead: "is_leader (n_core (fst (snd (on_core (take_office X) (n, w)))))"
      using take_office_leads [of X "n_core n" w] by (auto simp: on_core_def zoom_def is_leader_def split: prod.splits)
    have g: "granted (Voted (Inr reply)) = rvr_vote_granted reply" by (simp add: granted_def)
    show ?thesis
      using t assms(1,2) IH lead by (auto simp: ev g ask_core_def andThen_def get_st_def ret_def)
  qed
qed

section \<open>A node without peers\<close>

text \<open>There is nobody to answer, and the node's own task is the only one.\<close>

definition alone :: "others \<times> tick_schedule \<Rightarrow> bool" where
  "alone = (\<lambda>(other, t). other = (\<lambda>s. s) \<and> (\<forall>args. ts_votes t args = []) \<and> ts_other1 t = (\<lambda>s. s) \<and> ts_other2 t = (\<lambda>s. s))"

definition not_leading :: "node \<times> world \<Rightarrow> bool" where
  "not_leading = (\<lambda>(n, w). c_role (n_core n) \<noteq> Leader)"

lemma not_leading_on_core:
  assumes "preserves (in_role (\<lambda>r. r \<noteq> Leader)) m anything"
  shows "preserves not_leading (on_core m) anything"
proof -
  have "preserves (\<lambda>(c, w). not_leading (n\<lparr>n_core := c\<rparr>, w)) m anything" for n
    using assms by (auto simp: preserves_def not_leading_def in_role_def)
  then show ?thesis unfolding on_core_def by (intro preserves_zoom) simp_all
qed

lemma not_leading_outside: "preserves not_leading (outside m) anything"
  by (auto simp: preserves_def not_leading_def outside_def split: prod.splits)

lemma not_leading_candidate: "preserves not_leading (on_core (become_candidate X)) anything"
proof (rule not_leading_on_core)
  have cand: "preserves (in_role (\<lambda>r. r \<noteq> Leader)) (upd_core (\<lambda>c. c\<lparr>c_role := Candidate, c_hard := h c\<rparr>)) anything" for h
    by (rule preserves_modify) (auto simp: in_role_def)
  have out: "preserves (in_role (\<lambda>r. r \<noteq> Leader)) (outside m) anything" for m :: "'b io"
    by (auto simp: preserves_def in_role_def outside_def split: prod.splits)
  show "preserves (in_role (\<lambda>r. r \<noteq> Leader)) (become_candidate X) anything"
    unfolding become_candidate_def persist_hard_def reset_election_timer_def
    by (intro preserves_andThen_anything cand preserves_read preserves_prod preserves_ret TrueI out in_role_upd) simp_all
qed

lemma not_leading_apply: "preserves not_leading (apply_committed X (\<lambda>s. s) (\<lambda>s. s)) anything"
proof -
  have take: "preserves not_leading (\<lambda>(n, w). case take_committed (n_core n) of (out, c) \<Rightarrow> (Inr out, n\<lparr>n_core := c\<rparr>, w)) anything"
    using take_committed_keeps by (fastforce simp: preserves_def not_leading_def split: prod.splits)
  have store: "preserves not_leading (on_store m) anything" for m :: "'b store_io"
    by (auto simp: preserves_def not_leading_def on_store_def zoom_def split: prod.splits)
  have comp: "preserves not_leading (on_core (compact meta)) anything" for meta
    by (rule not_leading_on_core, unfold compact_def,
        intro preserves_read preserves_prod preserves_if preserves_ret TrueI preserves_andThen_anything in_role_on_log in_role_upd) simp_all
  show ?thesis
    unfolding apply_committed_def ask_core_def
    by (intro preserves_andThen_anything take preserves_if preserves_ret TrueI preserves_modify preserves_read preserves_prod store comp)
      (auto simp: not_leading_def)
qed

lemma not_leading_tick:
  assumes "alone (other, t)" and "not_leading s"
  shows "not_leading (snd (tick X t (other s)))"
proof -
  obtain n w where s: "s = (n, w)" by (cases s)
  have t: "ts_votes t = (\<lambda>_. [])" "other s = s" "ts_other1 t = (\<lambda>s. s)" "ts_other2 t = (\<lambda>s. s)" using assms(1) by (auto simp: alone_def)
  have elect: "preserves not_leading (start_election X (\<lambda>_. [])) anything"
    unfolding start_election_def ask_core_def gather_votes.simps
    by (intro preserves_andThen_anything not_leading_candidate preserves_read preserves_prod preserves_ret TrueI)
  have rest: "preserves not_leading (andThen (case a of Elect \<Rightarrow> start_election X (\<lambda>_. []) | Idle \<Rightarrow> ret ()| Replicate \<Rightarrow> ret ())
      (\<lambda>_. apply_committed X (\<lambda>s. s) (\<lambda>s. s))) anything" for a
    by (cases a; simp; intro preserves_andThen_anything elect not_leading_apply preserves_ret TrueI)
  obtain a w' where p: "pick_action X s = (Inr a, n, w')" "a \<noteq> Replicate"
    using assms(2) by (auto simp: s pick_action_def ask_core_def not_leading_def is_leader_def andThen_def get_st_def ret_def outside_def instant_now_def)
  have "tick X t s = andThen (case a of Elect \<Rightarrow> start_election X (\<lambda>_. []) | Idle \<Rightarrow> ret ()| Replicate \<Rightarrow> ret ())
      (\<lambda>_. apply_committed X (\<lambda>s. s) (\<lambda>s. s)) (n, w')"
    using p t by (cases a) (simp_all add: tick_def andThen_def [of "pick_action X"])
  moreover have "not_leading (n, w')" using assms(2) by (simp add: s not_leading_def)
  ultimately show ?thesis using run_inv [OF rest] t(2) by simp
qed

section \<open>Properties\<close>

text \<open>C1. Election safety: in a cluster of any size, whatever is delayed, lost, reordered or repeated on the network, whatever disk
  calls fail, and wherever nodes crash, lose unsynced data and start again, no two nodes win an election in the same term.\<close>

theorem election_safety:
  assumes "codec (x_ser_hard X) (x_de_hard X) UNIV" and "one_cluster cfgs M" and "system_init cfgs M k0"
    and "(system_step X cfgs M)\<^sup>*\<^sup>* k0 k" and "(term, i) \<in> k_won k" and "(term, j) \<in> k_won k"
  shows "i = j"
proof -
  have inv: "system_inv X cfgs M k" by (rule system_reach_inv [OF assms(1-4)])
  have "supporters k M term i \<noteq> {}" using inv assms(5) by (auto simp: system_inv_def majority_def)
  then have "finite M" using one_cluster_facts(1) [OF assms(2)] by (auto simp: supporters_def)
  then show ?thesis using won_unique [OF inv] assms(5,6) by (auto simp: single_valued_def)
qed

theorem election_safety_witness:
  "\<exists>k. (system_step sample_node pair_cfg {1, 2})\<^sup>*\<^sup>* pair_start k \<and> (1, 1) \<in> k_won k \<and> (\<forall>j. (1, j) \<in> k_won k \<longrightarrow> j = 1)"
proof -
  obtain k where k: "(system_step sample_node pair_cfg {1, 2})\<^sup>*\<^sup>* pair_start k" "(1, 1) \<in> k_won k" using pair_election by blast
  have "1 = j" if "(1, j) \<in> k_won k" for j
    by (rule election_safety [OF sample_codecs(1) pair_one_cluster pair_init k(1) k(2) that])
  then show ?thesis using k by blast
qed

text \<open>C2. A vote is cast once: of all the answers a node ever gave to requests of one term, before and after crashes, those that
  grant the vote went to one candidate, and if the node stood in that term itself, to none but itself.\<close>

theorem vote_once:
  assumes "codec (x_ser_hard X) (x_de_hard X) UNIV" and "one_cluster cfgs M" and "system_init cfgs M k0"
    and "(system_step X cfgs M)\<^sup>*\<^sup>* k0 k" and "i \<in> M" and "(i, a, r) \<in> k_replies k" and "rvr_vote_granted r" and "rv_term a = rv_term a'"
    and "(i, a', r') \<in> k_replies k \<and> rvr_vote_granted r' \<or> a' \<in> k_asked k \<and> rv_candidate_id a' = i"
  shows "rv_candidate_id a = rv_candidate_id a'"
proof -
  have "single_valued (promises k i)" using system_reach_inv [OF assms(1-4)] assms(5) by (simp add: system_inv_def)
  moreover have "(rv_term a, rv_candidate_id a) \<in> promises k i" "(rv_term a, rv_candidate_id a') \<in> promises k i"
    using assms(6-9) by (auto simp: promises_def)
  ultimately show ?thesis by (auto simp: single_valued_def)
qed

theorem vote_once_witness:
  "\<exists>k r a. (system_step sample_node pair_cfg {1, 2})\<^sup>*\<^sup>* pair_start k \<and> (2, a, r) \<in> k_replies k \<and> rvr_vote_granted r \<and> rv_term a = 1 \<and>
     (\<forall>a' r'. (2, a', r') \<in> k_replies k \<and> rvr_vote_granted r' \<and> rv_term a' = 1 \<longrightarrow> rv_candidate_id a' = 1)"
proof -
  let ?a = "\<lparr>rv_term = 1, rv_candidate_id = 1, rv_last_log_index = 0, rv_last_log_term = 0\<rparr> :: request_vote_args"
  let ?r = "\<lparr>rvr_term = 1, rvr_vote_granted = True\<rparr> :: request_vote_reply"
  obtain k where k: "(system_step sample_node pair_cfg {1, 2})\<^sup>*\<^sup>* pair_start k" "(2, ?a, ?r) \<in> k_replies k" using pair_election by blast
  have "rv_candidate_id ?a = rv_candidate_id a'" if "(2, a', r') \<in> k_replies k \<and> rvr_vote_granted r'" "rv_term a' = 1" for a' r'
    using vote_once [OF sample_codecs(1) pair_one_cluster pair_init k(1) _ k(2), of a' r'] that by simp
  then show ?thesis using k by (intro exI [of _ k] exI [of _ ?r] exI [of _ ?a]) auto
qed

text \<open>C9. The outcome of an election whose answers are timely: the candidate leads if and only if at least one peer granted its
  vote and the grants together with its own vote are a quorum.\<close>

theorem election_outcome:
  assumes "c_role (n_core n) = Candidate" and "current_term (n_core n) = term" and "list_all (timely term) evs"
    and "gather_votes X term 1 evs (n, w) = (r, n', w')"
  shows "is_leader (n_core n') \<longleftrightarrow> filter granted evs \<noteq> [] \<and> core_quorum (n_core n) \<le> 1 + length (filter granted evs)"
  using gather_votes_role [OF assms(1-3), of X 1 w] assms(4) by simp

theorem election_outcome_witness:
  "\<exists>r n' w'. gather_votes sample_node 5 1 [Voted (Inl (Io OtherIo)), Voted (Inr \<lparr>rvr_term = 5, rvr_vote_granted = True\<rparr>)]
     (sample_state Candidate \<lparr>hs_term = 5, hs_voted_for = Some 1\<rparr>, empty_world [''d''] []) = (r, n', w') \<and> is_leader (n_core n')"
proof -
  let ?n = "sample_state Candidate \<lparr>hs_term = 5, hs_voted_for = Some 1\<rparr>" and ?w = "empty_world [''d''] []"
  let ?evs = "[Voted (Inl (Io OtherIo)), Voted (Inr \<lparr>rvr_term = 5, rvr_vote_granted = True\<rparr>)]"
  obtain r n' w' where r: "gather_votes sample_node 5 1 ?evs (?n, ?w) = (r, n', w')" by (cases "gather_votes sample_node 5 1 ?evs (?n, ?w)") auto
  have "is_leader (n_core n')"
    using election_outcome [OF _ _ _ r]
    by (simp add: sample_state_def sample_core_def current_term_def core_quorum_def timely_def granted_def)
  then show ?thesis using r by blast
qed

text \<open>C16. A single node never leads: \<open>start_election\<close> looks at the votes only when a peer has answered, and there is no peer.
  However long the node runs on its own, which is to say that no answer ever arrives and no other task intervenes, it stays
  without a leader, and every proposal is refused.\<close>

theorem single_node_never_leads:
  assumes "c_role (n_core n) \<noteq> Leader" and "list_all alone ts"
  shows "c_role (n_core (fst (run_ticks X ts (n, w)))) \<noteq> Leader \<and>
     fst (propose X command evs other1 other2 (run_ticks X ts (n, w))) = Inl (error_raft ''not leader'')"
proof -
  have "not_leading (run_ticks X ts s)" if "not_leading s" for s
    using that assms(2)
  proof (induction ts arbitrary: s)
    case (Cons t ts)
    then have "not_leading (snd (tick X (snd t) (fst t s)))" using not_leading_tick [of "fst t" "snd t" s X] by simp
    then show ?case using Cons by simp
  qed simp
  from this [of "(n, w)"] show ?thesis
    using assms(1) by (cases "run_ticks X ts (n, w)") (simp add: not_leading_def propose_def ask_core_def andThen_def get_st_def ret_def is_leader_def throw_def)
qed

definition lone_node :: node where
  "lone_node = (sample_state Follower default_hard_state)\<lparr>n_core := (sample_core Follower default_hard_state [])\<lparr>c_peers := [], c_cluster_size := 1\<rparr>\<rparr>"

theorem single_node_never_leads_witness:
  "let s = run_ticks sample_node (replicate 100 (\<lambda>s. s, \<lparr>ts_votes = (\<lambda>_. []), ts_sends = [], ts_other1 = (\<lambda>s. s), ts_other2 = (\<lambda>s. s)\<rparr>))
       (lone_node, empty_world [''d''] [])
   in core_quorum (n_core lone_node) = 1 \<and> c_role (n_core (fst s)) \<noteq> Leader \<and> fst (propose sample_node (Put [7] [8]) [] id id s) = Inl (error_raft ''not leader'')"
proof -
  let ?ts = "replicate 100 (\<lambda>s :: node \<times> world. s, \<lparr>ts_votes = (\<lambda>_. []), ts_sends = [], ts_other1 = (\<lambda>s. s), ts_other2 = (\<lambda>s. s)\<rparr>)"
  have "list_all alone ?ts" by (simp add: alone_def list_all_iff)
  moreover have "c_role (n_core lone_node) \<noteq> Leader" "core_quorum (n_core lone_node) = 1"
    by (simp_all add: lone_node_def sample_core_def core_quorum_def)
  ultimately show ?thesis using single_node_never_leads [of lone_node ?ts] unfolding Let_def by blast
qed

text \<open>C17. Stepping down is not safe against a failing disk: when the new term cannot be written, \<open>become_follower\<close> returns the
  error with the new term already in memory and the role unchanged. A leader is then leader of a term it never stood in.\<close>

theorem step_down_failure:
  assumes "current_term c < term" and "hard_persist X \<lparr>hs_term = term, hs_voted_for = None\<rparr> (c_hard_path c) w = (Inl e, w')" and "is_leader c"
  shows "\<exists>c'. become_follower X term leader (c, w) = (Inl e, c', w') \<and> is_leader c' \<and> current_term c' = term"
  using assms by (simp add: become_follower_def persist_hard_def andThen_def get_st_def modify_def outside_def is_leader_def current_term_def)

theorem step_down_failure_witness:
  "\<exists>c' e w'. become_follower sample_node 9 None (sample_core Leader \<lparr>hs_term = 5, hs_voted_for = Some 1\<rparr> [], empty_world [''d''] [Fail 0]) = (Inl e, c', w') \<and>
     is_leader c' \<and> current_term c' = 9"
proof -
  let ?c = "sample_core Leader \<lparr>hs_term = 5, hs_voted_for = Some 1\<rparr> []"
  have "hard_persist sample_node \<lparr>hs_term = 9, hs_voted_for = None\<rparr> (c_hard_path ?c) (empty_world [''d''] [Fail 0]) = (Inl (Io OtherIo), empty_world [''d''] [])"
    by (simp add: sample_core_def hard_persist_def on_parent_def path_parent_def andThen_def create_dir_all_def syscall_def pop_event_def empty_world_def)
  from step_down_failure [OF _ this, of None] show ?thesis
    by (auto simp: sample_core_def current_term_def is_leader_def)
qed

end
