(* ===== verification/Raft_Log.thy ===== *)
theory Raft_Log
  imports Raft_Replication
begin

text \<open>
  The log of a node: the entries in memory, their numbering across the snapshot boundary, and the records of the write-ahead
  log they mirror. The loop of \<open>handle_append_entries\<close> is compared with a reference definition on lists.
\<close>

section \<open>Numbered entries\<close>

fun numbered_from :: "nat \<Rightarrow> log_entry list \<Rightarrow> bool" where
  "numbered_from j [] = True"
| "numbered_from j (e # es) = (unat (le_index e) = j \<and> numbered_from (Suc j) es)"

lemma numbered_from_nth: "numbered_from j es \<longleftrightarrow> (\<forall>k<length es. unat (le_index (es ! k)) = j + k)"
  by (induction j es rule: numbered_from.induct) (auto simp: less_Suc_eq_0_disj)

lemma numbered_from_append [simp]: "numbered_from j (es @ fs) \<longleftrightarrow> numbered_from j es \<and> numbered_from (j + length es) fs"
  by (induction es arbitrary: j) auto

lemma numbered_from_take: "numbered_from j es \<Longrightarrow> numbered_from j (take n es)"
  by (simp add: numbered_from_nth)

lemma numbered_from_drop: "numbered_from j es \<Longrightarrow> numbered_from (j + min n (length es)) (drop n es)"
  by (auto simp: numbered_from_nth min_def)

lemma filter_below: "numbered_from j es \<Longrightarrow> filter (\<lambda>e. le_index e < i) es = take (unat i - j) es"
proof (induction j es rule: numbered_from.induct)
  case (2 j e es)
  show ?case
  proof (cases "j < unat i")
    case True
    then have "unat i - j = Suc (unat i - Suc j)" by simp
    then show ?thesis using 2 True by (simp add: word_less_nat_alt)
  qed (use 2 in \<open>simp add: word_less_nat_alt\<close>)
qed simp

lemma filter_above: "numbered_from j es \<Longrightarrow> filter (\<lambda>e. i < le_index e) es = drop (Suc (unat i) - j) es"
proof (induction j es rule: numbered_from.induct)
  case (2 j e es)
  show ?case
  proof (cases "unat i < j")
    case False
    then have "Suc (unat i) - j = Suc (unat i - j)" by simp
    then show ?thesis using 2 False by (simp add: word_less_nat_alt)
  qed (use 2 in \<open>simp add: word_less_nat_alt\<close>)
qed simp

section \<open>The log as the core sees it\<close>

abbreviation snap_index :: "raft_core \<Rightarrow> nat" where
  "snap_index c \<equiv> unat (sm_index (c_snapshot c))"

definition log_wf :: "raft_core \<Rightarrow> bool" where
  "log_wf c \<longleftrightarrow> numbered_from (Suc (snap_index c)) (c_entries c) \<and> snap_index c + length (c_entries c) + 1 < u64_bound"

lemma log_wf_nth: "log_wf c \<Longrightarrow> k < length (c_entries c) \<Longrightarrow> unat (le_index (c_entries c ! k)) = Suc (snap_index c + k)"
  by (simp add: log_wf_def numbered_from_nth)

lemma unat_base_index: "log_wf c \<Longrightarrow> unat (base_index c) = Suc (snap_index c)"
  by (simp add: base_index_def log_wf_def unat_u64_Suc)

lemma unat_last_log_index: "log_wf c \<Longrightarrow> unat (last_log_index c) = snap_index c + length (c_entries c)"
  using log_wf_nth [of c "length (c_entries c) - 1"] by (auto simp: last_log_index_def last_conv_nth)

lemma unat_next_index: "log_wf c \<Longrightarrow> unat (last_log_index c + 1) = Suc (snap_index c + length (c_entries c))"
  using unat_last_log_index [of c] by (simp add: unat_u64_Suc log_wf_def)

lemma entry_at_nth:
  assumes "log_wf c"
  shows "entry_at c i = (if snap_index c < unat i \<and> unat i \<le> snap_index c + length (c_entries c)
     then Some (c_entries c ! (unat i - Suc (snap_index c))) else None)"
  using unat_base_index [OF assms] by (auto simp: entry_at_def get_nth_def word_less_nat_alt unat_u64_diff word_le_nat_alt)

lemma term_at_entry:
  assumes "log_wf c"
  shows "term_at c i = (if i = sm_index (c_snapshot c) then Some (sm_term (c_snapshot c)) else map_option le_term (entry_at c i))"
  using unat_base_index [OF assms] by (auto simp: term_at_def entry_at_def)

lemma entry_at_index: "log_wf c \<Longrightarrow> entry_at c i = Some e \<Longrightarrow> le_index e = i"
  using log_wf_nth [of c "unat i - Suc (snap_index c)"] by (auto simp: entry_at_nth word_unat_eq_iff split: if_splits)

lemma entries_from_drop:
  assumes "log_wf c" and "snap_index c < unat i" and "unat i \<le> Suc (snap_index c + length (c_entries c))"
  shows "entries_from c i = drop (unat i - Suc (snap_index c)) (c_entries c)"
  using assms unat_base_index [OF assms(1)] by (auto simp: entries_from_def Let_def word_less_nat_alt unat_u64_diff word_le_nat_alt)

section \<open>The reference\<close>

text \<open>
  The rule of Raft for the entries behind the point where both logs are known to agree: keep what the terms agree on,
  from the first disagreement on take the leader's entries; a message that ends early removes nothing.
\<close>

fun merge :: "log_entry list \<Rightarrow> log_entry list \<Rightarrow> log_entry list" where
  "merge [] ns = ns"
| "merge (e # es) [] = e # es"
| "merge (e # es) (n # ns) = (if le_term e = le_term n then e # merge es ns else n # ns)"

lemma merge_Nil [simp]: "merge es [] = es"
  by (cases es) auto

text \<open>The log \<open>es\<close> after the snapshot at \<open>s\<close>, with the leader's entries \<open>ns\<close> from index \<open>j\<close> on.\<close>

definition spliced :: "nat \<Rightarrow> log_entry list \<Rightarrow> nat \<Rightarrow> log_entry list \<Rightarrow> log_entry list" where
  "spliced s es j ns = (let k = j - Suc s in take k es @ merge (drop k es) (drop (Suc s - j) ns))"

lemma spliced_Nil [simp]: "spliced s es j [] = es"
  by (simp add: spliced_def Let_def)

lemma spliced_below: "j \<le> s \<Longrightarrow> spliced s es j (n # ns) = spliced s es (Suc j) ns"
  by (simp add: spliced_def Let_def Suc_diff_le)

lemma spliced_same:
  assumes "s < j" and "j - Suc s < length es" and "le_term (es ! (j - Suc s)) = le_term n"
  shows "spliced s es j (n # ns) = spliced s es (Suc j) ns"
proof -
  have "drop (j - Suc s) es = es ! (j - Suc s) # drop (Suc (j - Suc s)) es" using assms(2) by (simp add: Cons_nth_drop_Suc)
  moreover have "Suc j - Suc s = Suc (j - Suc s)" using assms(1) by simp
  ultimately show ?thesis using assms by (simp add: spliced_def Let_def take_Suc_conv_app_nth)
qed

lemma spliced_conflict:
  assumes "s < j" and "j - Suc s < length es" and "le_term (es ! (j - Suc s)) \<noteq> le_term n"
  shows "spliced s es j (n # ns) = spliced s (take (j - Suc s) es @ [n]) (Suc j) ns"
proof -
  have "drop (j - Suc s) es = es ! (j - Suc s) # drop (Suc (j - Suc s)) es" using assms(2) by (simp add: Cons_nth_drop_Suc)
  moreover have "Suc j - Suc s = Suc (j - Suc s)" using assms(1) by simp
  ultimately show ?thesis using assms by (simp add: spliced_def Let_def)
qed

lemma spliced_new:
  assumes "s < j" and "j - Suc s = length es"
  shows "spliced s es j (n # ns) = spliced s (es @ [n]) (Suc j) ns"
proof -
  have "Suc j - Suc s = Suc (length es)" using assms by simp
  then show ?thesis using assms by (simp add: spliced_def Let_def)
qed

lemma merge_agrees: "k < length ns \<Longrightarrow> k < length (merge es ns) \<and> le_term (merge es ns ! k) = le_term (ns ! k)"
proof (induction es ns arbitrary: k rule: merge.induct)
  case (3 e es n ns)
  then show ?case by (cases k) auto
qed auto

lemma merge_numbered: "numbered_from j es \<Longrightarrow> numbered_from j ns \<Longrightarrow> numbered_from j (merge es ns)"
  by (induction es ns arbitrary: j rule: merge.induct) auto

lemma merge_length: "length (merge es ns) \<le> max (length es) (length ns)"
  by (induction es ns rule: merge.induct) auto

section \<open>The write-ahead log behind it\<close>

text \<open>
  The records \<open>recs\<close>, the first of them with index \<open>b\<close>, may reach back behind the snapshot, because compaction drops whole
  segments only; from the snapshot on they decode to the entries in memory.
\<close>

definition mirrors :: "('x) ext_node_scheme \<Rightarrow> nat \<Rightarrow> bytes list \<Rightarrow> raft_core \<Rightarrow> bool" where
  "mirrors X b recs c \<longleftrightarrow> log_wf c \<and> b \<le> Suc (snap_index c) \<and> b + length recs = Suc (snap_index c + length (c_entries c)) \<and>
     map (x_de_entry X) (drop (Suc (snap_index c) - b) recs) = map Some (c_entries c)"

definition core_log :: "('x) ext_node_scheme \<Rightarrow> nat \<Rightarrow> bytes list \<Rightarrow> raft_core \<times> world \<Rightarrow> bool" where
  "core_log X b recs = (\<lambda>(c, w). mirrors X b recs c \<and> log_holds X w (c_log c) b recs)"

lemma core_log_wf: "core_log X b recs (c, w) \<Longrightarrow> log_wf c"
  by (simp add: core_log_def mirrors_def)

lemma log_holds_fits: "log_holds X w l b recs \<Longrightarrow> b + length recs < u64_bound"
  by (auto simp: log_holds_def log_ok_def)

lemma on_log_run: "m (c_log c, w) = (r, l', w') \<Longrightarrow> on_log m (c, w) = (r, c\<lparr>c_log := l'\<rparr>, w')"
  by (simp add: on_log_def zoom_def)

lemma mirrors_append:
  assumes "mirrors X b recs c" and "unat (le_index e) = Suc (snap_index c + length (c_entries c))" and "x_de_entry X p = Some e"
    and "b + length recs + 1 < u64_bound"
  shows "mirrors X b (recs @ [p]) (c\<lparr>c_log := l, c_entries := c_entries c @ [e]\<rparr>)"
  using assms by (auto simp: mirrors_def log_wf_def)

lemma append_run:
  assumes "core_log X b recs (c, w)" and "w_clean w" and "log_fits X b (recs @ [p])" and "le_index e = last_log_index c + 1"
    and "x_ser_entry X e = Some p" and "x_de_entry X p = Some e"
  shows "\<exists>l' w'. on_log (log_append X p) (c, w) = (Inr (le_index e), c\<lparr>c_log := l'\<rparr>, w') \<and> w_clean w' \<and> log_dir l' = log_dir (c_log c) \<and>
     only_in (log_dir (c_log c)) w w' \<and> core_log X b (recs @ [p]) (c\<lparr>c_log := l', c_entries := c_entries c @ [e]\<rparr>, w')"
proof -
  have m: "mirrors X b recs c" "log_holds X w (c_log c) b recs" using assms(1) by (auto simp: core_log_def)
  from wl.append_law [OF m(2) assms(2,3)] obtain l' w' where
    r: "log_append X p (c_log c, w) = (Inr (of_nat (b + length recs)), l', w')" "log_holds X w' l' b (recs @ [p])" "w_clean w'"
      "only_in (log_dir (c_log c)) w w'" "log_dir l' = log_dir (c_log c)" by blast
  have i: "unat (le_index e) = Suc (snap_index c + length (c_entries c))" using assms(4) unat_next_index [OF core_log_wf [OF assms(1)]] by simp
  then have "of_nat (unat (le_index e)) = (of_nat (b + length recs) :: u64)" using m(1) by (simp add: mirrors_def)
  then have "le_index e = of_nat (b + length recs)" by simp
  moreover have "mirrors X b (recs @ [p]) (c\<lparr>c_log := l', c_entries := c_entries c @ [e]\<rparr>)"
    using mirrors_append [OF m(1) i assms(6)] log_holds_fits [OF r(2)] by simp
  ultimately show ?thesis using r on_log_run [of "log_append X p" c w, OF r(1)] by (auto simp: core_log_def)
qed

lemma append_replicated_run:
  assumes "core_log X b recs (c, w)" and "w_clean w" and "log_fits X b (recs @ [p])" and "le_index e = last_log_index c + 1"
    and "x_ser_entry X e = Some p" and "x_de_entry X p = Some e"
  shows "\<exists>l' w'. append_replicated X e (c, w) = (Inr (), c\<lparr>c_log := l', c_entries := c_entries c @ [e]\<rparr>, w') \<and> w_clean w' \<and>
     log_dir l' = log_dir (c_log c) \<and> only_in (log_dir (c_log c)) w w' \<and> core_log X b (recs @ [p]) (c\<lparr>c_log := l', c_entries := c_entries c @ [e]\<rparr>, w')"
  using append_run [OF assms] assms(5) by (auto simp: append_replicated_def andThen_def modify_def)

lemma mirrors_cut:
  assumes "mirrors X b recs c" and "n \<le> length (c_entries c)"
  shows "mirrors X b (take (Suc (snap_index c) - b + n) recs) (c\<lparr>c_entries := take n (c_entries c), c_log := l\<rparr>)"
proof -
  let ?d = "Suc (snap_index c) - b"
  have m: "b \<le> Suc (snap_index c)" "b + length recs = Suc (snap_index c + length (c_entries c))"
    "map (x_de_entry X) (drop ?d recs) = map Some (c_entries c)" "log_wf c" using assms(1) by (auto simp: mirrors_def)
  have "drop ?d (take (?d + n) recs) = take n (drop ?d recs)" by (simp add: drop_take)
  then have "map (x_de_entry X) (drop ?d (take (?d + n) recs)) = take n (map (x_de_entry X) (drop ?d recs))" by (simp add: take_map)
  then have "map (x_de_entry X) (drop ?d (take (?d + n) recs)) = map Some (take n (c_entries c))" using m(3) by (simp add: take_map)
  moreover have "b + length (take (?d + n) recs) = Suc (snap_index c + length (take n (c_entries c)))" using m(1,2) assms(2) by simp
  ultimately show ?thesis using m assms(2) by (simp add: mirrors_def log_wf_def numbered_from_take)
qed

lemma truncate_from_run:
  assumes "core_log X b recs (c, w)" and "log_synced w (c_log c)" and "w_clean w" and "snap_index c < unat i"
    and "unat i \<le> snap_index c + length (c_entries c)"
  shows "\<exists>l' w'. truncate_from X i (c, w) = (Inr (), c\<lparr>c_entries := take (unat i - Suc (snap_index c)) (c_entries c), c_log := l'\<rparr>, w') \<and> w_clean w' \<and>
     log_dir l' = log_dir (c_log c) \<and> only_in (log_dir (c_log c)) w w' \<and>
     core_log X b (take (unat i - b) recs) (c\<lparr>c_entries := take (unat i - Suc (snap_index c)) (c_entries c), c_log := l'\<rparr>, w')"
proof -
  let ?es = "take (unat i - Suc (snap_index c)) (c_entries c)"
  have m: "mirrors X b recs c" "log_holds X w (c_log c) b recs" using assms(1) by (auto simp: core_log_def)
  have k: "Suc (unat (saturating_sub i 1)) = unat i" using assms(4) by simp
  have "b \<le> unat i" using m(1) assms(4) by (simp add: mirrors_def)
  from wl.truncate_suffix_law [OF m(2) assms(2,3), of "saturating_sub i 1"] this obtain l' w' where
    r: "log_truncate_suffix X (saturating_sub i 1) (c_log c, w) = (Inr (), l', w')" "log_holds X w' l' b (take (unat i - b) recs)" "w_clean w'"
      "only_in (log_dir (c_log c)) w w'" "log_dir l' = log_dir (c_log c)" unfolding k by blast
  have f: "filter (\<lambda>e. le_index e < i) (c_entries c) = ?es" using filter_below core_log_wf [OF assms(1)] by (auto simp: log_wf_def)
  have "Suc (snap_index c) - b + (unat i - Suc (snap_index c)) = unat i - b" using m(1) assms(4) by (simp add: mirrors_def)
  then have "mirrors X b (take (unat i - b) recs) (c\<lparr>c_entries := ?es, c_log := l'\<rparr>)"
    using mirrors_cut [OF m(1), of "unat i - Suc (snap_index c)" l'] assms(5) by simp
  moreover have "on_log (log_truncate_suffix X (saturating_sub i 1)) (c\<lparr>c_entries := ?es\<rparr>, w) = (Inr (), c\<lparr>c_entries := ?es, c_log := l'\<rparr>, w')"
    by (rule on_log_run) (simp add: r(1))
  ultimately show ?thesis using r(2-5) by (auto simp: truncate_from_def andThen_def modify_def f core_log_def)
qed

lemma core_sync_run:
  assumes "core_log X b recs (c, w)" and "w_clean w"
  shows "\<exists>l' w'. core_sync (c, w) = (Inr (), c\<lparr>c_log := l'\<rparr>, w') \<and> w_clean w' \<and> log_synced w' l' \<and> log_dir l' = log_dir (c_log c) \<and>
     only_in (log_dir (c_log c)) w w' \<and> core_log X b recs (c\<lparr>c_log := l'\<rparr>, w')"
proof -
  have m: "mirrors X b recs c" "log_holds X w (c_log c) b recs" using assms(1) by (auto simp: core_log_def)
  from wl.sync_law [OF m(2) assms(2)] obtain l' w' where "log_sync (c_log c, w) = (Inr (), l', w')" "log_holds X w' l' b recs" "log_synced w' l'"
    "w_clean w'" "only_in (log_dir (c_log c)) w w'" "log_dir l' = log_dir (c_log c)" by blast
  then show ?thesis using m(1) on_log_run [of log_sync c w] by (auto simp: core_sync_def core_log_def mirrors_def log_wf_def)
qed

section \<open>The loop over the entries\<close>

lemma length_frames_subseq: "subseq xs ys \<Longrightarrow> length (frames X xs) \<le> length (frames X ys)"
  by (induction xs ys rule: list_emb.induct) auto

lemma log_fits_subseq:
  assumes "log_fits X b ys" and "subseq xs ys"
  shows "log_fits X b xs"
proof -
  have "set xs \<subseteq> set ys" using assms(2) by (induction xs ys rule: list_emb.induct) auto
  then show ?thesis
    using assms(1) list_emb_length [OF assms(2)] length_frames_subseq [OF assms(2), of X] unfolding log_fits_def by auto
qed

definition ser_entries :: "('x) ext_node_scheme \<Rightarrow> log_entry list \<Rightarrow> bytes list" where
  "ser_entries X = map (\<lambda>e. the (x_ser_entry X e))"

lemma ser_entries_simps [simp]:
  "ser_entries X [] = []" "ser_entries X (e # es) = the (x_ser_entry X e) # ser_entries X es" "length (ser_entries X es) = length es"
  by (simp_all add: ser_entries_def)

text \<open>What a change of the log leaves alone.\<close>

definition only_log :: "raft_core \<times> world \<Rightarrow> raft_core \<times> world \<Rightarrow> bool" where
  "only_log = (\<lambda>(c, w) (c', w'). (\<exists>l es. c' = c\<lparr>c_log := l, c_entries := es\<rparr>) \<and> log_dir (c_log c') = log_dir (c_log c) \<and>
     only_in (log_dir (c_log c)) w w')"

lemma only_log_refl [simp]: "only_log (c, w) (c, w)"
  by (auto simp: only_log_def intro!: exI [of _ "c_log c"] exI [of _ "c_entries c"])

lemma only_log_trans: "only_log (c, w) (c1, w1) \<Longrightarrow> only_log (c1, w1) (c2, w2) \<Longrightarrow> only_log (c, w) (c2, w2)"
  by (auto simp: only_log_def intro: only_in_trans) blast

text \<open>
  One entry at the position \<open>j\<close>. Either the log is synced, or the entry goes to its end; so it is when the next one comes.
\<close>

definition ready_for :: "('x) ext_node_scheme \<Rightarrow> nat \<Rightarrow> bytes list \<Rightarrow> nat \<Rightarrow> log_entry list \<Rightarrow> raft_core \<times> world \<Rightarrow> bool" where
  "ready_for X b recs j ns = (\<lambda>(c, w). core_log X b recs (c, w) \<and> w_clean w \<and> j \<le> Suc (snap_index c + length (c_entries c)) \<and>
     (log_synced w (c_log c) \<or> j = Suc (snap_index c + length (c_entries c))) \<and> numbered_from j ns \<and> log_fits X b (recs @ ser_entries X ns))"

lemma ready_skip:
  "ready_for X b recs j (n # ns) (c, w) \<Longrightarrow> log_synced w (c_log c) \<Longrightarrow> j \<le> snap_index c + length (c_entries c) \<Longrightarrow> ready_for X b recs (Suc j) ns (c, w)"
  using log_fits_subseq [of X b "recs @ ser_entries X (n # ns)" "recs @ ser_entries X ns"]
    list_emb_append_mono [OF subseq_order.order_refl [of recs] list_emb_Cons [OF subseq_order.order_refl [of "ser_entries X ns"]]]
  by (auto simp: ready_for_def)

lemma ready_append:
  assumes "core_log X b recs (c, w)" and "w_clean w" and "numbered_from (Suc (snap_index c + length (c_entries c))) (n # ns)"
    and "codec (x_ser_entry X) (x_de_entry X) UNIV" and "log_fits X b (recs @ ser_entries X (n # ns))"
  shows "\<exists>c' w' recs'. append_replicated X n (c, w) = (Inr (), c', w') \<and> only_log (c, w) (c', w') \<and> c_entries c' = c_entries c @ [n] \<and>
     ready_for X b recs' (Suc (Suc (snap_index c + length (c_entries c)))) ns (c', w')"
proof -
  obtain p where p: "x_ser_entry X n = Some p" "x_de_entry X p = Some n" using assms(4) by (auto elim: codecE)
  have f: "log_fits X b ((recs @ [p]) @ ser_entries X ns)" using assms(5) p(1) by simp
  have i: "le_index n = last_log_index c + 1" using assms(3) unat_next_index [OF core_log_wf [OF assms(1)]] by (simp add: word_unat_eq_iff)
  from append_replicated_run [OF assms(1,2) wl.fits_prefix [OF f] i p] obtain l' w' where
    r: "append_replicated X n (c, w) = (Inr (), c\<lparr>c_log := l', c_entries := c_entries c @ [n]\<rparr>, w')" "w_clean w'" "log_dir l' = log_dir (c_log c)"
      "only_in (log_dir (c_log c)) w w'" "core_log X b (recs @ [p]) (c\<lparr>c_log := l', c_entries := c_entries c @ [n]\<rparr>, w')" by blast
  then show ?thesis
    using f assms(3) by (intro exI [of _ "c\<lparr>c_log := l', c_entries := c_entries c @ [n]\<rparr>"] exI [of _ w'] exI [of _ "recs @ [p]"])
      (auto simp: only_log_def ready_for_def)
qed

lemma ready_conflict:
  assumes "ready_for X b recs j (n # ns) (c, w)" and "codec (x_ser_entry X) (x_de_entry X) UNIV" and "snap_index c < j" and "j \<le> snap_index c + length (c_entries c)"
  shows "\<exists>c' w' recs'. andThen (truncate_from X (le_index n)) (\<lambda>_. append_replicated X n) (c, w) = (Inr (), c', w') \<and> only_log (c, w) (c', w') \<and>
     c_entries c' = take (j - Suc (snap_index c)) (c_entries c) @ [n] \<and> ready_for X b recs' (Suc j) ns (c', w')"
proof -
  let ?s = "snap_index c" and ?es = "c_entries c" and ?i = "le_index n"
  have r: "core_log X b recs (c, w)" "w_clean w" "log_synced w (c_log c)" "unat ?i = j" "numbered_from (Suc j) ns" "log_fits X b (recs @ ser_entries X (n # ns))"
    using assms(1,4) by (auto simp: ready_for_def)
  obtain l1 w1 where
    t: "truncate_from X ?i (c, w) = (Inr (), c\<lparr>c_entries := take (j - Suc ?s) ?es, c_log := l1\<rparr>, w1)" "w_clean w1" "log_dir l1 = log_dir (c_log c)"
      "only_in (log_dir (c_log c)) w w1" "core_log X b (take (j - b) recs) (c\<lparr>c_entries := take (j - Suc ?s) ?es, c_log := l1\<rparr>, w1)"
    using truncate_from_run [OF r(1,3,2), of ?i, unfolded r(4), OF assms(3,4)] by blast
  define c1 where "c1 = c\<lparr>c_entries := take (j - Suc ?s) ?es, c_log := l1\<rparr>"
  have "c1 = c\<lparr>c_log := l1, c_entries := take (j - Suc ?s) ?es\<rparr>" by (simp add: c1_def)
  then have 1: "truncate_from X ?i (c, w) = (Inr (), c1, w1)" "w_clean w1" "core_log X b (take (j - b) recs) (c1, w1)" "only_log (c, w) (c1, w1)"
      "c_entries c1 = take (j - Suc ?s) ?es" "snap_index c1 = ?s"
    using t by (simp_all add: c1_def [symmetric]) (auto simp: only_log_def)
  have "subseq (take (j - b) recs @ ser_entries X (n # ns)) (recs @ ser_entries X (n # ns))"
    unfolding subseq_append by (rule prefix_imp_subseq [OF take_is_prefix])
  then have "log_fits X b (take (j - b) recs @ ser_entries X (n # ns))" using log_fits_subseq [OF r(6)] by blast
  moreover have j: "Suc (snap_index c1 + length (c_entries c1)) = j" using 1(5,6) assms(3,4) by (auto simp: min_def)
  moreover have "numbered_from j (n # ns)" using r(4,5) by simp
  ultimately obtain c2 w2 recs' where "append_replicated X n (c1, w1) = (Inr (), c2, w2)" "only_log (c1, w1) (c2, w2)" "c_entries c2 = c_entries c1 @ [n]"
    "ready_for X b recs' (Suc j) ns (c2, w2)"
    using ready_append [OF 1(3,2) _ assms(2), of n ns] by auto
  then show ?thesis using 1(1,5) only_log_trans [OF 1(4)] by (auto simp: andThen_def)
qed

lemma splice_entry_run:
  assumes "ready_for X b recs j (n # ns) (c, w)" and "codec (x_ser_entry X) (x_de_entry X) UNIV"
  shows "\<exists>c' w' recs'. splice_entry X n (c, w) = (Inr (), c', w') \<and> only_log (c, w) (c', w') \<and> ready_for X b recs' (Suc j) ns (c', w') \<and>
     spliced (snap_index c) (c_entries c) j (n # ns) = spliced (snap_index c) (c_entries c') (Suc j) ns"
proof -
  let ?s = "snap_index c" and ?es = "c_entries c" and ?i = "le_index n"
  have r: "core_log X b recs (c, w)" "w_clean w" "j \<le> Suc (?s + length ?es)" "log_synced w (c_log c) \<or> j = Suc (?s + length ?es)" "unat ?i = j"
    "numbered_from (Suc j) ns" "log_fits X b (recs @ ser_entries X (n # ns))" using assms(1) by (auto simp: ready_for_def)
  note wf = core_log_wf [OF r(1)]
  have base: "?i < base_index c \<longleftrightarrow> j \<le> ?s" using unat_base_index [OF wf] r(5) by (auto simp: word_less_nat_alt)
  have at: "term_at c ?i = (if j \<le> ?s + length ?es then Some (le_term (?es ! (j - Suc ?s))) else None)" if "?s < j"
    using that r(5) by (auto simp: term_at_entry [OF wf] entry_at_nth [OF wf])
  consider (below) "j \<le> ?s" | (same) "?s < j" "j \<le> ?s + length ?es" "le_term (?es ! (j - Suc ?s)) = le_term n"
    | (conflict) "?s < j" "j \<le> ?s + length ?es" "le_term (?es ! (j - Suc ?s)) \<noteq> le_term n" | (new) "?s < j" "j = Suc (?s + length ?es)"
    using r(3) by linarith
  then show ?thesis
  proof cases
    case below
    have "ready_for X b recs (Suc j) ns (c, w)" using ready_skip [OF assms(1)] r(4) below by auto
    then show ?thesis using below base spliced_below [OF below] by (auto simp: splice_entry_def andThen_def get_st_def ret_def)
  next
    case same
    have "ready_for X b recs (Suc j) ns (c, w)" using ready_skip [OF assms(1)] r(4) same by auto
    then show ?thesis using same base at spliced_same [of ?s j ?es n ns] by (auto simp: splice_entry_def andThen_def get_st_def ret_def)
  next
    case conflict
    from ready_conflict [OF assms conflict(1,2)] show ?thesis
      using conflict base at spliced_conflict [of ?s j ?es n ns] by (auto simp: splice_entry_def andThen_get_st)
  next
    case new
    then have "numbered_from (Suc (?s + length ?es)) (n # ns)" using r(5,6) by simp
    from ready_append [OF r(1,2) this assms(2) r(7)] obtain c2 w2 recs' where "append_replicated X n (c, w) = (Inr (), c2, w2)" "only_log (c, w) (c2, w2)"
      "c_entries c2 = ?es @ [n]" "ready_for X b recs' (Suc j) ns (c2, w2)" using new by blast
    then show ?thesis using new base at spliced_new [of ?s j ?es n ns] by (auto simp: splice_entry_def andThen_def get_st_def)
  qed
qed

lemma splice_run:
  assumes "ready_for X b recs j ns (c, w)" and "codec (x_ser_entry X) (x_de_entry X) UNIV"
  shows "\<exists>c' w' recs'. for_each ns (splice_entry X) (c, w) = (Inr (), c', w') \<and> only_log (c, w) (c', w') \<and> core_log X b recs' (c', w') \<and> w_clean w' \<and>
     c_entries c' = spliced (snap_index c) (c_entries c) j ns"
  using assms(1)
proof (induction ns arbitrary: c w j recs)
  case Nil
  then show ?case by (auto simp: ret_def ready_for_def)
next
  case (Cons n ns)
  from splice_entry_run [OF Cons.prems assms(2)] obtain c1 w1 recs1 where
    1: "splice_entry X n (c, w) = (Inr (), c1, w1)" "only_log (c, w) (c1, w1)" "ready_for X b recs1 (Suc j) ns (c1, w1)"
      "spliced (snap_index c) (c_entries c) j (n # ns) = spliced (snap_index c) (c_entries c1) (Suc j) ns" by blast
  have "snap_index c1 = snap_index c" using 1(2) by (auto simp: only_log_def)
  with Cons.IH [OF 1(3)] 1(1,4) only_log_trans [OF 1(2)] show ?case by (fastforce simp: andThen_def)
qed

end
