(* ===== verification/Raft_Append.thy ===== *)
theory Raft_Append
  imports Raft_Log Wal_Frame
begin

text \<open>
  Replication on a healthy disk: what a follower's log is after an \<open>AppendEntries\<close> message, that it then agrees with the
  leader's, how the leader finds the point of agreement, and when it commits.
\<close>

section \<open>The write-ahead log and the hard state do not meet\<close>

definition log_paths :: "wal_log \<Rightarrow> path set" where
  "log_paths l = {p. butlast p = log_dir l}"

definition log_inodes :: "wal_log \<Rightarrow> nat set" where
  "log_inodes l = seg_ino ` set (segments l)"

lemma log_walled:
  assumes "log_ok X w l rss"
  shows "walled (log_paths l) (log_inodes l) w"
proof -
  have s: "fs_ok w" "chain X w (log_dir l) (unat (log_first_index l)) (segments l) rss" "own_files w (log_dir l) (segments l)"
    using assms by (auto simp: log_ok_def segs_ok_def)
  have "i < w_next w" if "i \<in> log_inodes l" for i
    using that chain_ino [OF s(2)] s(1) by (auto simp: log_inodes_def fs_ok_def simp del: map_of_eq_Some_iff)
  then show ?thesis using s(1,3) by (auto simp: walled_def own_files_def log_paths_def log_inodes_def)
qed

lemma log_holds_spares:
  assumes "log_holds X w l b recs" and "spares (log_paths l) (log_inodes l) w w'"
  shows "log_holds X w' l b recs" and "log_synced w l \<Longrightarrow> log_synced w' l"
proof -
  obtain rss where rss: "log_ok X w l rss" "recs = concat rss" "b = unat (log_first_index l)" using assms(1) by (auto simp: log_holds_def)
  have s: "chain X w (log_dir l) (unat (log_first_index l)) (segments l) rss" "own_files w (log_dir l) (segments l)" "log_dir l \<in> set (w_dirs w)"
    using rss(1) by (auto simp: log_ok_def segs_ok_def)
  have f: "w_find w' p = w_find w p" if "butlast p = log_dir l" for p using assms(2) that by (simp add: spares_def log_paths_def)
  have i: "w_inode w' (seg_ino s) = w_inode w (seg_ino s)" if "s \<in> set (segments l)" for s using assms(2) that by (simp add: spares_def log_inodes_def)
  have "chain X w' (log_dir l) (unat (log_first_index l)) (segments l) rss"
    by (rule chain_transfer [OF s(1)]) (use f i chain_path_dir [OF s(1)] in auto)
  moreover have "own_files w' (log_dir l) (segments l)"
    using s(2) f assms(2) by (auto simp: own_files_def spares_def walled_def log_paths_def log_inodes_def simp del: map_of_eq_Some_iff)
  moreover have "fs_ok w'" "log_dir l \<in> set (w_dirs w')" using assms(2) s(3) by (auto simp: spares_def walled_def)
  ultimately have "log_ok X w' l rss" using rss(1) by (simp add: log_ok_def segs_ok_def)
  then show "log_holds X w' l b recs" using rss by (auto simp: log_holds_def)
  show "log_synced w l \<Longrightarrow> log_synced w' l" using i by (auto simp: log_synced_def intro: seg_synced_transfer)
qed

lemma preserves_hard_persist:
  assumes "path \<noteq> []" and "tmp_path path \<noteq> path" and "butlast (tmp_path path) = butlast path" and "butlast path \<noteq> log_dir l"
  shows "preserves (spares (log_paths l) I w0) (hard_persist X h path) anything"
proof -
  have out: "tmp_path path \<notin> log_paths l" "path \<notin> log_paths l" using assms by (simp_all add: log_paths_def)
  have dir: "preserves (spares (log_paths l) I w0) (on_parent path create_dir_all) anything" "preserves (spares (log_paths l) I w0) (on_parent path sync_dir) anything"
    using assms(1,4) by (auto simp: on_parent_def path_parent_def log_paths_def intro!: preserves_spares_pure(7) preserves_sync_dir)
  show ?thesis
    unfolding hard_persist_def
    by (intro preserves_andThen_anything [OF dir(1)] preserves_option preserves_throw preserves_andThen_anything [OF preserves_install_file] dir(2) out assms(2))
qed

text \<open>The log in its place, synced, on a healthy disk, beside a hard state file.\<close>

definition at_rest :: "('x) ext_node_scheme \<Rightarrow> nat \<Rightarrow> bytes list \<Rightarrow> raft_core \<times> world \<Rightarrow> bool" where
  "at_rest X b recs = (\<lambda>(c, w). core_log X b recs (c, w) \<and> log_synced w (c_log c) \<and> w_clean w \<and> butlast (c_hard_path c) \<noteq> log_dir (c_log c) \<and>
     (\<exists>hs. hard_file X w (c_hard_path c) hs) \<and> as_millis (c_election_start c) < as_millis (c_election_end c))"

lemma log_holds_outside:
  assumes "log_holds X w l b recs" and "preserves (spares (log_paths l) (log_inodes l) w) m anything" and "m w = (r, w')"
  shows "log_holds X w' l b recs" and "log_synced w l \<Longrightarrow> log_synced w' l"
proof -
  obtain rss where "log_ok X w l rss" using assms(1) by (auto simp: log_holds_def)
  then have "spares (log_paths l) (log_inodes l) w w'" using preservesD [OF assms(2) _ assms(3)] spares_refl log_walled by blast
  then show "log_holds X w' l b recs" "log_synced w l \<Longrightarrow> log_synced w' l" using log_holds_spares [OF assms(1)] by blast+
qed

lemma core_log_other:
  assumes "core_log X b recs (c, w)" and "log_holds X w' (c_log c) b recs" and "c_entries c' = c_entries c" and "c_log c' = c_log c" and "c_snapshot c' = c_snapshot c"
  shows "core_log X b recs (c', w')"
  using assms by (simp add: core_log_def mirrors_def log_wf_def)

lemma timer_keeps_log:
  assumes "core_log X b recs (c, w)" and "log_synced w (c_log c)" and "w_clean w" and "as_millis (c_election_start c) < as_millis (c_election_end c)"
  shows "\<exists>d w'. reset_election_timer X (c, w) = (Inr (), c\<lparr>c_election_deadline := d\<rparr>, w') \<and> w_clean w' \<and>
     core_log X b recs (c\<lparr>c_election_deadline := d\<rparr>, w') \<and> log_synced w' (c_log c)"
proof -
  obtain ms w1 where 1: "gen_range X (as_millis (c_election_start c)) (as_millis (c_election_end c)) w = (Inr ms, w1)" "w_clean w1"
    using assms(3,4) by (auto simp: gen_range_def)
  obtain now w2 where 2: "instant_now X w1 = (Inr now, w2)" "w_clean w2" using 1(2) by (auto simp: instant_now_def)
  have h: "log_holds X w (c_log c) b recs" using assms(1) by (simp add: core_log_def)
  note h1 = log_holds_outside [OF h preserves_spares_pure(6) 1(1)]
  note h2 = log_holds_outside [OF h1(1) preserves_spares_pure(5) 2(1)]
  have "core_log X b recs (c\<lparr>c_election_deadline := d\<rparr>, w2)" for d by (rule core_log_other [OF assms(1) h2(1)]) simp_all
  then show ?thesis
    using 1 2 h1(2) h2(2) assms(2) by (auto simp: reset_election_timer_def andThen_def get_st_def outside_def modify_def)
qed

lemma become_follower_keeps_log:
  assumes "at_rest X b recs (c, w)" and "codec (x_ser_hard X) (x_de_hard X) UNIV" and "current_term c < term"
  shows "\<exists>c' w'. become_follower X term leader (c, w) = (Inr (), c', w') \<and> w_clean w' \<and> core_log X b recs (c', w') \<and> log_synced w' (c_log c') \<and>
     c' = c\<lparr>c_hard := \<lparr>hs_term = term, hs_voted_for = None\<rparr>, c_role := Follower, c_leader_id := leader, c_lease := lease_invalidate (c_lease c)\<rparr>"
proof -
  let ?h = "\<lparr>hs_term = term, hs_voted_for = None\<rparr>"
  obtain hs where a: "core_log X b recs (c, w)" "log_synced w (c_log c)" "w_clean w" "butlast (c_hard_path c) \<noteq> log_dir (c_log c)"
    "hard_file X w (c_hard_path c) hs" using assms(1) by (auto simp: at_rest_def)
  obtain w' where p: "hard_persist X ?h (c_hard_path c) w = (Inr (), w')" "w_clean w'" using hard_persist_run [OF a(5) assms(2) a(3)] by blast
  have "butlast (tmp_path (c_hard_path c)) = butlast (c_hard_path c)" using a(5) by (simp add: hard_file_def atomic_ok_def)
  then have pres: "preserves (spares (log_paths (c_log c)) (log_inodes (c_log c)) w) (hard_persist X ?h (c_hard_path c)) anything"
    using hard_file_path [OF a(5)] a(4) by (intro preserves_hard_persist) simp_all
  have h: "log_holds X w (c_log c) b recs" using a(1) by (simp add: core_log_def)
  note h' = log_holds_outside [OF h pres p(1)]
  have "core_log X b recs (c\<lparr>c_hard := ?h, c_role := Follower, c_leader_id := leader, c_lease := lease_invalidate (c_lease c)\<rparr>, w')"
    by (rule core_log_other [OF a(1) h'(1)]) simp_all
  then show ?thesis
    using p h'(2) a(2) assms(3)
    by (simp add: become_follower_def persist_hard_def andThen_def get_st_def modify_def outside_def current_term_def)
qed

section \<open>A follower's log after a message\<close>

lemma andThen_pair: "andThen m (\<lambda>_. k) s = (Inr x, s') \<Longrightarrow> andThen m (\<lambda>_. andThen k f) s = f x s'"
  by (auto simp: andThen_def split: prod.splits sum.splits)

definition adopt_leader :: "('x) ext_node_scheme \<Rightarrow> append_entries_args \<Rightarrow> raft_core \<Rightarrow> unit core_io" where
  "adopt_leader X args c = (if hs_term (c_hard c) < ae_term args then become_follower X (ae_term args) (Some (ae_leader_id args))
     else upd_core (\<lambda>c. c\<lparr>c_role := Follower, c_leader_id := Some (ae_leader_id args)\<rparr>))"

lemma adopt_leader_run:
  assumes "at_rest X b recs (c, w)" and "codec (x_ser_hard X) (x_de_hard X) UNIV" and "current_term c \<le> ae_term args"
  shows "\<exists>c' w'. andThen (adopt_leader X args c) (\<lambda>_. reset_election_timer X) (c, w) = (Inr (), c', w') \<and> w_clean w' \<and> core_log X b recs (c', w') \<and>
     log_synced w' (c_log c') \<and> c_entries c' = c_entries c \<and> c_snapshot c' = c_snapshot c \<and> c_commit_index c' = c_commit_index c \<and>
     c_role c' = Follower \<and> current_term c' = ae_term args"
proof -
  have t: "as_millis (c_election_start c) < as_millis (c_election_end c)" using assms(1) by (simp add: at_rest_def)
  have "\<exists>c' w'. adopt_leader X args c (c, w) = (Inr (), c', w') \<and> w_clean w' \<and> core_log X b recs (c', w') \<and> log_synced w' (c_log c') \<and>
      c_entries c' = c_entries c \<and> c_snapshot c' = c_snapshot c \<and> c_commit_index c' = c_commit_index c \<and> c_role c' = Follower \<and>
      current_term c' = ae_term args \<and> as_millis (c_election_start c') < as_millis (c_election_end c')"
  proof (cases "current_term c < ae_term args")
    case True
    from become_follower_keeps_log [OF assms(1,2) True, of "Some (ae_leader_id args)"] show ?thesis
      using True t by (auto simp: adopt_leader_def current_term_def)
  next
    case False
    have "core_log X b recs (c\<lparr>c_role := Follower, c_leader_id := Some (ae_leader_id args)\<rparr>, w)"
      by (rule core_log_other [of X b recs c w]) (use assms(1) in \<open>simp_all add: at_rest_def core_log_def\<close>)
    then show ?thesis using assms(1,3) False t by (auto simp: adopt_leader_def modify_def current_term_def at_rest_def)
  qed
  then obtain c1 w1 where 1: "adopt_leader X args c (c, w) = (Inr (), c1, w1)" "w_clean w1" "core_log X b recs (c1, w1)" "log_synced w1 (c_log c1)"
    "c_entries c1 = c_entries c" "c_snapshot c1 = c_snapshot c" "c_commit_index c1 = c_commit_index c" "c_role c1 = Follower"
    "current_term c1 = ae_term args" "as_millis (c_election_start c1) < as_millis (c_election_end c1)" by blast
  obtain d w2 where "reset_election_timer X (c1, w1) = (Inr (), c1\<lparr>c_election_deadline := d\<rparr>, w2)" "w_clean w2"
    "core_log X b recs (c1\<lparr>c_election_deadline := d\<rparr>, w2)" "log_synced w2 (c_log c1)" using timer_keeps_log [OF 1(3,4,2,10)] by blast
  then show ?thesis using 1 by (auto simp: andThen_def current_term_def)
qed

text \<open>The second half of the handler, for a message that fits.\<close>

lemma accept_run:
  assumes "core_log X b recs (c, w)" and "log_synced w (c_log c)" and "w_clean w" and "codec (x_ser_entry X) (x_de_entry X) UNIV"
    and "unat prev \<le> snap_index c + length (c_entries c)" and "numbered_from (Suc (unat prev)) ns" and "log_fits X b (recs @ ser_entries X ns)"
  shows "\<exists>c' w' recs'. andThen (for_each ns (splice_entry X)) (\<lambda>_. core_sync) (c, w) = (Inr (), c', w') \<and> w_clean w' \<and> core_log X b recs' (c', w') \<and>
     log_synced w' (c_log c') \<and> c_entries c' = spliced (snap_index c) (c_entries c) (Suc (unat prev)) ns \<and> c_snapshot c' = c_snapshot c \<and>
     c_role c' = c_role c \<and> c_hard c' = c_hard c \<and> c_commit_index c' = c_commit_index c"
proof -
  have "ready_for X b recs (Suc (unat prev)) ns (c, w)" using assms by (simp add: ready_for_def)
  from splice_run [OF this assms(4)] obtain c1 w1 recs' where
    1: "for_each ns (splice_entry X) (c, w) = (Inr (), c1, w1)" "only_log (c, w) (c1, w1)" "core_log X b recs' (c1, w1)" "w_clean w1"
      "c_entries c1 = spliced (snap_index c) (c_entries c) (Suc (unat prev)) ns" by blast
  from core_sync_run [OF 1(3,4)] obtain l2 w2 where
    2: "core_sync (c1, w1) = (Inr (), c1\<lparr>c_log := l2\<rparr>, w2)" "w_clean w2" "log_synced w2 l2" "core_log X b recs' (c1\<lparr>c_log := l2\<rparr>, w2)" by blast
  have same: "c_snapshot c1 = c_snapshot c" "c_role c1 = c_role c" "c_hard c1 = c_hard c" "c_commit_index c1 = c_commit_index c"
    using 1(2) by (auto simp: only_log_def)
  have "andThen (for_each ns (splice_entry X)) (\<lambda>_. core_sync) (c, w) = (Inr (), c1\<lparr>c_log := l2\<rparr>, w2)" using 1(1) 2(1) by (simp add: andThen_def)
  then show ?thesis using 1(5) 2(2-4) same by (intro exI [of _ "c1\<lparr>c_log := l2\<rparr>"] exI [of _ w2] exI [of _ recs']) simp
qed

definition new_commit :: "u64 \<Rightarrow> u64 \<Rightarrow> u64 \<Rightarrow> u64" where
  "new_commit commit leader_commit last_index = (if commit < leader_commit then min leader_commit last_index else commit)"

lemma append_entries_run:
  assumes "at_rest X b recs (c, w)" and "codec (x_ser_hard X) (x_de_hard X) UNIV" and "codec (x_ser_entry X) (x_de_entry X) UNIV"
    and "current_term c \<le> ae_term args" and "ae_prev_log_index args \<le> last_log_index c"
    and "term_at c (ae_prev_log_index args) \<in> {None, Some (ae_prev_log_term args)}"
    and "numbered_from (Suc (unat (ae_prev_log_index args))) (ae_entries args)" and "log_fits X b (recs @ ser_entries X (ae_entries args))"
  shows "\<exists>c' w' recs'. handle_append_entries X args (c, w) = (Inr \<lparr>aer_term = ae_term args, aer_success = True, aer_conflict_index = 0\<rparr>, c', w') \<and>
     c_entries c' = spliced (snap_index c) (c_entries c) (Suc (unat (ae_prev_log_index args))) (ae_entries args) \<and> c_snapshot c' = c_snapshot c \<and>
     c_role c' = Follower \<and> current_term c' = ae_term args \<and> c_commit_index c' = new_commit (c_commit_index c) (ae_leader_commit args) (last_log_index c') \<and>
     core_log X b recs' (c', w') \<and> log_synced w' (c_log c') \<and> w_clean w'"
proof -
  let ?prev = "ae_prev_log_index args"
  have wf: "log_wf c" using assms(1) core_log_wf by (auto simp: at_rest_def)
  obtain c1 w1 where 1: "andThen (adopt_leader X args c) (\<lambda>_. reset_election_timer X) (c, w) = (Inr (), c1, w1)" "w_clean w1" "core_log X b recs (c1, w1)"
    "log_synced w1 (c_log c1)" "c_entries c1 = c_entries c" "c_snapshot c1 = c_snapshot c" "c_commit_index c1 = c_commit_index c"
    "c_role c1 = Follower" "current_term c1 = ae_term args" using adopt_leader_run [OF assms(1,2,4)] by blast
  have at: "term_at c1 = term_at c" "last_log_index c1 = last_log_index c"
    using 1(5,6) by (auto simp: term_at_def base_index_def last_log_index_def fun_eq_iff)
  have prev: "unat ?prev \<le> snap_index c1 + length (c_entries c1)" using assms(5) unat_last_log_index [OF wf] 1(5,6) by (simp add: word_le_nat_alt)
  from accept_run [OF 1(3,4,2) assms(3) prev assms(7,8)] obtain c2 w2 recs' where
    2: "andThen (for_each (ae_entries args) (splice_entry X)) (\<lambda>_. core_sync) (c1, w1) = (Inr (), c2, w2)" "w_clean w2" "core_log X b recs' (c2, w2)"
      "log_synced w2 (c_log c2)" "c_entries c2 = spliced (snap_index c) (c_entries c) (Suc (unat ?prev)) (ae_entries args)" "c_snapshot c2 = c_snapshot c"
      "c_role c2 = Follower" "c_hard c2 = c_hard c1" "c_commit_index c2 = c_commit_index c" unfolding 1(5-8) by blast
  let ?c3 = "if c_commit_index c2 < ae_leader_commit args then c2\<lparr>c_commit_index := min (ae_leader_commit args) (last_log_index c2)\<rparr> else c2"
  have "handle_append_entries X args (c, w) = (Inr \<lparr>aer_term = ae_term args, aer_success = True, aer_conflict_index = 0\<rparr>, ?c3, w2)"
    using assms(4-6) 1(9) 2(8) at
    by (simp add: handle_append_entries_def andThen_get_st andThen_pair [OF 1(1) [unfolded adopt_leader_def]] andThen_pair [OF 2(1)] andThen_modify ret_def
        current_term_def not_less)
  moreover have "core_log X b recs' (?c3, w2)" by (rule core_log_other [OF 2(3)]) (use 2(3) in \<open>simp_all add: core_log_def\<close>)
  ultimately show ?thesis
    using 2 1(9) by (intro exI [of _ ?c3] exI [of _ w2] exI [of _ recs']) (auto simp: new_commit_def current_term_def last_log_index_def)
qed

section \<open>Agreement with the leader\<close>

lemma spliced_nth:
  assumes "j - Suc s \<le> length es" and "s < i" and "j \<le> i" and "i < j + length ns"
  shows "i - Suc s < length (spliced s es j ns) \<and> le_term (spliced s es j ns ! (i - Suc s)) = le_term (ns ! (i - j))"
proof -
  let ?k = "j - Suc s" and ?ns = "drop (Suc s - j) ns"
  obtain q where q: "i - Suc s = ?k + q" "Suc s - j + q = i - j" using assms by (intro that [of "i - Suc s - ?k"]) linarith+
  have "q < length ?ns" using assms q by auto
  from merge_agrees [OF this, of "drop ?k es"] have
    m: "q < length (merge (drop ?k es) ?ns)" "le_term (merge (drop ?k es) ?ns ! q) = le_term (ns ! (i - j))"
    using \<open>q < length ?ns\<close> q(2) by auto
  have k: "length (take ?k es) = ?k" using assms(1) by simp
  have "spliced s es j ns ! (?k + q) = merge (drop ?k es) ?ns ! q"
    using nth_append_length_plus [of "take ?k es" "merge (drop ?k es) ?ns" q] unfolding k by (simp add: spliced_def Let_def)
  moreover have "?k + q < length (spliced s es j ns)" using k m(1) by (simp add: spliced_def Let_def)
  ultimately show ?thesis unfolding q(1) using m(2) by simp
qed

text \<open>The indices both logs reach above the follower's snapshot and the point the message starts from.\<close>

lemma term_at_above: "log_wf c \<Longrightarrow> snap_index c < unat i \<Longrightarrow> unat i \<le> snap_index c + length (c_entries c) \<Longrightarrow>
   term_at c i = Some (le_term (c_entries c ! (unat i - Suc (snap_index c))))"
  by (auto simp: term_at_entry entry_at_nth)

lemma build_facts:
  assumes "log_wf l" and "c_next_index l peer = Some next" and "snap_index l < unat next" and "unat next \<le> Suc (unat (last_log_index l))"
  shows "unat (ae_prev_log_index (build_append_entries l peer)) = unat next - 1"
    and "ae_entries (build_append_entries l peer) = drop (unat next - Suc (snap_index l)) (c_entries l)"
    and "numbered_from (unat next) (ae_entries (build_append_entries l peer))"
proof -
  note len = unat_last_log_index [OF assms(1)]
  show "unat (ae_prev_log_index (build_append_entries l peer)) = unat next - 1"
    using assms(2) by (simp add: build_append_entries_def Let_def or_default_def)
  show e: "ae_entries (build_append_entries l peer) = drop (unat next - Suc (snap_index l)) (c_entries l)"
    using assms len entries_from_drop [OF assms(1,3)] by (simp add: build_append_entries_def Let_def or_default_def)
  show "numbered_from (unat next) (ae_entries (build_append_entries l peer))"
    using numbered_from_drop [of "Suc (snap_index l)" "c_entries l" "unat next - Suc (snap_index l)"] assms(1,3,4) len
    unfolding e by (simp add: log_wf_def)
qed

section \<open>The commit rule\<close>

lemma count_descending: "sorted_wrt (\<ge>) ys \<Longrightarrow> Suc k \<le> length (filter (\<lambda>m. i \<le> m) ys) \<longleftrightarrow> k < length ys \<and> i \<le> ys ! k" for i :: "'a::linorder"
proof (induction ys arbitrary: k)
  case (Cons y ys)
  show ?case
  proof (cases "i \<le> y")
    case True
    then show ?thesis using Cons by (cases k) auto
  next
    case False
    then have "filter (\<lambda>m. i \<le> m) ys = []" "\<forall>m\<in>set ys. \<not> i \<le> m" using Cons.prems by (force simp: filter_empty_conv)+
    then show ?thesis using False by (cases k) auto
  qed
qed simp

lemma descending_rank:
  fixes xs :: "'a::linorder list"
  assumes "k < length xs"
  shows "Suc k \<le> length (filter (\<lambda>m. i \<le> m) xs) \<longleftrightarrow> i \<le> rev (sort xs) ! k"
proof -
  have "length (filter (\<lambda>m. i \<le> m) (rev (sort xs))) = length (filter (\<lambda>m. i \<le> m) xs)"
    by (simp add: rev_filter [symmetric] filter_sort)
  moreover have "sorted_wrt (\<ge>) (rev (sort xs))" by (simp add: sorted_wrt_rev)
  ultimately show ?thesis using count_descending [of "rev (sort xs)" k i] assms by simp
qed

text \<open>How far the log of each node of the cluster is known to match the leader's.\<close>

definition known_matches :: "raft_core \<Rightarrow> u64 list" where
  "known_matches c = last_log_index c # map (\<lambda>p. or_default 0 (c_match_index c p)) (c_peers c)"

definition on_quorum :: "raft_core \<Rightarrow> u64 \<Rightarrow> bool" where
  "on_quorum c i \<longleftrightarrow> core_quorum c \<le> length (filter (\<lambda>m. i \<le> m) (known_matches c))"

lemma advance_commit_index_run:
  assumes "c_cluster_size c = Suc (length (c_peers c))"
  shows "\<exists>N. on_quorum c N \<and> (\<forall>i. on_quorum c i \<longrightarrow> i \<le> N) \<and> advance_commit_index (c, w) =
     (Inr (), c\<lparr>c_commit_index := if c_commit_index c < N \<and> term_at c N = Some (current_term c) then N else c_commit_index c\<rparr>, w)"
proof -
  let ?ms = "map (\<lambda>p. or_default 0 (c_match_index c p)) (c_peers c) @ [last_log_index c]" and ?k = "core_quorum c - 1"
  have k: "?k < length ?ms" "Suc ?k = core_quorum c" using assms by (auto simp: core_quorum_def)
  have "length (filter (\<lambda>m. i \<le> m) ?ms) = length (filter (\<lambda>m. i \<le> m) (known_matches c))" for i by (simp add: known_matches_def)
  then have q: "on_quorum c i \<longleftrightarrow> i \<le> rev (sort ?ms) ! ?k" for i using descending_rank [OF k(1), of i] k(2) by (simp add: on_quorum_def)
  have g: "get_nth (rev (sort ?ms)) ?k = Some (rev (sort ?ms) ! ?k)" using k(1) by (simp add: get_nth_def)
  have "advance_commit_index (c, w) = (Inr (), c\<lparr>c_commit_index := if c_commit_index c < rev (sort ?ms) ! ?k \<and> term_at c (rev (sort ?ms) ! ?k) = Some (current_term c)
      then rev (sort ?ms) ! ?k else c_commit_index c\<rparr>, w)"
    using g by (simp add: advance_commit_index_def andThen_get_st Let_def modify_def current_term_def)
  then show ?thesis using q by (intro exI [of _ "rev (sort ?ms) ! ?k"]) simp
qed

section \<open>Applying what is committed\<close>

lemma take_committed_run:
  assumes "log_wf c" and "snap_index c \<le> unat (c_last_applied c)" and "unat (c_last_applied c) \<le> snap_index c + length (c_entries c)"
  shows "take_committed c = (let out = take (unat (c_commit_index c) - unat (c_last_applied c)) (drop (unat (c_last_applied c) - snap_index c) (c_entries c))
     in (out, c\<lparr>c_last_applied := c_last_applied c + of_nat (length out)\<rparr>))"
  using assms
proof (induction c rule: take_committed.induct)
  case (1 c)
  let ?a = "c_last_applied c" and ?s = "snap_index c" and ?es = "c_entries c"
  show ?case
  proof (cases "?a < c_commit_index c \<and> unat ?a < ?s + length ?es")
    case True
    then have n: "unat (?a + 1) = Suc (unat ?a)" using unat_u64_next by auto
    have e: "entry_at c (?a + 1) = Some (?es ! (unat ?a - ?s))" using entry_at_nth [OF "1.prems"(1), of "?a + 1"] "1.prems"(2) True n by simp
    have lt: "unat ?a < unat (c_commit_index c)" using True by (simp add: word_less_nat_alt)
    have "unat ?a - ?s < length ?es" using True "1.prems"(2) by linarith
    from Cons_nth_drop_Suc [OF this, symmetric] have d: "drop (unat ?a - ?s) ?es = ?es ! (unat ?a - ?s) # drop (Suc (unat ?a) - ?s) ?es"
      by (simp only: Suc_diff_le [OF "1.prems"(2)])
    have c: "unat (c_commit_index c) - unat ?a = Suc (unat (c_commit_index c) - Suc (unat ?a))" using lt by linarith
    have IH: "take_committed (c\<lparr>c_last_applied := ?a + 1\<rparr>) = (let out = take (unat (c_commit_index c) - Suc (unat ?a)) (drop (Suc (unat ?a) - ?s) ?es)
        in (out, c\<lparr>c_last_applied := ?a + 1 + of_nat (length out)\<rparr>))"
      using "1.IH" [OF _ refl e] True "1.prems" n by (simp add: log_wf_def Let_def)
    show ?thesis unfolding d c by (subst take_committed.simps) (use True e IH in \<open>simp add: Let_def algebra_simps\<close>)
  next
    case False
    then consider "\<not> ?a < c_commit_index c" | "?a < c_commit_index c" "unat ?a = ?s + length ?es" using "1.prems"(3) by linarith
    then show ?thesis
    proof cases
      case 1
      then show ?thesis by (subst take_committed.simps) (simp add: Let_def word_less_nat_alt)
    next
      case 2
      then have "entry_at c (?a + 1) = None" using entry_at_nth [OF "1.prems"(1)] unat_u64_next [OF 2(1)] by simp
      then show ?thesis using 2 by (subst take_committed.simps) (simp add: Let_def)
    qed
  qed
qed

section \<open>Backing off\<close>

lemma reject_step:
  assumes "c_role c = Leader" and "\<not> aer_success reply"
  shows "\<exists>next'. on_append_entries_reply peer sent reply (c, w) = (Inr (), c\<lparr>c_next_index := (c_next_index c)(peer \<mapsto> next')\<rparr>, w) \<and>
     0 < unat next' \<and> unat next' \<le> max 1 (unat (or_default 1 (c_next_index c peer)) - 1)"
proof -
  let ?cur = "or_default 1 (c_next_index c peer)"
  let ?hint = "if 0 < aer_conflict_index reply then aer_conflict_index reply else saturating_sub ?cur 1"
  let ?next = "max (min ?hint (saturating_sub ?cur 1)) 1"
  have u: "unat (max a b) = max (unat a) (unat b)" "unat (min a b) = min (unat a) (unat b)" for a b :: u64
    by (simp_all add: max_def min_def word_le_nat_alt)
  have "on_append_entries_reply peer sent reply (c, w) = (Inr (), c\<lparr>c_next_index := (c_next_index c)(peer \<mapsto> ?next)\<rparr>, w)"
    using assms by (simp add: on_append_entries_reply_def andThen_get_st modify_def Let_def)
  moreover have "0 < unat ?next" "unat ?next \<le> max 1 (unat ?cur - 1)" by (simp_all add: u)
  ultimately show ?thesis by blast
qed

section \<open>Starting again\<close>



section \<open>A sample follower\<close>

abbreviation sample_dir :: path where
  "sample_dir \<equiv> [''d'', ''wal'']"

definition sample_disk :: "log_entry list \<Rightarrow> world" where
  "sample_disk es = sample_world sample_node sample_dir (map enc_entry es) []"

lemma sample_at_rest:
  assumes "log_fits sample_node 1 (map enc_entry es)" and "numbered_from 1 es"
  shows "at_rest sample_node 1 (map enc_entry es) (sample_core r h es, sample_disk es)" and "hard_file sample_node (sample_disk es) [''d'', ''hard_state''] {default_hard_state}"
proof -
  let ?w = "sample_disk es" and ?c = "sample_core r h es"
  have "\<not> reach ?w p i" if "p \<in> hard_paths [''d'', ''hard_state'']" for p i
    using that by (auto simp: hard_paths_def tmp_path_def push_str_def reach_def sample_disk_def sample_world_def file_world_def segment_path_def
        SEGMENT_PREFIX_def split: if_splits)
  then show f: "hard_file sample_node ?w [''d'', ''hard_state''] {default_hard_state}"
    by (intro hard_file_fresh) (auto simp: tmp_path_def push_str_def sample_disk_def sample_world_def)
  have "map (x_de_entry sample_node \<circ> enc_entry) es = map Some es" by (simp add: sample_node_def dec_enc_entry)
  then have "mirrors sample_node 1 (map enc_entry es) ?c"
    using assms by (auto simp: mirrors_def log_wf_def sample_core_def default_meta_def log_fits_def comp_def)
  moreover have "log_holds sample_node ?w (c_log ?c) 1 (map enc_entry es)" "log_synced ?w (c_log ?c)"
    using sample_log_holds [OF assms(1)] sample_log_ok(2) [OF assms(1)] by (simp_all add: sample_core_def sample_disk_def)
  moreover have "w_clean ?w" "butlast (c_hard_path ?c) \<noteq> log_dir (c_log ?c)" "c_hard_path ?c = [''d'', ''hard_state'']"
    "as_millis (c_election_start ?c) < as_millis (c_election_end ?c)"
    by (simp_all add: sample_disk_def sample_world_def sample_core_def sample_log_def)
  ultimately show "at_rest sample_node 1 (map enc_entry es) (?c, ?w)" using f by (auto simp: at_rest_def core_log_def)
qed

section \<open>Properties\<close>

abbreviation sample_entry :: "u64 \<Rightarrow> u64 \<Rightarrow> log_entry" where
  "sample_entry term index \<equiv> \<lparr>le_term = term, le_index = index, le_command = Noop\<rparr>"

lemma length_enc_bytes: "length (enc_bytes bs) = Suc (2 * length bs)"
  by (induction bs) (simp_all add: enc_bytes_def)

lemma length_enc_small: "unat n < 10 \<Longrightarrow> length (enc_u64 n) = 41"
  by (simp add: enc_u64_def length_enc_bytes show_u64_20_def dec_digits.simps [of "unat n"])

lemmas sample_fits = log_fits_def max_payload_eq HEADER_LEN_def enc_entry_def length_enc_small

definition sample_log_entries :: "log_entry list" where
  "sample_log_entries = [sample_entry 1 1, sample_entry 1 2]"

definition sample_new_entries :: "log_entry list" where
  "sample_new_entries = [sample_entry 2 2, sample_entry 2 3]"

lemma sample_entries_fit:
  "log_fits sample_node 1 (map enc_entry sample_log_entries @ map enc_entry sample_new_entries)"
  "log_fits sample_node 1 (map enc_entry sample_log_entries)" "log_fits sample_node 1 []"
  "ser_entries sample_node es = map enc_entry es" "numbered_from 1 sample_log_entries"
proof -
  show a: "log_fits sample_node 1 (map enc_entry sample_log_entries @ map enc_entry sample_new_entries)"
    by (simp add: sample_log_entries_def sample_new_entries_def sample_fits)
  then show b: "log_fits sample_node 1 (map enc_entry sample_log_entries)" by (rule wl.fits_prefix)
  then show "log_fits sample_node 1 []" using wl.fits_prefix [of sample_node 1 "[]"] by simp
qed (simp_all add: ser_entries_def sample_node_def sample_log_entries_def)

lemma sample_follower:
  "at_rest sample_node 1 (map enc_entry sample_log_entries) (sample_core r h sample_log_entries, sample_disk sample_log_entries)"
  "last_log_index (sample_core r h sample_log_entries) = 2" "snap_index (sample_core r h sample_log_entries) = 0"
  "term_at (sample_core r h sample_log_entries) 1 = Some 1" "current_term (sample_core r h sample_log_entries) = hs_term h"
  using sample_at_rest(1) [OF sample_entries_fit(2,5)]
  by (simp_all add: sample_core_def last_log_index_def sample_log_entries_def default_meta_def term_at_def base_index_def get_nth_def current_term_def)

text \<open>C3. A message that fits is merged exactly as Raft prescribes: the reply is a success, and the follower's log is what the
  reference definition on lists makes of its old log and the leader's entries. The new log is in memory, in the write-ahead
  log and synced; the commit index advances to the leader's, but not past the log.\<close>

theorem append_entries_exact:
  assumes "at_rest X b recs (c, w)" and "codec (x_ser_hard X) (x_de_hard X) UNIV" and "codec (x_ser_entry X) (x_de_entry X) UNIV"
    and "current_term c \<le> ae_term args" and "ae_prev_log_index args \<le> last_log_index c"
    and "term_at c (ae_prev_log_index args) \<in> {None, Some (ae_prev_log_term args)}"
    and "numbered_from (Suc (unat (ae_prev_log_index args))) (ae_entries args)" and "log_fits X b (recs @ ser_entries X (ae_entries args))"
  shows "\<exists>c' w' recs'. handle_append_entries X args (c, w) = (Inr \<lparr>aer_term = ae_term args, aer_success = True, aer_conflict_index = 0\<rparr>, c', w') \<and>
     c_entries c' = spliced (snap_index c) (c_entries c) (Suc (unat (ae_prev_log_index args))) (ae_entries args) \<and>
     c_commit_index c' = new_commit (c_commit_index c) (ae_leader_commit args) (last_log_index c') \<and>
     core_log X b recs' (c', w') \<and> log_synced w' (c_log c')"
  using append_entries_run [OF assms] by blast

theorem append_entries_exact_witness:
  "\<exists>c' w' recs'. handle_append_entries sample_node \<lparr>ae_term = 5, ae_leader_id = 2, ae_prev_log_index = 1, ae_prev_log_term = 1, ae_entries = sample_new_entries, ae_leader_commit = 2\<rparr>
       (sample_core Follower \<lparr>hs_term = 4, hs_voted_for = None\<rparr> sample_log_entries, sample_disk sample_log_entries) =
       (Inr \<lparr>aer_term = 5, aer_success = True, aer_conflict_index = 0\<rparr>, c', w') \<and>
     c_entries c' = [sample_entry 1 1, sample_entry 2 2, sample_entry 2 3] \<and> c_commit_index c' = 2 \<and> core_log sample_node 1 recs' (c', w')"
proof -
  let ?args = "\<lparr>ae_term = 5, ae_leader_id = 2, ae_prev_log_index = 1, ae_prev_log_term = 1, ae_entries = sample_new_entries, ae_leader_commit = 2\<rparr>"
  let ?c = "sample_core Follower \<lparr>hs_term = 4, hs_voted_for = None\<rparr> sample_log_entries" and ?w = "sample_disk sample_log_entries"
  have "numbered_from (Suc (unat (1 :: u64))) sample_new_entries" by (simp add: sample_new_entries_def)
  then obtain c' w' recs' where c': "handle_append_entries sample_node ?args (?c, ?w) = (Inr \<lparr>aer_term = 5, aer_success = True, aer_conflict_index = 0\<rparr>, c', w')"
    "c_entries c' = spliced 0 (c_entries ?c) (Suc (Suc 0)) sample_new_entries" "c_commit_index c' = new_commit (c_commit_index ?c) 2 (last_log_index c')"
    "core_log sample_node 1 recs' (c', w')"
    using append_entries_exact [OF sample_follower(1) [of Follower "\<lparr>hs_term = 4, hs_voted_for = None\<rparr>"] sample_codecs(1,2), of ?args]
      sample_entries_fit(1,4) by (auto simp: sample_follower)
  have e: "c_entries c' = [sample_entry 1 1, sample_entry 2 2, sample_entry 2 3]"
    using c'(2) by (simp add: sample_core_def sample_log_entries_def sample_new_entries_def spliced_def Let_def)
  then have "c_commit_index c' = 2" using c'(3) by (simp add: new_commit_def last_log_index_def sample_core_def)
  then show ?thesis using c'(1,4) e by blast
qed

text \<open>C4. Suppose the leader still has every entry it is to send, that is, its snapshot ends before the peer's next index, and the message
  it builds for a follower in no later term meets that follower's log: the follower's log reaches the previous entry, and has there the
  term the message names, or has compacted that entry away. Then a follower with a synced log on a healthy disk accepts, and
  afterwards both logs have the same terms from the first entry of the message to the end of the leader's log, as far as the
  follower still has the entries.\<close>

theorem replication_agrees:
  assumes "at_rest X b recs (f, w)" and "codec (x_ser_hard X) (x_de_hard X) UNIV" and "codec (x_ser_entry X) (x_de_entry X) UNIV"
    and "log_wf l" and "c_next_index l peer = Some next" and "snap_index l < unat next" and "unat next \<le> Suc (unat (last_log_index l))"
    and "args = build_append_entries l peer" and "current_term f \<le> current_term l" and "ae_prev_log_index args \<le> last_log_index f"
    and "term_at f (ae_prev_log_index args) \<in> {None, Some (ae_prev_log_term args)}" and "log_fits X b (recs @ ser_entries X (ae_entries args))"
  shows "\<exists>r f' w'. handle_append_entries X args (f, w) = (Inr r, f', w') \<and> aer_success r \<and>
     (\<forall>i. next \<le> i \<and> snap_index f < unat i \<and> i \<le> last_log_index l \<longrightarrow> term_at f' i = term_at l i)"
proof -
  note b = build_facts [OF assms(4-7), folded assms(8)]
  have j: "Suc (unat (ae_prev_log_index args)) = unat next" using b(1) assms(6) by simp
  have t: "ae_term args = current_term l" by (simp add: assms(8) build_append_entries_def Let_def current_term_def)
  obtain f' w' recs' where f': "handle_append_entries X args (f, w) = (Inr \<lparr>aer_term = ae_term args, aer_success = True, aer_conflict_index = 0\<rparr>, f', w')"
    "c_entries f' = spliced (snap_index f) (c_entries f) (unat next) (ae_entries args)" "c_snapshot f' = c_snapshot f" "core_log X b recs' (f', w')"
    using append_entries_run [OF assms(1-3) _ assms(10,11) _ assms(12)] b(3) j t assms(9) by auto
  have wf: "log_wf f" "log_wf f'" using assms(1) core_log_wf f'(4) by (auto simp: at_rest_def)
  have "term_at f' i = term_at l i" if i: "next \<le> i" "snap_index f < unat i" "i \<le> last_log_index l" for i
  proof -
    have n: "unat next \<le> unat i" "unat i \<le> snap_index l + length (c_entries l)" using i unat_last_log_index [OF assms(4)] by (auto simp: word_le_nat_alt)
    have "unat next - Suc (snap_index f) \<le> length (c_entries f)" using assms(10) unat_last_log_index [OF wf(1)] j by (auto simp: word_le_nat_alt)
    moreover have "unat i < unat next + length (ae_entries args)" using n assms(6) b(2) by simp
    ultimately have s: "unat i - Suc (snap_index f) < length (c_entries f')"
      "le_term (c_entries f' ! (unat i - Suc (snap_index f))) = le_term (ae_entries args ! (unat i - unat next))"
      using spliced_nth [of "unat next" "snap_index f" "c_entries f" "unat i" "ae_entries args"] i(2) n(1) f'(2) by simp_all
    have "ae_entries args ! (unat i - unat next) = c_entries l ! (unat i - Suc (snap_index l))" using b(2) n assms(6) by simp
    moreover have "term_at f' i = Some (le_term (c_entries f' ! (unat i - Suc (snap_index f))))"
      using term_at_above [OF wf(2), of i] i(2) s(1) f'(3) by simp
    ultimately show ?thesis using term_at_above [OF assms(4), of i] n assms(6) s(2) by simp
  qed
  then show ?thesis using f'(1) by auto
qed

definition sample_leader :: raft_core where
  "sample_leader = (sample_core Leader \<lparr>hs_term = 5, hs_voted_for = Some 1\<rparr> (sample_entry 1 1 # sample_new_entries))\<lparr>c_next_index := [2 \<mapsto> 2]\<rparr>"

theorem replication_agrees_witness:
  "\<exists>r f' w'. handle_append_entries sample_node (build_append_entries sample_leader 2)
       (sample_core Follower \<lparr>hs_term = 4, hs_voted_for = None\<rparr> sample_log_entries, sample_disk sample_log_entries) = (Inr r, f', w') \<and>
     aer_success r \<and> term_at f' 3 = term_at sample_leader 3"
proof -
  let ?f = "sample_core Follower \<lparr>hs_term = 4, hs_voted_for = None\<rparr> sample_log_entries"
  let ?args = "build_append_entries sample_leader 2"
  have l: "log_wf sample_leader" "c_next_index sample_leader 2 = Some 2" "last_log_index sample_leader = 3" "snap_index sample_leader = 0" "current_term sample_leader = 5"
    by (simp_all add: sample_leader_def sample_core_def log_wf_def default_meta_def sample_new_entries_def last_log_index_def current_term_def)
  have a: "ae_prev_log_index ?args = 1" "ae_prev_log_term ?args = 1" "ae_entries ?args = sample_new_entries"
    by (simp_all add: build_append_entries_def Let_def or_default_def sample_leader_def sample_core_def saturating_sub_def term_at_def base_index_def
        default_meta_def get_nth_def entries_from_def)
  obtain r f' w' where "handle_append_entries sample_node ?args (?f, sample_disk sample_log_entries) = (Inr r, f', w')" "aer_success r"
    "\<forall>i. 2 \<le> i \<and> snap_index ?f < unat i \<and> i \<le> last_log_index sample_leader \<longrightarrow> term_at f' i = term_at sample_leader i"
    using replication_agrees [OF sample_follower(1) [of Follower "\<lparr>hs_term = 4, hs_voted_for = None\<rparr>"] sample_codecs(1,2) l(1,2) _ _ refl]
      sample_entries_fit(1,4) by (auto simp: sample_follower l a)
  then show ?thesis using l(3) by (auto simp: sample_follower)
qed

text \<open>C15. Backing off ends: every rejection moves the leader's next index for the peer down, whatever hint the peer sends, so after as
  many rejections as the index is large it stands at the first entry, and it never leaves the range of indices.\<close>

theorem backoff_terminates:
  assumes "c_role c = Leader" and "c_next_index c peer = Some next" and "0 < next" and "list_all (\<lambda>r. \<not> aer_success r) rs"
  shows "\<exists>c' next'. for_each rs (on_append_entries_reply peer sent) (c, w) = (Inr (), c', w) \<and> c_next_index c' peer = Some next' \<and>
     1 \<le> unat next' \<and> unat next' \<le> max 1 (unat next - length rs)"
  using assms
proof (induction rs arbitrary: c "next")
  case Nil
  then show ?case by (simp add: ret_def word_less_nat_alt)
next
  case (Cons r rs)
  obtain next1 where 1: "on_append_entries_reply peer sent r (c, w) = (Inr (), c\<lparr>c_next_index := (c_next_index c)(peer \<mapsto> next1)\<rparr>, w)"
    "0 < unat next1" "unat next1 \<le> max 1 (unat next - 1)"
    using reject_step [OF Cons.prems(1), of r peer sent w] Cons.prems(2,4) by (auto simp: or_default_def)
  from Cons.IH [of "c\<lparr>c_next_index := (c_next_index c)(peer \<mapsto> next1)\<rparr>" next1] obtain c' next' where
    "for_each rs (on_append_entries_reply peer sent) (c\<lparr>c_next_index := (c_next_index c)(peer \<mapsto> next1)\<rparr>, w) = (Inr (), c', w)"
    "c_next_index c' peer = Some next'" "1 \<le> unat next'" "unat next' \<le> max 1 (unat next1 - length rs)"
    using Cons.prems 1(2) by (auto simp: word_less_nat_alt)
  moreover from this(4) 1(3) have "unat next' \<le> max 1 (unat next - length (r # rs))" unfolding list.size by arith
  ultimately show ?case using 1(1) by (auto simp: andThen_def)
qed

theorem backoff_terminates_witness:
  "\<exists>c' next'. for_each [\<lparr>aer_term = 5, aer_success = False, aer_conflict_index = 9\<rparr>] (on_append_entries_reply 2 7) (sample_leader, empty_world [''d''] []) =
       (Inr (), c', empty_world [''d''] []) \<and> c_next_index c' 2 = Some next' \<and> 1 \<le> unat next' \<and> unat next' \<le> max 1 (unat (2 :: u64) - length [()])"
  using backoff_terminates [of sample_leader 2 2 "[\<lparr>aer_term = 5, aer_success = False, aer_conflict_index = 9\<rparr>]" 7 "empty_world [''d''] []"]
  by (simp add: sample_leader_def sample_core_def)

text \<open>C10. The commit rule: \<open>advance_commit_index\<close> never panics in a cluster of the size it was configured with. It looks at the
  greatest index that a quorum of nodes is known to have, and commits it exactly when it is new and its entry is of the current
  term; the commit index never moves back.\<close>

theorem commit_rule:
  assumes "c_cluster_size c = Suc (length (c_peers c))"
  shows "\<exists>N. on_quorum c N \<and> (\<forall>i. on_quorum c i \<longrightarrow> i \<le> N) \<and> advance_commit_index (c, w) =
     (Inr (), c\<lparr>c_commit_index := if c_commit_index c < N \<and> term_at c N = Some (current_term c) then N else c_commit_index c\<rparr>, w)"
  by (rule advance_commit_index_run [OF assms])

text \<open>Node 2 has the three entries of the leader, the last of them of term 2: the leader of term 2 commits them, the leader of term 5 does not.\<close>

definition acked_leader :: "u64 \<Rightarrow> raft_core" where
  "acked_leader t = sample_leader\<lparr>c_match_index := [2 \<mapsto> 3], c_hard := \<lparr>hs_term = t, hs_voted_for = Some 1\<rparr>\<rparr>"

theorem commit_rule_witness:
  "advance_commit_index (acked_leader 2, empty_world [''d''] []) = (Inr (), (acked_leader 2)\<lparr>c_commit_index := 3\<rparr>, empty_world [''d''] []) \<and>
   advance_commit_index (acked_leader 5, empty_world [''d''] []) = (Inr (), (acked_leader 5)\<lparr>c_commit_index := 0\<rparr>, empty_world [''d''] [])"
proof -
  have f: "c_commit_index (acked_leader t) = 0" "current_term (acked_leader t) = t" "term_at (acked_leader t) 3 = Some 2" for t
    by (simp_all add: acked_leader_def sample_leader_def sample_core_def current_term_def term_at_def base_index_def default_meta_def get_nth_def sample_new_entries_def)
  have m: "known_matches (acked_leader t) = [3, 3, 0]" "core_quorum (acked_leader t) = 2" for t
    by (simp_all add: known_matches_def acked_leader_def sample_leader_def sample_core_def last_log_index_def sample_new_entries_def or_default_def core_quorum_def)
  have q: "on_quorum (acked_leader t) i \<longleftrightarrow> i \<le> 3" for t i by (auto simp: on_quorum_def m)
  have run: "advance_commit_index (acked_leader t, empty_world [''d''] []) =
      (Inr (), (acked_leader t)\<lparr>c_commit_index := if 2 = t then 3 else 0\<rparr>, empty_world [''d''] [])" for t
  proof -
    have "c_cluster_size (acked_leader t) = Suc (length (c_peers (acked_leader t)))" by (simp add: acked_leader_def sample_leader_def sample_core_def)
    from commit_rule [OF this, of "empty_world [''d''] []"] obtain N where N: "N \<le> 3" "\<forall>i. i \<le> 3 \<longrightarrow> i \<le> N"
      "advance_commit_index (acked_leader t, empty_world [''d''] []) = (Inr (), (acked_leader t)\<lparr>c_commit_index :=
         if c_commit_index (acked_leader t) < N \<and> term_at (acked_leader t) N = Some (current_term (acked_leader t)) then N else c_commit_index (acked_leader t)\<rparr>, empty_world [''d''] [])"
      unfolding q by blast
    have "N = 3" using N(1,2) by (simp add: antisym)
    then show ?thesis using N(3) by (simp add: f)
  qed
  show ?thesis using run [of 2] run [of 5] by simp
qed

text \<open>C11. \<open>take_committed\<close> hands out every committed entry once and in order: the entries behind the last applied one up to the
  commit index or the end of the log, and it remembers how far it went.\<close>

theorem take_committed_exact:
  assumes "log_wf c" and "snap_index c \<le> unat (c_last_applied c)" and "c_last_applied c \<le> c_commit_index c" and "c_commit_index c \<le> last_log_index c"
  shows "take_committed c = (take (unat (c_commit_index c) - unat (c_last_applied c)) (drop (unat (c_last_applied c) - snap_index c) (c_entries c)),
     c\<lparr>c_last_applied := c_commit_index c\<rparr>)"
proof -
  have n: "unat (c_last_applied c) \<le> unat (c_commit_index c)" "unat (c_commit_index c) \<le> snap_index c + length (c_entries c)"
    using assms(3,4) unat_last_log_index [OF assms(1)] by (auto simp: word_le_nat_alt)
  let ?out = "take (unat (c_commit_index c) - unat (c_last_applied c)) (drop (unat (c_last_applied c) - snap_index c) (c_entries c))"
  have "length ?out = unat (c_commit_index c) - unat (c_last_applied c)" using n assms(2) by simp
  then have "c_last_applied c + of_nat (length ?out) = c_commit_index c"
    using n(1) by (simp add: of_nat_diff)
  then show ?thesis using take_committed_run [OF assms(1,2)] n by (simp add: Let_def)
qed

theorem take_committed_exact_witness:
  "take_committed (sample_leader\<lparr>c_last_applied := 1, c_commit_index := 2\<rparr>) = ([sample_entry 2 2], sample_leader\<lparr>c_last_applied := 2, c_commit_index := 2\<rparr>)"
  using take_committed_exact [of "sample_leader\<lparr>c_last_applied := 1, c_commit_index := 2\<rparr>"]
  by (simp add: sample_leader_def sample_core_def log_wf_def default_meta_def sample_new_entries_def last_log_index_def)








end
