(* ===== verification/Raft_Invariants.thy ===== *)
theory Raft_Invariants
  imports Raft_Append Raft_Votes
begin

text \<open>
  The log of a node is well formed whatever fails: entries are numbered consecutively behind the snapshot. Appending and
  merging keep this on every path, errors included. Two operations do not: compaction, when the write-ahead log cannot be cut,
  and a message of a leader whose own log starts behind the follower's end. The last part ties the log to the table the node
  serves reads from.
\<close>

section \<open>Well-formed logs\<close>

lemma wp_on_log_any:
  "(\<And>x l' w'. Q x (c\<lparr>c_log := l'\<rparr>, w')) \<Longrightarrow> (\<And>e l' w'. E e (c\<lparr>c_log := l'\<rparr>, w')) \<Longrightarrow> wp (on_log m) Q E (c, w)"
  by (auto simp: wp_def on_log_def zoom_def split: prod.splits sum.splits)

lemma log_wf_cong: "c_entries c' = c_entries c \<Longrightarrow> c_snapshot c' = c_snapshot c \<Longrightarrow> log_wf c' = log_wf c"
  by (simp add: log_wf_def)

lemma log_wf_snoc:
  assumes "log_wf c" and "unat (le_index e) = Suc (snap_index c + length (c_entries c))" and "unat (le_index e) + 1 < u64_bound"
    and "c_entries c' = c_entries c @ [e]" and "c_snapshot c' = c_snapshot c"
  shows "log_wf c'"
  using assms by (simp add: log_wf_def)

lemma log_wf_take: "log_wf c \<Longrightarrow> c_entries c' = take n (c_entries c) \<Longrightarrow> c_snapshot c' = c_snapshot c \<Longrightarrow> log_wf c'"
  by (auto simp: log_wf_def numbered_from_take)

text \<open>The position the next entry of a message has to have: inside the log, or right behind it.\<close>

definition expects :: "snapshot_meta \<Rightarrow> nat \<Rightarrow> raft_core \<times> world \<Rightarrow> bool" where
  "expects m j = (\<lambda>(c, w). log_wf c \<and> c_snapshot c = m \<and> j \<le> Suc (snap_index c + length (c_entries c)))"

lemma wp_append_replicated:
  assumes "log_wf c" and "unat (le_index e) = Suc (snap_index c + length (c_entries c))" and "unat (le_index e) + 1 < u64_bound"
  shows "wp (append_replicated X e) (\<lambda>_. expects (c_snapshot c) (Suc (unat (le_index e)))) (\<lambda>_ (c', w'). log_wf c' \<and> c_snapshot c' = c_snapshot c) (c, w)"
proof (cases "x_ser_entry X e")
  case (Some p)
  have "log_wf (c\<lparr>c_log := l', c_entries := c_entries c @ [e]\<rparr>)" for l' by (rule log_wf_snoc [OF assms]) simp_all
  moreover have "log_wf (c\<lparr>c_log := l'\<rparr>)" for l' using assms(1) by (simp add: log_wf_def)
  ultimately have "wp (on_log (log_append X p)) (\<lambda>_ (c', w'). expects (c_snapshot c) (Suc (unat (le_index e))) (c'\<lparr>c_entries := c_entries c' @ [e]\<rparr>, w'))
      (\<lambda>_ (c', w'). log_wf c' \<and> c_snapshot c' = c_snapshot c) (c, w)"
    using assms(2) by (intro wp_on_log_any) (simp_all add: expects_def)
  then show ?thesis by (simp add: append_replicated_def Some) (elim wp_conseq; auto)
qed (use assms(1) in \<open>simp add: append_replicated_def\<close>)

lemma wp_splice_entry:
  assumes "expects m j (c, w)" and "unat (le_index e) = j" and "j + 1 < u64_bound"
  shows "wp (splice_entry X e) (\<lambda>_. expects m (Suc j)) (\<lambda>_ (c', w'). log_wf c' \<and> c_snapshot c' = m) (c, w)"
proof -
  let ?s = "snap_index c" and ?es = "c_entries c" and ?i = "le_index e"
  have a: "log_wf c" "c_snapshot c = m" "j \<le> Suc (?s + length ?es)" using assms(1) by (auto simp: expects_def)
  have base: "?i < base_index c \<longleftrightarrow> j \<le> ?s" using unat_base_index [OF a(1)] assms(2) by (auto simp: word_less_nat_alt)
  consider (below) "j \<le> ?s" | (inside) "?s < j" "j \<le> ?s + length ?es" | (new) "?s < j" "j = Suc (?s + length ?es)" using a(3) by linarith
  then show ?thesis
  proof cases
    case below
    then show ?thesis using base a by (simp add: splice_entry_def expects_def)
  next
    case new
    then have "term_at c ?i = None" using term_at_entry [OF a(1)] entry_at_nth [OF a(1)] assms(2) by auto
    then show ?thesis using new base wp_append_replicated [OF a(1), of e X w] assms(2,3) a(2) by (simp add: splice_entry_def)
  next
    case inside
    then obtain t where t: "term_at c ?i = Some t" using term_at_above [OF a(1), of ?i] assms(2) by auto
    let ?c1 = "\<lambda>l. c\<lparr>c_entries := take (j - Suc ?s) ?es, c_log := l\<rparr>"
    have f: "filter (\<lambda>e. le_index e < ?i) ?es = take (j - Suc ?s) ?es" using filter_below a(1) assms(2) by (auto simp: log_wf_def)
    have wf: "log_wf (?c1 l)" for l by (rule log_wf_take [OF a(1)]) simp_all
    have len: "Suc (snap_index (?c1 l) + length (c_entries (?c1 l))) = j" for l using inside by (simp add: min_def)
    let ?E = "\<lambda>(_ :: error) (c', w' :: world). log_wf c' \<and> c_snapshot c' = m"
    have again: "wp (append_replicated X e) (\<lambda>_. expects m (Suc j)) ?E (?c1 l, w')" for l w'
      using wp_append_replicated [OF wf, of e l X w'] len [of l] assms(2,3) a(2) by simp
    have "wp (on_log (log_truncate_suffix X i)) (\<lambda>_. wp (append_replicated X e) (\<lambda>_. expects m (Suc j)) ?E) ?E (c\<lparr>c_entries := take (j - Suc ?s) ?es\<rparr>, w)" for i
      by (rule wp_on_log_any) (use again wf a(2) in simp_all)
    then have "wp (andThen (truncate_from X ?i) (\<lambda>_. append_replicated X e)) (\<lambda>_. expects m (Suc j)) ?E (c, w)"
      using a(2) f by (simp add: truncate_from_def)
    moreover have "expects m (Suc j) (c, w)" using a inside by (simp add: expects_def)
    ultimately show ?thesis using inside base t by (simp add: splice_entry_def)
  qed
qed

lemma wp_splice_entries:
  "expects m j (c, w) \<Longrightarrow> numbered_from j es \<Longrightarrow> j + length es < u64_bound \<Longrightarrow>
   wp (for_each es (splice_entry X)) (\<lambda>_ (c', w'). log_wf c' \<and> c_snapshot c' = m) (\<lambda>_ (c', w'). log_wf c' \<and> c_snapshot c' = m) (c, w)"
proof (induction es arbitrary: j c w)
  case Nil
  then show ?case by (simp add: expects_def)
next
  case (Cons e es)
  have "wp (splice_entry X e) (\<lambda>_. expects m (Suc j)) (\<lambda>_ (c', w'). log_wf c' \<and> c_snapshot c' = m) (c, w)"
    using Cons.prems by (intro wp_splice_entry) simp_all
  then show ?case
    unfolding for_each.simps wp_andThen by (rule wp_conseq) (use Cons in auto)
qed

subsection \<open>All operations of the core\<close>

text \<open>Operations that leave the entries and the snapshot alone.\<close>

definition log_part :: "log_entry list \<Rightarrow> snapshot_meta \<Rightarrow> raft_core \<times> world \<Rightarrow> bool" where
  "log_part es m = (\<lambda>(c, w). c_entries c = es \<and> c_snapshot c = m)"

lemma log_part_upd:
  "(\<And>c. c_entries (f c) = c_entries c \<and> c_snapshot (f c) = c_snapshot c) \<Longrightarrow> preserves (log_part es m) (upd_core f) anything"
  by (rule preserves_modify) (auto simp: log_part_def)

lemma log_part_outside: "preserves (log_part es m) (outside k) anything"
  by (auto simp: preserves_def log_part_def outside_def split: prod.splits)

lemma log_part_on_log: "preserves (log_part es m) (on_log k) anything"
  by (auto simp: preserves_def log_part_def on_log_def zoom_def split: prod.splits)

lemma log_part_timer: "preserves (log_part es m) (reset_election_timer X) anything"
  unfolding reset_election_timer_def
  by (intro preserves_read preserves_prod preserves_andThen_anything log_part_outside log_part_upd) simp

lemma log_part_become_follower: "preserves (log_part es m) (become_follower X term leader) anything"
  unfolding become_follower_def persist_hard_def
  by (intro preserves_read preserves_prod preserves_andThen_anything preserves_if preserves_ret TrueI log_part_outside log_part_upd) simp_all

lemma log_part_become_candidate: "preserves (log_part es m) (become_candidate X) anything"
  unfolding become_candidate_def persist_hard_def
  by (intro preserves_read preserves_prod preserves_andThen_anything preserves_ret TrueI log_part_outside log_part_upd log_part_timer) simp_all

lemma log_part_request_vote: "preserves (log_part es m) (handle_request_vote X args) anything"
  unfolding handle_request_vote_def persist_hard_def Let_def
  by (intro preserves_read preserves_prod preserves_andThen_anything preserves_if preserves_ret TrueI log_part_outside log_part_upd log_part_timer
      log_part_become_follower) simp_all

lemma log_part_advance: "preserves (log_part es m) advance_commit_index anything"
  unfolding advance_commit_index_def Let_def
  by (intro preserves_read preserves_prod preserves_option preserves_throw log_part_upd) simp

lemma log_part_reply: "preserves (log_part es m) (on_append_entries_reply peer sent reply) anything"
  unfolding on_append_entries_reply_def Let_def
  by (intro preserves_read preserves_prod preserves_if preserves_ret TrueI preserves_andThen_anything log_part_upd log_part_advance) simp_all

lemma log_part_wf: "preserves (log_part (c_entries c) (c_snapshot c)) k R \<Longrightarrow> log_wf c \<Longrightarrow> log_wf (fst (snd (k (c, w))))"
  using run_inv [of "log_part (c_entries c) (c_snapshot c)" k R "(c, w)"] by (auto simp: log_part_def log_wf_def split: prod.splits)

text \<open>A message as a leader with a well-formed log builds it.\<close>

definition args_wf :: "append_entries_args \<Rightarrow> bool" where
  "args_wf args \<longleftrightarrow> numbered_from (Suc (unat (ae_prev_log_index args))) (ae_entries args) \<and>
     Suc (unat (ae_prev_log_index args)) + length (ae_entries args) < u64_bound"

lemma build_args_wf:
  assumes "log_wf l" and "c_next_index l peer = Some next" and "snap_index l < unat next" and "unat next \<le> Suc (unat (last_log_index l))"
  shows "args_wf (build_append_entries l peer)"
  using build_facts [OF assms] assms(1,3,4) unat_last_log_index [OF assms(1)] by (simp add: args_wf_def log_wf_def)

lemma wp_read: "wp (f s) Q E s \<Longrightarrow> wp (andThen get_st f) Q E s"
  by simp

lemma wp_ifI: "(b \<Longrightarrow> wp m Q E s) \<Longrightarrow> (\<not> b \<Longrightarrow> wp m' Q E s) \<Longrightarrow> wp (if b then m else m') Q E s"
  by simp

lemma wp_after:
  assumes "preserves P m anything" and "P s" and "\<And>c w. P (c, w) \<Longrightarrow> wp k Q E (c, w)" and "\<And>e c w. P (c, w) \<Longrightarrow> E e (c, w)"
  shows "wp (andThen m (\<lambda>_. k)) Q E s"
  unfolding wp_andThen by (rule wp_conseq [OF preserves_wp [OF assms(1,2)]]) (use assms(3,4) in auto)

lemma wp_append_entries_wf:
  assumes "log_wf c" and "args_wf args"
  shows "wp (handle_append_entries X args) (\<lambda>_ (c', w'). log_wf c' \<and> c_snapshot c' = c_snapshot c) (\<lambda>_ (c', w'). log_wf c' \<and> c_snapshot c' = c_snapshot c) (c, w)"
    (is "wp _ (\<lambda>_. ?G) (\<lambda>_. ?G) _")
proof -
  let ?P = "log_part (c_entries c) (c_snapshot c)"
  have part: "?G s" if "?P s" for s using that assms(1) by (auto simp: log_part_def log_wf_def)
  then have part': "log_wf c1 \<and> c_snapshot c1 = c_snapshot c" if "?P (c1, w1)" for c1 w1 using that by fastforce
  have sync: "preserves ?G core_sync anything" by (auto simp: preserves_def core_sync_def on_log_def zoom_def log_wf_def split: prod.splits)
  have loop: "wp (for_each (ae_entries args) (splice_entry X)) (\<lambda>_. ?G) (\<lambda>_. ?G) (c1, w1)"
    if "?P (c1, w1)" "ae_prev_log_index args \<le> last_log_index c1" for c1 w1
  proof -
    have wf: "log_wf c1" "c_snapshot c1 = c_snapshot c" using part [OF that(1)] by auto
    have "expects (c_snapshot c) (Suc (unat (ae_prev_log_index args))) (c1, w1)"
      using wf that(2) unat_last_log_index [OF wf(1)] by (simp add: expects_def word_le_nat_alt)
    then show ?thesis by (rule wp_splice_entries) (use assms(2) in \<open>simp_all add: args_wf_def\<close>)
  qed
  have body: "wp (andThen (for_each (ae_entries args) (splice_entry X)) (\<lambda>_. k)) (\<lambda>_. ?G) (\<lambda>_. ?G) (c1, w1)"
    if "?P (c1, w1)" "ae_prev_log_index args \<le> last_log_index c1" "\<And>c2 w2. ?G (c2, w2) \<Longrightarrow> wp k (\<lambda>_. ?G) (\<lambda>_. ?G) (c2, w2)" for c1 w1 and k :: "append_entries_reply core_io"
    unfolding wp_andThen by (rule wp_conseq [OF loop [OF that(1,2)]]) (use that(3) in auto)
  have adopt: "preserves ?P (if b then become_follower X t l else upd_core (\<lambda>c. c\<lparr>c_role := Follower, c_leader_id := l'\<rparr>)) anything" for b t l l'
    by (intro preserves_if log_part_become_follower log_part_upd) simp
  show ?thesis
    unfolding handle_append_entries_def
    apply (rule wp_read, simp only: split_conv, rule wp_ifI)
    subgoal using assms(1) by simp
    apply (rule wp_after [OF adopt])
    subgoal by (simp add: log_part_def)
    apply (rule wp_after [OF log_part_timer], assumption)
    apply (rule wp_read, simp only: split_conv, rule wp_ifI)
    subgoal for c1 w1 c2 w2 using part' [of c2 w2] by simp
    apply (rule wp_ifI)
    subgoal for c1 w1 c2 w2 using part' [of c2 w2] by simp
    apply (rule body, assumption)
    subgoal by simp
    apply (rule wp_after [OF sync], assumption)
    subgoal by (auto simp: log_wf_def)
    using part' by blast+
qed

lemma append_command_wf:
  assumes "log_wf c" and "snap_index c + length (c_entries c) + 2 < u64_bound"
  shows "wp (append_command X command) (\<lambda>_ (c', w'). log_wf c') (\<lambda>_ (c', w'). log_wf c') (c, w)"
proof (cases "c_role c = Leader")
  case True
  let ?e = "\<lparr>le_term = hs_term (c_hard c), le_index = last_log_index c + 1, le_command = command\<rparr>"
  have i: "unat (le_index ?e) = Suc (snap_index c + length (c_entries c))" using unat_next_index [OF assms(1)] by simp
  have grown: "log_wf (c\<lparr>c_log := l', c_entries := c_entries c @ [?e]\<rparr>)" for l'
    by (rule log_wf_snoc [OF assms(1) i]) (use i assms(2) in simp_all)
  have same: "log_wf (c\<lparr>c_log := l'\<rparr>)" for l' using assms(1) by (simp add: log_wf_def)
  have "wp (on_log (log_append X p)) (\<lambda>_ (c', w'). log_wf (c'\<lparr>c_entries := c_entries c' @ [?e]\<rparr>)) (\<lambda>_ (c', w'). log_wf c') (c, w)" for p
    using grown same by (intro wp_on_log_any) simp_all
  then have "wp (on_log (log_append X p)) (\<lambda>_. wp (andThen (upd_core (\<lambda>c. c\<lparr>c_entries := c_entries c @ [?e]\<rparr>)) (\<lambda>_. ret ?e))
      (\<lambda>_ (c', w'). log_wf c') (\<lambda>_ (c', w'). log_wf c')) (\<lambda>_ (c', w'). log_wf c') (c, w)" for p
    by (rule wp_conseq) auto
  then show ?thesis
    using True assms(1) by (auto simp: append_command_def Let_def split: option.splits)
qed (use assms(1) in \<open>simp add: append_command_def\<close>)

lemma wp_snd: "wp m (\<lambda>_. P) (\<lambda>_. P) s \<Longrightarrow> P (snd (m s))"
  by (auto simp: wp_def split: prod.splits sum.splits)

text \<open>Compaction up to an entry of the log.\<close>

lemma compact_drop:
  assumes "log_wf c"
  shows "filter (\<lambda>e. sm_index meta < le_index e) (c_entries c) = drop (unat (sm_index meta) - snap_index c) (c_entries c)"
  using filter_above [of "Suc (snap_index c)" "c_entries c" "sm_index meta"] assms by (simp add: log_wf_def)

lemma compact_cases:
  assumes "compact meta (c, w) = (r, c', w')" and "sm_index (c_snapshot c) < sm_index meta" and "log_wf c"
  obtains l where "c' = c\<lparr>c_entries := drop (unat (sm_index meta) - snap_index c) (c_entries c), c_log := l,
    c_snapshot := (case r of Inl _ \<Rightarrow> c_snapshot c | Inr _ \<Rightarrow> meta)\<rparr>"
proof -
  have new: "\<not> sm_index meta \<le> sm_index (c_snapshot c)" using assms(2) by simp
  obtain q l w1 where t: "log_truncate_prefix (sm_index meta + 1) (c_log c, w) = (q, l, w1)" by (cases "log_truncate_prefix (sm_index meta + 1) (c_log c, w)") auto
  have "compact meta (c, w) = (q, c\<lparr>c_entries := drop (unat (sm_index meta) - snap_index c) (c_entries c), c_log := l,
      c_snapshot := (case q of Inl _ \<Rightarrow> c_snapshot c | Inr _ \<Rightarrow> meta)\<rparr>, w1)"
    unfolding compact_def andThen_get_st split_conv if_not_P [OF new] using t
    by (cases q) (simp_all add: andThen_def modify_def on_log_def zoom_def compact_drop [OF assms(3)])
  then show ?thesis using assms(1) by (intro that [of l]) simp
qed

lemma compact_wf:
  assumes "compact meta (c, w) = (Inr (), c', w')" and "log_wf c" and "sm_index meta \<le> last_log_index c"
  shows "log_wf c'"
proof (cases "sm_index (c_snapshot c) < sm_index meta")
  case True
  from compact_cases [OF assms(1) this assms(2)] obtain l where
    c': "c' = c\<lparr>c_entries := drop (unat (sm_index meta) - snap_index c) (c_entries c), c_log := l, c_snapshot := meta\<rparr>" by auto
  have le: "snap_index c < unat (sm_index meta)" "unat (sm_index meta) \<le> snap_index c + length (c_entries c)"
    using True assms(3) unat_last_log_index [OF assms(2)] by (simp_all add: word_less_nat_alt word_le_nat_alt)
  then show ?thesis
    using assms(2) numbered_from_drop [of "Suc (snap_index c)" "c_entries c" "unat (sm_index meta) - snap_index c"] by (simp add: c' log_wf_def)
next
  case False
  then have "c' = c" using assms(1) by (simp add: compact_def andThen_def get_st_def ret_def not_less)
  then show ?thesis using assms(2) by simp
qed

text \<open>
  Every operation of the core, with any disk and any outcome. Compaction is the only one that has to succeed; messages are numbered
  consecutively, and there is room for one more index when a command is appended.
\<close>

inductive core_step :: "('x) ext_node_scheme \<Rightarrow> raft_core \<times> world \<Rightarrow> raft_core \<times> world \<Rightarrow> bool" for X where
  step_append: "snap_index c + length (c_entries c) + 2 < u64_bound \<Longrightarrow> core_step X (c, w) (snd (append_command X command (c, w)))"
| step_merge: "args_wf args \<Longrightarrow> core_step X s (snd (handle_append_entries X args s))"
| step_vote: "core_step X s (snd (handle_request_vote X vargs s))"
| step_candidate: "core_step X s (snd (become_candidate X s))"
| step_follower: "core_step X s (snd (become_follower X term leader s))"
| step_leader: "core_step X (c, w) (become_leader c, w)"
| step_sync: "core_step X s (snd (core_sync s))"
| step_reply: "core_step X s (snd (on_append_entries_reply peer sent reply s))"
| step_advance: "core_step X s (snd (advance_commit_index s))"
| step_take: "core_step X (c, w) (snd (take_committed c), w)"
| step_lease: "core_step X (c, w) (renew_lease now c, w)"
| step_compact: "compact meta (c, w) = (Inr (), s') \<Longrightarrow> sm_index meta \<le> last_log_index c \<Longrightarrow> core_step X (c, w) s'"

lemma core_step_wf: "core_step X s s' \<Longrightarrow> log_wf (fst s) \<Longrightarrow> log_wf (fst s')"
proof (induction rule: core_step.induct)
  case (step_append c w command)
  then show ?case using wp_snd [of "append_command X command" "\<lambda>(c, w). log_wf c"] append_command_wf [of c X command w] by (simp add: case_prod_beta)
next
  case (step_merge args s)
  then show ?case
    using wp_snd [of "handle_append_entries X args" "\<lambda>(c', w'). log_wf c' \<and> c_snapshot c' = c_snapshot (fst s)"] wp_append_entries_wf [of "fst s" args X "snd s"]
    by (simp add: case_prod_beta)
next
  case (step_take c w)
  then show ?case using take_committed_keeps [of c] by (cases "take_committed c") (auto simp: log_wf_def)
next
  case (step_compact meta c w s')
  then show ?case using compact_wf [of meta c w] by (cases s') auto
next
  case (step_leader c w)
  then show ?case by (simp add: log_wf_def become_leader_def Let_def)
next
  case (step_lease c w now)
  then show ?case by (simp add: log_wf_def renew_lease_def)
qed (auto simp: core_sync_def intro: log_part_wf [OF log_part_request_vote] log_part_wf [OF log_part_become_candidate]
    log_part_wf [OF log_part_become_follower] log_part_wf [OF log_part_on_log] log_part_wf [OF log_part_reply] log_part_wf [OF log_part_advance])

section \<open>Entries behind a gap\<close>

lemma term_at_beyond:
  assumes "Suc (snap_index f) < u64_bound" and "Suc (snap_index f + length (c_entries f)) \<le> unat i"
  shows "\<not> i < base_index f" and "term_at f i = None"
proof -
  have b: "unat (base_index f) = Suc (snap_index f)" using assms(1) by (simp add: base_index_def unat_u64_Suc)
  then have "base_index f \<le> i" using assms(2) by (simp add: word_le_nat_alt)
  moreover have "unat (i - base_index f) = unat i - Suc (snap_index f)" using \<open>base_index f \<le> i\<close> b by (simp add: unat_u64_diff)
  moreover have "i \<noteq> sm_index (c_snapshot f)" using assms(2) by auto
  ultimately show "\<not> i < base_index f" "term_at f i = None" using assms(2) by (auto simp: term_at_def get_nth_def)
qed

text \<open>Entries that do not join the log are appended to it all the same.\<close>

lemma gap_run:
  assumes "log_holds X w (c_log f) b recs" and "w_clean w" and "codec (x_ser_entry X) (x_de_entry X) UNIV" and "log_fits X b (recs @ ser_entries X es)"
    and "Suc (snap_index f) < u64_bound" and "numbered_from j es" and "Suc (snap_index f + length (c_entries f)) \<le> j"
  shows "\<exists>l' w' recs'. for_each es (splice_entry X) (f, w) = (Inr (), f\<lparr>c_log := l', c_entries := c_entries f @ es\<rparr>, w') \<and> w_clean w' \<and> log_holds X w' l' b recs'"
  using assms
proof (induction es arbitrary: f w j recs)
  case Nil
  then show ?case by (intro exI [of _ "c_log f"] exI [of _ w] exI [of _ recs]) (simp add: ret_def)
next
  case (Cons e es)
  obtain p where p: "x_ser_entry X e = Some p" using Cons.prems(3) by (auto elim: codecE)
  have fits: "log_fits X b ((recs @ [p]) @ ser_entries X es)" using Cons.prems(4) p by simp
  from wl.append_law [OF Cons.prems(1,2) wl.fits_prefix [OF fits]] obtain l1 w1 i where
    1: "log_append X p (c_log f, w) = (Inr i, l1, w1)" "log_holds X w1 l1 b (recs @ [p])" "w_clean w1" by blast
  let ?f1 = "f\<lparr>c_log := l1, c_entries := c_entries f @ [e]\<rparr>"
  have "splice_entry X e (f, w) = (Inr (), ?f1, w1)"
    using term_at_beyond [OF Cons.prems(5), of "le_index e"] Cons.prems(6,7) p on_log_run [of "log_append X p" f w, OF 1(1)]
    by (simp add: splice_entry_def append_replicated_def get_st_def andThen_def modify_def)
  moreover have "\<exists>l' w' recs'. for_each es (splice_entry X) (?f1, w1) = (Inr (), ?f1\<lparr>c_log := l', c_entries := c_entries ?f1 @ es\<rparr>, w') \<and> w_clean w' \<and>
      log_holds X w' l' b recs'"
    using Cons.prems 1 fits by (intro Cons.IH [where j = "Suc j"]) auto
  ultimately show ?case by (auto simp: andThen_def)
qed

lemma last_log_term_at: "log_wf c \<Longrightarrow> term_at c (last_log_index c) = Some (last_log_term c)"
  using term_at_above [of c "last_log_index c"] unat_last_log_index [of c]
  by (cases "c_entries c = []") (auto simp: last_log_term_def last_log_index_def term_at_def last_conv_nth)

lemma snapshot_message:
  assumes "log_wf l" and "c_next_index l peer = Some next" and "0 < next" and "unat next \<le> snap_index l"
  shows "build_append_entries l peer = \<lparr>ae_term = current_term l, ae_leader_id = c_id l, ae_prev_log_index = next - 1,
     ae_prev_log_term = sm_term (c_snapshot l), ae_entries = c_entries l, ae_leader_commit = c_commit_index l\<rparr>" and "unat (next - 1) = unat next - 1"
proof -
  have n: "saturating_sub next 1 = next - 1" "unat (next - 1) = unat next - 1"
    using assms(3) by (auto simp: saturating_sub_def unat_u64_diff word_le_nat_alt word_less_nat_alt)
  have "next - 1 \<noteq> sm_index (c_snapshot l)" using n(2) assms(3,4) by (auto simp: word_less_nat_alt)
  moreover have "next < base_index l" "next - 1 < base_index l" using unat_base_index [OF assms(1)] assms(4) n(2) by (auto simp: word_less_nat_alt)
  ultimately show "build_append_entries l peer = \<lparr>ae_term = current_term l, ae_leader_id = c_id l, ae_prev_log_index = next - 1,
     ae_prev_log_term = sm_term (c_snapshot l), ae_entries = c_entries l, ae_leader_commit = c_commit_index l\<rparr>"
    using assms(2) n(1) by (simp add: build_append_entries_def Let_def or_default_def term_at_def entries_from_def current_term_def)
  show "unat (next - 1) = unat next - 1" by (rule n(2))
qed

section \<open>Properties\<close>

text \<open>C8. The log of a node stays well formed through any sequence of the core's operations: entries are numbered consecutively behind the
  snapshot, and a lookup finds the entry of the index asked for. The operations may fail at any point with part of their work
  done, except compaction, which must have succeeded, up to an index of the log. An \<open>AppendEntries\<close> message must be numbered
  consecutively from the entry after its previous one, as those of a leader are that has not compacted past the peer's next index,
  and no index may reach the end of \<open>u64\<close>.\<close>

theorem log_stays_well_formed:
  assumes "(core_step X)\<^sup>*\<^sup>* s s'" and "log_wf (fst s)"
  shows "log_wf (fst s') \<and> (\<forall>i e. entry_at (fst s') i = Some e \<longrightarrow> le_index e = i)"
proof -
  have "log_wf (fst s')" using assms by (induction rule: rtranclp_induct) (auto intro: core_step_wf)
  then show ?thesis using entry_at_index by blast
qed

theorem log_stays_well_formed_witness:
  "let s = (sample_core Leader \<lparr>hs_term = 4, hs_voted_for = None\<rparr> sample_log_entries, empty_world [''d''] [Fail 0]);
       s' = snd (append_command sample_node Noop s)
   in log_wf (fst s') \<and> (\<forall>i e. entry_at (fst s') i = Some e \<longrightarrow> le_index e = i)"
proof -
  let ?c = "sample_core Leader \<lparr>hs_term = 4, hs_voted_for = None\<rparr> sample_log_entries" and ?w = "empty_world [''d''] [Fail 0]"
  have c: "log_wf ?c" "snap_index ?c + length (c_entries ?c) + 2 < u64_bound" by (simp_all add: log_wf_def sample_core_def default_meta_def sample_log_entries_def)
  have "(core_step sample_node)\<^sup>*\<^sup>* (?c, ?w) (snd (append_command sample_node Noop (?c, ?w)))"
    using step_append [OF c(2), of sample_node ?w Noop] by blast
  from log_stays_well_formed [OF this] c(1) show ?thesis by (simp add: Let_def)
qed

text \<open>C20. When cutting the write-ahead log fails, compaction has already dropped the entries in memory but keeps the old snapshot as their
  base: from then on every lookup that finds an entry finds one of a higher index than the one asked for.\<close>

theorem compact_failure:
  assumes "log_wf c" and "sm_index (c_snapshot c) < sm_index meta" and "sm_index meta < last_log_index c" and "compact meta (c, w) = (Inl e, c', w')"
  shows "c_snapshot c' = c_snapshot c \<and> \<not> log_wf c' \<and>
     (\<forall>i x. entry_at c' i = Some x \<longrightarrow> unat (le_index x) = unat i + (unat (sm_index meta) - snap_index c))"
proof -
  let ?d = "unat (sm_index meta) - snap_index c"
  from compact_cases [OF assms(4,2,1)] obtain l where c': "c' = c\<lparr>c_entries := drop ?d (c_entries c), c_log := l\<rparr>" by auto
  have d: "0 < ?d" "?d < length (c_entries c)"
    using assms(2,3) unat_last_log_index [OF assms(1)] by (simp_all add: word_less_nat_alt)
  have num: "unat (le_index (drop ?d (c_entries c) ! k)) = Suc (snap_index c) + k + ?d" if "k < length (c_entries c) - ?d" for k
    using log_wf_nth [OF assms(1), of "?d + k"] that by simp
  have "unat (le_index x) = unat i + ?d" if "entry_at c' i = Some x" for i x
    using that num [of "unat i - Suc (snap_index c)"] unat_base_index [OF assms(1)]
    by (auto simp: c' entry_at_def base_index_def get_nth_def not_less word_le_nat_alt unat_u64_diff split: if_splits)
  moreover have "\<not> log_wf c'"
  proof
    assume "log_wf c'"
    then have "unat (le_index (drop ?d (c_entries c) ! 0)) = Suc (snap_index c)" using log_wf_nth [of c' 0] d by (simp add: c' del: nth_drop)
    then show False using num [of 0] d by (simp del: nth_drop)
  qed
  ultimately show ?thesis by (simp add: c')
qed

text \<open>A write-ahead log of two segments, the first of which cannot be removed.\<close>

definition sample_segment :: "string \<Rightarrow> u64 \<Rightarrow> u64 \<Rightarrow> segment" where
  "sample_segment name base n = \<lparr>seg_base_index = base, seg_path = [''d'', ''wal'', name], seg_writer = bufw_new 0, seg_bytes = 0, seg_count = n\<rparr>"

definition sample_compacted :: raft_core where
  "sample_compacted = (sample_core Follower \<lparr>hs_term = 4, hs_voted_for = None\<rparr> [sample_entry 1 1, sample_entry 1 2, sample_entry 1 3])
     \<lparr>c_log := \<lparr>log_dir = [''d'', ''wal''], max_segment_bytes = 64, segments = [sample_segment ''a'' 1 2, sample_segment ''b'' 3 1], log_first_index = 1, log_last_index = 3\<rparr>\<rparr>"

theorem compact_failure_witness:
  "\<exists>e c' w'. compact \<lparr>sm_index = 2, sm_term = 1\<rparr> (sample_compacted, empty_world [''d''] []) = (Inl e, c', w') \<and> entry_at c' 1 = Some (sample_entry 1 3) \<and>
     \<not> log_wf c' \<and> (\<forall>i x. entry_at c' i = Some x \<longrightarrow> unat (le_index x) = unat i + 2)"
proof -
  let ?m = "\<lparr>sm_index = 2, sm_term = 1\<rparr> :: snapshot_meta"
  obtain r c' w' where r: "compact ?m (sample_compacted, empty_world [''d''] []) = (r, c', w')" by (cases "compact ?m (sample_compacted, empty_world [''d''] [])") auto
  have fail: "\<exists>e. r = Inl e" "entry_at c' 1 = Some (sample_entry 1 3)"
    using r by (auto simp: compact_def andThen_def get_st_def modify_def on_log_def zoom_def log_truncate_prefix_def shift_segments.simps sample_compacted_def
        sample_core_def default_meta_def sample_segment_def segment_remove_def remove_file_def syscall_def pop_event_def empty_world_def entry_at_def base_index_def get_nth_def)
  then obtain e where e: "r = Inl e" by blast
  have c: "log_wf sample_compacted" "sm_index (c_snapshot sample_compacted) < sm_index ?m" "sm_index ?m < last_log_index sample_compacted" "snap_index sample_compacted = 0"
    by (simp_all add: sample_compacted_def sample_core_def log_wf_def default_meta_def last_log_index_def)
  from compact_failure [OF c(1-3) r [unfolded e]] show ?thesis using r e fail(2) c(4) by simp
qed

text \<open>C18. A leader that has compacted past what a follower has sends its whole log, without the snapshot, claiming the snapshot's term for the
  entry before. A follower whose last entry has that term accepts: it appends the entries behind its own although they do not join,
  reports success, and from then on has the leader's first entry in the place of the one it was missing.\<close>

theorem snapshot_gap:
  assumes "at_rest X b recs (f, w)" and "codec (x_ser_hard X) (x_de_hard X) UNIV" and "codec (x_ser_entry X) (x_de_entry X) UNIV"
    and "log_wf l" and "c_next_index l peer = Some next" and "next = last_log_index f + 1" and "unat next \<le> snap_index l" and "c_entries l \<noteq> []"
    and "current_term f \<le> current_term l" and "last_log_term f = sm_term (c_snapshot l)" and "log_fits X b (recs @ ser_entries X (c_entries l))"
  shows "\<exists>r f' w'. handle_append_entries X (build_append_entries l peer) (f, w) = (Inr r, f', w') \<and> aer_success r \<and>
     c_entries f' = c_entries f @ c_entries l \<and> entry_at f' next = Some (hd (c_entries l)) \<and> next < le_index (hd (c_entries l)) \<and> \<not> log_wf f'"
proof -
  obtain args where args: "args = build_append_entries l peer" by simp
  have wf: "log_wf f" using assms(1) core_log_wf by (auto simp: at_rest_def)
  have nx: "unat next = Suc (snap_index f + length (c_entries f))" using unat_next_index [OF wf] assms(6) by simp
  then have "0 < next" by (simp add: word_less_nat_alt)
  note m = snapshot_message [OF assms(4,5) this assms(7), folded args]
  have a: "ae_term args = current_term l" "ae_prev_log_index args = last_log_index f" "ae_prev_log_term args = last_log_term f" "ae_entries args = c_entries l"
    using m(1) assms(6,10) by simp_all
  obtain f1 w1 where 1: "andThen (adopt_leader X args f) (\<lambda>_. reset_election_timer X) (f, w) = (Inr (), f1, w1)" "w_clean w1" "core_log X b recs (f1, w1)"
    "c_entries f1 = c_entries f" "c_snapshot f1 = c_snapshot f" "current_term f1 = current_term l"
    using adopt_leader_run [OF assms(1,2), of args] assms(9) a(1) by auto
  have num: "numbered_from (Suc (snap_index l)) (c_entries l)" using assms(4) by (simp add: log_wf_def)
  have room: "Suc (snap_index f1) < u64_bound" using wf 1(5) by (simp add: log_wf_def)
  have hold: "log_holds X w1 (c_log f1) b recs" using 1(3) by (simp add: core_log_def)
  from gap_run [OF hold 1(2) assms(3,11) room num] obtain l2 w2 recs' where
    2: "for_each (c_entries l) (splice_entry X) (f1, w1) = (Inr (), f1\<lparr>c_log := l2, c_entries := c_entries f @ c_entries l\<rparr>, w2)" "w_clean w2" "log_holds X w2 l2 b recs'"
    using nx assms(7) 1(4,5) by auto
  from wl.sync_law [OF 2(3,2)] obtain l3 w3 where 3: "log_sync (l2, w2) = (Inr (), l3, w3)" by blast
  let ?f3 = "f1\<lparr>c_log := l3, c_entries := c_entries f @ c_entries l\<rparr>"
  have body: "andThen (for_each (ae_entries args) (splice_entry X)) (\<lambda>_. core_sync) (f1, w1) = (Inr (), ?f3, w3)"
    using 2(1) on_log_run [of log_sync "f1\<lparr>c_log := l2, c_entries := c_entries f @ c_entries l\<rparr>" w2] 3 by (simp add: andThen_def core_sync_def a(4))
  have at: "last_log_index f1 = last_log_index f" "term_at f1 (last_log_index f) = Some (last_log_term f)"
    unfolding last_log_term_at [OF wf, symmetric] using 1(4,5) by (simp_all add: last_log_index_def term_at_def base_index_def)
  let ?f4 = "if c_commit_index ?f3 < ae_leader_commit args then ?f3\<lparr>c_commit_index := min (ae_leader_commit args) (last_log_index ?f3)\<rparr> else ?f3"
  have "\<not> ae_term args < hs_term (c_hard f)" "\<not> last_log_index f1 < ae_prev_log_index args" "hs_term (c_hard f1) = ae_term args"
    "term_at f1 (ae_prev_log_index args) = Some (ae_prev_log_term args)" using assms(9) 1(6) at a by (simp_all add: current_term_def)
  then have run: "handle_append_entries X args (f, w) = (Inr \<lparr>aer_term = ae_term args, aer_success = True, aer_conflict_index = 0\<rparr>, ?f4, w3)"
    by (simp add: handle_append_entries_def andThen_get_st andThen_pair [OF 1(1) [unfolded adopt_leader_def]] andThen_pair [OF body] andThen_modify ret_def)
  have f4: "c_entries ?f4 = c_entries f @ c_entries l" "c_snapshot ?f4 = c_snapshot f" using 1(5) by simp_all
  have hd: "unat (le_index (hd (c_entries l))) = Suc (snap_index l)" using num assms(8) by (cases "c_entries l") simp_all
  have "entry_at ?f4 next = Some (hd (c_entries l))"
    using f4 nx assms(8) unat_base_index [OF wf]
    by (simp add: entry_at_def base_index_def get_nth_def not_less word_less_nat_alt unat_u64_diff word_le_nat_alt nth_append hd_conv_nth)
  moreover have "next < le_index (hd (c_entries l))" using hd assms(7) by (simp add: word_less_nat_alt)
  moreover have "\<not> log_wf ?f4" using entry_at_index calculation by blast
  ultimately show ?thesis using run f4(1) unfolding args by auto
qed

theorem snapshot_gap_witness:
  "let f = sample_core Follower \<lparr>hs_term = 4, hs_voted_for = None\<rparr> sample_log_entries;
       l = (sample_core Leader \<lparr>hs_term = 5, hs_voted_for = Some 1\<rparr> [sample_entry 5 6])\<lparr>c_snapshot := \<lparr>sm_index = 5, sm_term = 1\<rparr>, c_next_index := [2 \<mapsto> 3]\<rparr>
   in \<exists>r f' w'. handle_append_entries sample_node (build_append_entries l 2) (f, sample_disk sample_log_entries) = (Inr r, f', w') \<and> aer_success r \<and>
     entry_at f' 3 = Some (sample_entry 5 6)"
proof -
  let ?f = "sample_core Follower \<lparr>hs_term = 4, hs_voted_for = None\<rparr> sample_log_entries"
  let ?l = "(sample_core Leader \<lparr>hs_term = 5, hs_voted_for = Some 1\<rparr> [sample_entry 5 6])\<lparr>c_snapshot := \<lparr>sm_index = 5, sm_term = 1\<rparr>, c_next_index := [2 \<mapsto> 3]\<rparr>"
  have l: "log_wf ?l" "c_next_index ?l 2 = Some 3" "unat (3 :: u64) \<le> snap_index ?l" "c_entries ?l \<noteq> []" "current_term ?f \<le> current_term ?l"
    "last_log_term ?f = sm_term (c_snapshot ?l)" "(3 :: u64) = last_log_index ?f + 1"
    by (simp_all add: sample_core_def log_wf_def current_term_def last_log_term_def last_log_index_def sample_log_entries_def)
  have fits: "log_fits sample_node 1 (map enc_entry sample_log_entries @ ser_entries sample_node (c_entries ?l))"
    by (simp add: sample_core_def ser_entries_def sample_node_def sample_log_entries_def sample_fits)
  from snapshot_gap [OF sample_follower(1) sample_codecs(1,2) l(1,2,7,3-6) fits] show ?thesis by (auto simp: Let_def sample_core_def)
qed

end
