(* ===== verification/Rpc_Service.thy ===== *)
theory Rpc_Service
  imports Raft_Driver
begin

text \<open>
  The services, \<^verbatim>\<open>src/rpc/service.rs\<close>: the client interface, the consensus interface, the outbound transport, and the
  conversions between messages on the wire and the core's structures.
\<close>

section \<open>Model\<close>

subsection \<open>Conversions\<close>

record pb_log_entry =
  pbe_term :: u64
  pbe_index :: u64
  pbe_command :: bytes

record pb_append_request =
  pba_term :: u64
  pba_leader_id :: u64
  pba_prev_log_index :: u64
  pba_prev_log_term :: u64
  pba_entries :: "pb_log_entry list"
  pba_leader_commit :: u64

definition entry_to_pb :: "('x) ext_node_scheme \<Rightarrow> log_entry \<Rightarrow> error + pb_log_entry" where
  "entry_to_pb X e = (case x_ser_command X (le_command e) of None \<Rightarrow> Inl Encode
     | Some bytes \<Rightarrow> Inr \<lparr>pbe_term = le_term e, pbe_index = le_index e, pbe_command = bytes\<rparr>)"

definition entry_from_pb :: "('x) ext_node_scheme \<Rightarrow> pb_log_entry \<Rightarrow> error + log_entry" where
  "entry_from_pb X p = (case x_de_command X (pbe_command p) of None \<Rightarrow> Inl Encode
     | Some command \<Rightarrow> Inr \<lparr>le_term = pbe_term p, le_index = pbe_index p, le_command = command\<rparr>)"

text \<open>A loop that pushes converted elements and returns at the first error.\<close>

fun convert_all :: "('a \<Rightarrow> error + 'b) \<Rightarrow> 'a list \<Rightarrow> error + 'b list" where
  "convert_all f [] = Inr []"
| "convert_all f (x # xs) = (case f x of Inl e \<Rightarrow> Inl e | Inr y \<Rightarrow> (case convert_all f xs of Inl e \<Rightarrow> Inl e | Inr ys \<Rightarrow> Inr (y # ys)))"

datatype rpc_status = FailedPrecondition string | Internal error | InternalMsg string | DeadlineExceeded string

definition status :: "error \<Rightarrow> rpc_status" where
  "status e = (case e of Raft msg \<Rightarrow> FailedPrecondition msg | other \<Rightarrow> Internal other)"

definition starts_with :: "string \<Rightarrow> string \<Rightarrow> bool" where
  "starts_with p s \<longleftrightarrow> take (length p) s = p"

definition normalize_url :: "string \<Rightarrow> string" where
  "normalize_url addr = (if starts_with ''http://'' addr \<or> starts_with ''https://'' addr then addr else ''http://'' @ addr)"

subsection \<open>The consensus service\<close>

text \<open>Errors of the core become statuses.\<close>

definition with_status :: "(error, 's, 'a) prog \<Rightarrow> (rpc_status, 's, 'a) prog" where
  "with_status m s = (case m s of (Inl e, s') \<Rightarrow> (Inl (status e), s') | (Inr x, s') \<Rightarrow> (Inr x, s'))"

definition service_request_vote :: "('x) ext_node_scheme \<Rightarrow> request_vote_args \<Rightarrow> (rpc_status, node \<times> world, request_vote_reply) prog" where
  "service_request_vote X r = with_status (on_core (handle_request_vote X r))"

definition service_append_entries :: "('x) ext_node_scheme \<Rightarrow> pb_append_request \<Rightarrow> (rpc_status, node \<times> world, append_entries_reply) prog" where
  "service_append_entries X r = with_status (
     andThen (lift_sum (convert_all (entry_from_pb X) (pba_entries r))) (\<lambda>entries.
     on_core (handle_append_entries X \<lparr>ae_term = pba_term r, ae_leader_id = pba_leader_id r, ae_prev_log_index = pba_prev_log_index r,
       ae_prev_log_term = pba_prev_log_term r, ae_entries = entries, ae_leader_commit = pba_leader_commit r\<rparr>)))"

subsection \<open>The transport\<close>

record 'ch peer_transport =
  pt_addrs :: "u64 \<Rightarrow> string option"
  pt_clients :: "u64 \<Rightarrow> 'ch option"

definition transport_new :: "peer list \<Rightarrow> 'ch peer_transport" where
  "transport_new peers = \<lparr>pt_addrs = fold (\<lambda>p m. m(peer_id p \<mapsto> normalize_url (peer_addr p))) peers Map.empty, pt_clients = Map.empty\<rparr>"

text \<open>Parsing the address and connecting are outside code.\<close>

definition transport_client :: "(string \<Rightarrow> string + 'ep) \<Rightarrow> ('ep \<Rightarrow> string + 'ch) \<Rightarrow> u64 \<Rightarrow> (error, 'ch peer_transport, 'ch) prog" where
  "transport_client from_shared connect to t = (case pt_clients t to of
     Some client \<Rightarrow> (Inr client, t)
   | None \<Rightarrow> (case pt_addrs t to of
       None \<Rightarrow> (Inl (Transport (''unknown peer id '' @ show_u64 to)), t)
     | Some url \<Rightarrow> (case from_shared url of
         Inl e \<Rightarrow> (Inl (Transport e), t)
       | Inr endpoint \<Rightarrow> (case connect endpoint of
           Inl e \<Rightarrow> (Inl (Transport e), t)
         | Inr client \<Rightarrow> (Inr client, t\<lparr>pt_clients := (pt_clients t)(to \<mapsto> client)\<rparr>)))))"

definition transport_request_vote :: "(string \<Rightarrow> string + 'ep) \<Rightarrow> ('ep \<Rightarrow> string + 'ch) \<Rightarrow> ('ch \<Rightarrow> request_vote_args \<Rightarrow> string + request_vote_reply) \<Rightarrow>
    u64 \<Rightarrow> request_vote_args \<Rightarrow> (error, 'ch peer_transport, request_vote_reply) prog" where
  "transport_request_vote from_shared connect call to args =
     andThen (transport_client from_shared connect to) (\<lambda>client.
     case call client args of Inl e \<Rightarrow> throw (Transport e) | Inr resp \<Rightarrow> ret resp)"

definition transport_append_entries :: "('x) ext_node_scheme \<Rightarrow> (string \<Rightarrow> string + 'ep) \<Rightarrow> ('ep \<Rightarrow> string + 'ch) \<Rightarrow>
    ('ch \<Rightarrow> pb_append_request \<Rightarrow> string + append_entries_reply) \<Rightarrow> u64 \<Rightarrow> append_entries_args \<Rightarrow> (error, 'ch peer_transport, append_entries_reply) prog" where
  "transport_append_entries X from_shared connect call to args =
     andThen (transport_client from_shared connect to) (\<lambda>client.
     andThen (lift_sum (convert_all (entry_to_pb X) (ae_entries args))) (\<lambda>entries.
     case call client \<lparr>pba_term = ae_term args, pba_leader_id = ae_leader_id args, pba_prev_log_index = ae_prev_log_index args,
       pba_prev_log_term = ae_prev_log_term args, pba_entries = entries, pba_leader_commit = ae_leader_commit args\<rparr>
     of Inl e \<Rightarrow> throw (Transport e) | Inr resp \<Rightarrow> ret resp))"

subsection \<open>The client service\<close>

datatype wait_event = Changed u64 | Closed | TimedOut

text \<open>
  Waiting for the commit index: the value in the channel, then what happens to it. \<open>None\<close> means that the wait goes on.
\<close>

fun wait_for_commit :: "u64 \<Rightarrow> u64 \<Rightarrow> wait_event list \<Rightarrow> (rpc_status + unit) option" where
  "wait_for_commit v index evs = (if index \<le> v then Some (Inr ()) else
     case evs of [] \<Rightarrow> None
     | Changed v' # evs' \<Rightarrow> wait_for_commit v' index evs'
     | Closed # _ \<Rightarrow> Some (Inl (InternalMsg ''commit channel closed''))
     | TimedOut # _ \<Rightarrow> Some (Inl (DeadlineExceeded ''timed out waiting for commit'')))"

declare wait_for_commit.simps [simp del]

record get_response =
  gr_found :: bool
  gr_value :: bytes
  gr_leader_hint :: u64

text \<open>The core is asked first, then the store; others may run in between.\<close>

definition kv_get :: "bytes \<Rightarrow> others \<Rightarrow> get_response node_io" where
  "kv_get key other =
     andThen (ask_core (\<lambda>c. (is_leader c, or_default 0 (c_leader_id c)))) (\<lambda>(leader, leader_hint).
     if \<not> leader then ret \<lparr>gr_found = False, gr_value = [], gr_leader_hint = leader_hint\<rparr> else
     andThen (modify other) (\<lambda>_.
     andThen get_st (\<lambda>(n, _).
     ret (case store_get (n_store n) key of
       Some v \<Rightarrow> \<lparr>gr_found = True, gr_value = v, gr_leader_hint = leader_hint\<rparr>
     | None \<Rightarrow> \<lparr>gr_found = False, gr_value = [], gr_leader_hint = leader_hint\<rparr>))))"

record write_schedule =
  ws_sends :: "send_event list"
  ws_other1 :: others
  ws_other2 :: others
  ws_waits :: "wait_event list"

text \<open>\<open>put\<close> and \<open>delete\<close>: propose, then wait; \<open>None\<close> while the wait goes on.\<close>

definition kv_write :: "('x) ext_node_scheme \<Rightarrow> command \<Rightarrow> write_schedule \<Rightarrow> node \<times> world \<Rightarrow> (rpc_status + u64) option \<times> node \<times> world" where
  "kv_write X command t s = (case propose X command (ws_sends t) (ws_other1 t) (ws_other2 t) s of
     (Inl e, s') \<Rightarrow> (Some (Inl (status e)), s')
   | (Inr index, (n, w)) \<Rightarrow> (map_option (\<lambda>r. case r of Inl e \<Rightarrow> Inl e | Inr _ \<Rightarrow> Inr index) (wait_for_commit (n_commit n) index (ws_waits t)), n, w))"

definition kv_put :: "('x) ext_node_scheme \<Rightarrow> bytes \<Rightarrow> bytes \<Rightarrow> write_schedule \<Rightarrow> node \<times> world \<Rightarrow> (rpc_status + u64) option \<times> node \<times> world" where
  "kv_put X key val = kv_write X (Put key val)"

definition kv_delete :: "('x) ext_node_scheme \<Rightarrow> bytes \<Rightarrow> write_schedule \<Rightarrow> node \<times> world \<Rightarrow> (rpc_status + u64) option \<times> node \<times> world" where
  "kv_delete X key = kv_write X (Delete key)"

section \<open>The way of a message\<close>

lemma convert_all_map:
  "(\<And>x. \<exists>y. f x = Inr y \<and> g y = Inr x) \<Longrightarrow> \<exists>ys. convert_all f xs = Inr ys \<and> convert_all g ys = Inr xs"
proof (induction xs)
  case (Cons x xs)
  then obtain y ys where "f x = Inr y" "g y = Inr x" "convert_all f xs = Inr ys" "convert_all g ys = Inr xs" by metis
  then show ?case by (intro exI [of _ "y # ys"]) simp
qed simp

lemma entry_wire:
  assumes "codec (x_ser_command X) (x_de_command X) UNIV"
  shows "\<exists>p. entry_to_pb X e = Inr p \<and> entry_from_pb X p = Inr e"
proof -
  obtain bs where "x_ser_command X (le_command e) = Some bs" "x_de_command X bs = Some (le_command e)" using assms by (auto elim: codecE)
  then show ?thesis by (simp add: entry_to_pb_def entry_from_pb_def)
qed

section \<open>Properties\<close>

text \<open>C34. A message arrives as it was sent: for every \<open>AppendEntries\<close> message the transport makes a request that the service on the other side
  turns back into the very message for its core, and the transport returns the answer it gets. The client is kept:
  asking again for the same peer gives the same client whatever connecting would yield by then, even if it would fail.\<close>

theorem append_entries_wire:
  fixes from_shared from_shared2 :: "string \<Rightarrow> string + 'ep" and connect connect2 :: "'ep \<Rightarrow> string + 'ch"
  assumes "codec (x_ser_command X) (x_de_command X) UNIV" and "transport_client from_shared connect peer t = (Inr client, t')"
  shows "\<exists>r. transport_append_entries X from_shared connect call peer args t = (case call client r of Inl e \<Rightarrow> (Inl (Transport e), t') | Inr resp \<Rightarrow> (Inr resp, t')) \<and>
     service_append_entries X r s = with_status (on_core (handle_append_entries X args)) s \<and>
     transport_client from_shared2 connect2 peer t' = (Inr client, t')"
proof -
  obtain es where es: "convert_all (entry_to_pb X) (ae_entries args) = Inr es" "convert_all (entry_from_pb X) es = Inr (ae_entries args)"
    using convert_all_map [of "entry_to_pb X" "entry_from_pb X", OF entry_wire [OF assms(1)]] by blast
  let ?r = "\<lparr>pba_term = ae_term args, pba_leader_id = ae_leader_id args, pba_prev_log_index = ae_prev_log_index args,
       pba_prev_log_term = ae_prev_log_term args, pba_entries = es, pba_leader_commit = ae_leader_commit args\<rparr>"
  have "transport_append_entries X from_shared connect call peer args t = (case call client ?r of Inl e \<Rightarrow> (Inl (Transport e), t') | Inr resp \<Rightarrow> (Inr resp, t'))"
    using assms(2) es(1) by (simp add: transport_append_entries_def andThen_def lift_sum_def throw_def ret_def split: sum.splits)
  moreover have "service_append_entries X ?r s = with_status (on_core (handle_append_entries X args)) s"
    using es(2) by (cases args) (simp add: service_append_entries_def with_status_def andThen_def lift_sum_def)
  moreover have "transport_client from_shared2 connect2 peer t' = (Inr client, t')"
    using assms(2) by (auto simp: transport_client_def split: option.splits sum.splits)
  ultimately show ?thesis by blast
qed

theorem append_entries_wire_witness:
  "let t = transport_new [\<lparr>peer_id = 2, peer_addr = ''b:1''\<rparr>] :: string peer_transport;
       args = \<lparr>ae_term = 1, ae_leader_id = 1, ae_prev_log_index = 0, ae_prev_log_term = 0, ae_entries = [\<lparr>le_term = 1, le_index = 1, le_command = Put [7] [8]\<rparr>], ae_leader_commit = 0\<rparr>;
       reply = \<lparr>aer_term = 1, aer_success = True, aer_conflict_index = 0\<rparr>
   in \<exists>t'. transport_append_entries sample_node Inr Inr (\<lambda>_ _. Inr reply) 2 args t = (Inr reply, t') \<and>
     transport_client Inr (\<lambda>_. Inl ''refused'') 2 t' = (Inr ''http://b:1'', t')"
proof -
  let ?t = "transport_new [\<lparr>peer_id = 2, peer_addr = ''b:1''\<rparr>] :: string peer_transport"
  obtain t' where t': "transport_client Inr Inr 2 ?t = (Inr ''http://b:1'', t')"
    by (simp add: transport_client_def transport_new_def normalize_url_def starts_with_def)
  show ?thesis
    using append_entries_wire [OF sample_codecs(4) t', of "\<lambda>_ _. Inr \<lparr>aer_term = 1, aer_success = True, aer_conflict_index = 0\<rparr>" _ _ Inr "\<lambda>_. Inl ''refused''"] by (auto simp: Let_def)
qed

end
