(* ===== verification/Raft_Apply.thy ===== *)
theory Raft_Apply
  imports Raft_Invariants Rpc_Service
begin

text \<open>
  From the log to the table: applying committed entries makes the store the state machine's map of the committed prefix, and what
  goes wrong when two tasks apply at once or when a proposal is replaced while its client waits.
\<close>

section \<open>The history of a node\<close>

text \<open>
  \<open>hist\<close> is the log from its first entry on, with the entries compaction has dropped. The table is what the applied entries make of an
  empty one.
\<close>

definition applied :: "node \<Rightarrow> nat" where
  "applied n = unat (c_last_applied (n_core n))"

definition committed :: "node \<Rightarrow> nat" where
  "committed n = unat (c_commit_index (n_core n))"

definition table_of :: "log_entry list \<Rightarrow> memtable" where
  "table_of es = apply_from 1 (map le_command es) memtable_new"

definition serves :: "log_entry list \<Rightarrow> node \<Rightarrow> bool" where
  "serves hist n \<longleftrightarrow> numbered_from 1 hist \<and> length hist + 1 < u64_bound \<and> committed n \<le> length hist \<and> snap_index (n_core n) \<le> applied n \<and>
     applied n \<le> length hist \<and> c_entries (n_core n) = drop (snap_index (n_core n)) hist \<and> st_memtable (n_store n) = table_of (take (applied n) hist)"

text \<open>The part of it that is about the log.\<close>

definition log_of :: "log_entry list \<Rightarrow> raft_core \<Rightarrow> bool" where
  "log_of hist c \<longleftrightarrow> numbered_from 1 hist \<and> length hist + 1 < u64_bound \<and> unat (c_commit_index c) \<le> length hist \<and>
     snap_index c \<le> unat (c_last_applied c) \<and> unat (c_last_applied c) \<le> length hist \<and> c_entries c = drop (snap_index c) hist"

lemma serves_iff: "serves hist n \<longleftrightarrow> log_of hist (n_core n) \<and> st_memtable (n_store n) = table_of (take (applied n) hist)"
  by (auto simp: serves_def log_of_def applied_def committed_def)

text \<open>
  What other tasks may do while one task applies: vote, change role, extend the log or replace entries in it, commit, compact. They
  do not apply entries themselves, that is, they leave the store and the index of the last applied entry alone, and they leave the
  applied entries as they are.
\<close>

definition calm :: "others \<Rightarrow> bool" where
  "calm other \<longleftrightarrow> (\<forall>hist n w n' w'. log_of hist (n_core n) \<and> other (n, w) = (n', w') \<longrightarrow>
     n_store n' = n_store n \<and> c_last_applied (n_core n') = c_last_applied (n_core n) \<and>
     (\<exists>hist'. log_of hist' (n_core n') \<and> take (applied n) hist' = take (applied n) hist))"

lemma calmD:
  assumes "calm other" and "log_of hist (n_core n)" and "other (n, w) = (n', w')"
  obtains hist' where "n_store n' = n_store n" and "c_last_applied (n_core n') = c_last_applied (n_core n)" and "log_of hist' (n_core n')"
    and "take (applied n) hist' = take (applied n) hist"
  using assms unfolding calm_def by blast

lemma calm_id [simp]: "calm id"
  by (auto simp: calm_def)

lemma serves_calm:
  assumes "serves hist n" and "calm other" and "other (n, w) = (n', w')"
  obtains hist' where "serves hist' n'" and "applied n' = applied n" and "take (applied n) hist' = take (applied n) hist"
proof -
  have log: "log_of hist (n_core n)" and table: "st_memtable (n_store n) = table_of (take (applied n) hist)" using assms(1) by (simp_all add: serves_iff)
  obtain hist' where h: "n_store n' = n_store n" "c_last_applied (n_core n') = c_last_applied (n_core n)" "log_of hist' (n_core n')"
    "take (applied n) hist' = take (applied n) hist" by (rule calmD [OF assms(2) log assms(3)])
  then show ?thesis using that [of hist'] table by (simp add: serves_iff applied_def)
qed

lemma serves_wf: "serves hist n \<Longrightarrow> log_wf (n_core n)"
  using numbered_from_drop [of 1 hist "snap_index (n_core n)"] by (auto simp: serves_def log_wf_def min_def)

lemma table_of_facts:
  assumes "length es + 1 < u64_bound"
  shows "unat (mt_last_applied (table_of es)) = length es" and "memtable_get (table_of es) = fold exec (map le_command es) Map.empty"
proof -
  have "memtable_get memtable_new = Map.empty" by (simp add: memtable_get_def memtable_new_def fun_eq_iff)
  then show "unat (mt_last_applied (table_of es)) = length es" "memtable_get (table_of es) = fold exec (map le_command es) Map.empty"
    using apply_from_run [of memtable_new 1 "map le_command es"] assms by (auto simp: table_of_def memtable_new_def)
qed

lemma apply_entries_run:
  "numbered_from b es \<Longrightarrow> apply_entries es s = s\<lparr>st_memtable := apply_from b (map le_command es) (st_memtable s)\<rparr>"
proof (induction es arbitrary: b s)
  case (Cons e es)
  then have "of_nat b = le_index e" by auto
  then show ?case using Cons.IH [of "Suc b" "store_apply (le_index e) (le_command e) s"] Cons.prems by (simp add: apply_entries_def store_apply_def)
qed (simp add: apply_entries_def)

lemma apply_entries_table:
  assumes "numbered_from 1 hist" and "a + n \<le> length hist" and "st_memtable s = table_of (take a hist)"
  shows "apply_entries (take n (drop a hist)) s = s\<lparr>st_memtable := table_of (take (a + n) hist)\<rparr>"
proof -
  have "numbered_from (Suc a) (take n (drop a hist))"
    using numbered_from_take [OF numbered_from_drop [OF assms(1), of a]] assms(2) by (simp add: min_def split: if_splits)
  from apply_entries_run [OF this, of s] show ?thesis
    using assms(2,3) by (simp add: table_of_def take_add apply_from_append)
qed

lemma take_committed_serves:
  assumes "serves hist n"
  shows "take_committed (n_core n) = (take (committed n - applied n) (drop (applied n) hist),
     (n_core n)\<lparr>c_last_applied := of_nat (max (applied n) (committed n))\<rparr>)"
proof -
  let ?c = "n_core n"
  have s: "snap_index ?c \<le> applied n" "applied n \<le> length hist" "committed n \<le> length hist" "c_entries ?c = drop (snap_index ?c) hist"
    using assms by (simp_all add: serves_def)
  have len: "length (take (committed n - applied n) (drop (applied n) hist)) = committed n - applied n" using s by simp
  have "c_last_applied ?c + of_nat (committed n - applied n) = of_nat (applied n + (committed n - applied n))" by (simp add: applied_def)
  moreover have "applied n + (committed n - applied n) = max (applied n) (committed n)" by simp
  ultimately have "c_last_applied ?c + of_nat (committed n - applied n) = of_nat (max (applied n) (committed n))" by simp
  then show ?thesis
    using take_committed_run [OF serves_wf [OF assms]] s len by (simp add: Let_def applied_def committed_def)
qed

section \<open>Applying\<close>

lemma wp_any: "(\<And>x s'. Q x s') \<Longrightarrow> (\<And>e s'. E e s') \<Longrightarrow> wp m Q E s"
  by (auto simp: wp_def split: prod.splits sum.splits)

lemma wp_ask_core: "wp (andThen (ask_core f) g) Q E (n, w) = wp (g (f (n_core n))) Q E (n, w)"
  by (simp add: ask_core_def)

lemma wp_store_snapshot:
  "wp (store_snapshot X t) (\<lambda>m (s', w'). m = \<lparr>sm_index = mt_last_applied (st_memtable s), sm_term = t\<rparr> \<and> s' = s\<lparr>st_last_snapshot := m\<rparr>) (\<lambda>_ (s', w'). s' = s) (s, w)"
  unfolding store_snapshot_def by (rule wp_read) (simp add: Let_def wp_any)

text \<open>A snapshot of the table and the compaction of the log leave the node serving the same history.\<close>

lemma compact_serves:
  assumes "serves hist n" and "sm_index meta = c_last_applied (n_core n)" and "compact meta (n_core n, w) = (Inr (), c', w')"
  shows "serves hist (n\<lparr>n_core := c'\<rparr>) \<and> c_last_applied c' = c_last_applied (n_core n)"
proof (cases "sm_index (c_snapshot (n_core n)) < sm_index meta")
  case True
  from compact_cases [OF assms(3) True serves_wf [OF assms(1)]] obtain l where
    c': "c' = (n_core n)\<lparr>c_entries := drop (unat (sm_index meta) - snap_index (n_core n)) (c_entries (n_core n)), c_log := l, c_snapshot := meta\<rparr>" by auto
  have "snap_index (n_core n) \<le> applied n" "c_entries (n_core n) = drop (snap_index (n_core n)) hist" using assms(1) by (simp_all add: serves_def)
  then have "c_entries c' = drop (applied n) hist" using assms(2) by (simp add: c' applied_def)
  then show ?thesis using assms(1,2) by (simp add: serves_def c' applied_def committed_def)
next
  case False
  then have "c' = n_core n" using assms(3) by (simp add: compact_def andThen_def get_st_def ret_def not_less)
  then show ?thesis using assms(1) by simp
qed

lemma wp_compact_serves:
  assumes "serves hist n" and "sm_index meta = c_last_applied (n_core n)"
  shows "wp (on_core (compact meta)) (\<lambda>_ (n', w'). serves hist n' \<and> applied n' = applied n) (\<lambda>_ (n', w'). n_store n' = n_store n) (n, w)"
proof -
  obtain r c' w' where "compact meta (n_core n, w) = (r, c', w')" by (cases "compact meta (n_core n, w)") auto
  then show ?thesis using compact_serves [OF assms] by (cases r) (auto simp: on_core_def wp_def zoom_def applied_def)
qed

lemma apply_start:
  assumes "serves hist n" and out_def: "out = take (committed n - applied n) (drop (applied n) hist)"
    and n1_def: "n1 = n\<lparr>n_core := (n_core n)\<lparr>c_last_applied := of_nat (max (applied n) (committed n))\<rparr>, n_store := apply_entries out (n_store n)\<rparr>"
  shows "serves hist n1" and "applied n1 = max (applied n) (committed n)"
proof -
  have h: "numbered_from 1 hist" "length hist + 1 < u64_bound" "committed n \<le> length hist" "applied n \<le> length hist"
    "st_memtable (n_store n) = table_of (take (applied n) hist)" using assms(1) by (simp_all add: serves_def)
  show a: "applied n1 = max (applied n) (committed n)" using h(2-4) by (simp add: n1_def applied_def u64_unat_of_nat)
  have le: "applied n + (committed n - applied n) \<le> length hist" "applied n + (committed n - applied n) = max (applied n) (committed n)" using h(3,4) by auto
  have "n_store n1 = (n_store n)\<lparr>st_memtable := table_of (take (max (applied n) (committed n)) hist)\<rparr>"
    using apply_entries_table [OF h(1) le(1) h(5)] le(2) by (simp add: n1_def out_def)
  moreover have "n_core n1 = (n_core n)\<lparr>c_last_applied := of_nat (max (applied n) (committed n))\<rparr>" by (simp add: n1_def)
  ultimately show "serves hist n1" using assms(1) a by (auto simp: serves_def committed_def)
qed

lemma serves_table:
  assumes "serves hist n"
  shows "st_memtable (n_store n) = table_of (take (applied n) hist)" and "mt_last_applied (st_memtable (n_store n)) = c_last_applied (n_core n)"
proof -
  show t: "st_memtable (n_store n) = table_of (take (applied n) hist)" using assms by (simp add: serves_def)
  have "length (take (applied n) hist) + 1 < u64_bound" "length (take (applied n) hist) = applied n" using assms by (simp_all add: serves_def min_def)
  then show "mt_last_applied (st_memtable (n_store n)) = c_last_applied (n_core n)"
    using table_of_facts(1) [of "take (applied n) hist"] unfolding t applied_def by (metis word_unat_eq_iff)
qed

text \<open>What follows once the entries are in the table: perhaps a snapshot, then the watch channel.\<close>

definition after_apply :: "('x) ext_node_scheme \<Rightarrow> others \<Rightarrow> node \<Rightarrow> u64 \<Rightarrow> unit node_io" where
  "after_apply X other n v = andThen (if should_snapshot (n_store n) then
       andThen (ask_core (\<lambda>c. or_default 0 (term_at c (store_last_applied (n_store n))))) (\<lambda>term.
       andThen (on_store (store_snapshot X term)) (\<lambda>meta.
       andThen (modify other) (\<lambda>_.
       on_core (compact meta))))
     else ret ()) (\<lambda>_. modify (\<lambda>(n, w). (n\<lparr>n_commit := v\<rparr>, w)))"

lemma apply_committed_eq:
  assumes "take_committed (n_core n) = (out, c)"
  shows "apply_committed X other1 other2 (n, w) = (if out = [] then (Inr (), n\<lparr>n_core := c\<rparr>, w) else
     let (n1, w1) = other1 (n\<lparr>n_core := c\<rparr>, w); n2 = n1\<lparr>n_store := apply_entries out (n_store n1)\<rparr>
     in after_apply X other2 n2 (le_index (last out)) (n2, w1))"
proof -
  have first: "andThen (\<lambda>(n, w). case take_committed (n_core n) of (out, c) \<Rightarrow> (Inr out, n\<lparr>n_core := c\<rparr>, w)) f (n, w) = f out (n\<lparr>n_core := c\<rparr>, w)"
    for f :: "log_entry list \<Rightarrow> unit node_io" using assms by (simp add: andThen_def)
  obtain n1 w1 where o: "other1 (n\<lparr>n_core := c\<rparr>, w) = (n1, w1)" by (cases "other1 (n\<lparr>n_core := c\<rparr>, w)")
  show ?thesis
    unfolding apply_committed_def after_apply_def first Let_def
    by (cases "out = []") (simp_all only: if_True if_False simp_thms ret_def andThen_modify andThen_get_st split_conv o)
qed

lemma after_apply_plain: "\<not> should_snapshot (n_store n) \<Longrightarrow> after_apply X other n v (n', w) = (Inr (), n'\<lparr>n_commit := v\<rparr>, w)"
  by (simp add: after_apply_def andThen_def ret_def modify_def)

text \<open>The history may have changed meanwhile, but not in its first \<open>k\<close> entries, which are the applied ones.\<close>

definition serves_same :: "log_entry list \<Rightarrow> nat \<Rightarrow> node \<Rightarrow> bool" where
  "serves_same hist k n \<longleftrightarrow> (\<exists>hist'. serves hist' n \<and> take k hist' = take k hist) \<and> applied n = k"

lemma serves_same_commit [simp]: "serves_same hist k (n\<lparr>n_commit := v\<rparr>) = serves_same hist k n"
  by (simp add: serves_same_def serves_def applied_def committed_def)

lemma wp_after_apply:
  assumes "serves hist n" and "calm other"
  shows "wp (after_apply X other n v) (\<lambda>_ (n', w'). serves_same hist (applied n) n')
     (\<lambda>_ (n', w'). st_memtable (n_store n') = table_of (take (applied n) hist)) (n, w)"
    (is "wp _ (\<lambda>_. ?Q) (\<lambda>_. ?E) _")
proof -
  note table = serves_table [OF assms(1)]
  have snap: "wp (andThen (on_store (store_snapshot X t)) (\<lambda>meta. andThen (modify other) (\<lambda>_. on_core (compact meta)))) (\<lambda>_. ?Q) (\<lambda>_. ?E) (n, w1)" for t w1
  proof -
    let ?m = "\<lparr>sm_index = c_last_applied (n_core n), sm_term = t\<rparr>"
    let ?n2 = "n\<lparr>n_store := (n_store n)\<lparr>st_last_snapshot := ?m\<rparr>\<rparr>"
    have n2: "serves hist ?n2" "applied ?n2 = applied n" using assms(1) by (simp_all add: serves_def applied_def committed_def)
    have "wp (andThen (modify other) (\<lambda>_. on_core (compact ?m))) (\<lambda>_. ?Q) (\<lambda>_. ?E) (?n2, w2)" for w2
    proof -
      obtain n3 w3 where o: "other (?n2, w2) = (n3, w3)" by (cases "other (?n2, w2)")
      obtain hist' where h: "serves hist' n3" "applied n3 = applied ?n2" "take (applied ?n2) hist' = take (applied ?n2) hist"
        by (rule serves_calm [OF n2(1) assms(2) o])
      have a: "applied n3 = applied n" "take (applied n) hist' = take (applied n) hist" using h(2,3) n2(2) by simp_all
      then have m: "sm_index ?m = c_last_applied (n_core n3)" by (simp add: applied_def word_unat_eq_iff)
      have "wp (on_core (compact ?m)) (\<lambda>_. ?Q) (\<lambda>_. ?E) (n3, w3)"
        by (rule wp_conseq [OF wp_compact_serves [OF h(1) m]]) (use a serves_table(1) [OF h(1)] in \<open>auto simp: serves_same_def\<close>)
      then show ?thesis using o by simp
    qed
    then show ?thesis
      unfolding on_store_def wp_andThen [of "zoom _ _ _"] wp_zoom using table by (intro wp_conseq [OF wp_store_snapshot]) auto
  qed
  have "serves_same hist (applied n) n" using assms(1) by (auto simp: serves_same_def)
  then have mid: "wp (if should_snapshot (n_store n) then andThen (ask_core f) (\<lambda>t. andThen (on_store (store_snapshot X t)) (\<lambda>meta. andThen (modify other) (\<lambda>_. on_core (compact meta))))
      else ret ()) (\<lambda>_. ?Q) (\<lambda>_. ?E) (n, w)" for f
    by (intro wp_ifI) (use snap in \<open>simp_all add: wp_ask_core del: wp_andThen\<close>)
  show ?thesis
    unfolding after_apply_def wp_andThen [of "if _ then _ else _"] by (rule wp_conseq [OF mid]) auto
qed

lemma wp_apply:
  assumes "serves hist n" and "calm other1" and "calm other2"
  defines "k \<equiv> max (applied n) (committed n)"
  shows "wp (apply_committed X other1 other2) (\<lambda>_ (n', w'). serves_same hist k n')
     (\<lambda>_ (n', w'). st_memtable (n_store n') = table_of (take k hist)) (n, w)"
proof -
  define out where "out = take (committed n - applied n) (drop (applied n) hist)"
  define n0 where "n0 = n\<lparr>n_core := (n_core n)\<lparr>c_last_applied := of_nat k\<rparr>\<rparr>"
  have t: "take_committed (n_core n) = (out, (n_core n)\<lparr>c_last_applied := of_nat k\<rparr>)"
    using take_committed_serves [OF assms(1)] by (simp add: out_def k_def)
  note start = apply_start [OF assms(1) out_def refl, folded k_def]
  have applied0: "applied n0 = k" and log0: "log_of hist (n_core n0)" using start by (simp_all add: serves_iff applied_def n0_def)
  have table0: "st_memtable (apply_entries out (n_store n)) = table_of (take k hist)" using start serves_table(1) by fastforce
  show ?thesis
  proof (cases "out = []")
    case True
    then have "serves hist n0" using start(1) by (simp add: n0_def apply_entries_def)
    then show ?thesis using True applied0 by (auto simp: wp_def apply_committed_eq [OF t] n0_def [symmetric] serves_same_def)
  next
    case False
    obtain n1 w1 where o: "other1 (n0, w) = (n1, w1)" by (cases "other1 (n0, w)")
    obtain hist' where h: "n_store n1 = n_store n0" "c_last_applied (n_core n1) = c_last_applied (n_core n0)" "log_of hist' (n_core n1)"
      "take (applied n0) hist' = take (applied n0) hist" by (rule calmD [OF assms(2) log0 o])
    define n2 where "n2 = n1\<lparr>n_store := apply_entries out (n_store n1)\<rparr>"
    have a: "applied n2 = k" "take k hist' = take k hist" using h(2,4) applied0 by (simp_all add: n2_def applied_def)
    have "serves hist' n2" using h(1,3) a table0 by (simp add: serves_iff n2_def n0_def)
    from wp_after_apply [OF this assms(3), of X "le_index (last out)" w1] show ?thesis
      using False o a by (auto simp: wp_def apply_committed_eq [OF t] Let_def n0_def [symmetric] n2_def [symmetric] serves_same_def)
  qed
qed

text \<open>Without a snapshot nothing can fail.\<close>

lemma apply_entries_threshold [simp]: "st_snapshot_threshold (apply_entries es s) = st_snapshot_threshold s"
  by (induction es arbitrary: s) (simp_all add: apply_entries_def store_apply_def)

lemma no_snapshot_below:
  assumes "serves hist n" and "applied n < unat (st_snapshot_threshold (n_store n))"
  shows "\<not> should_snapshot (n_store n)"
  using assms(2) serves_table(2) [OF assms(1)]
  by (auto simp: should_snapshot_def store_last_applied_def saturating_sub_def applied_def word_le_nat_alt unat_u64_diff split: if_splits)

lemma apply_entries_dir [simp]: "st_snapshot_dir (apply_entries es s) = st_snapshot_dir s"
  by (induction es arbitrary: s) (simp_all add: apply_entries_def store_apply_def)

lemma apply_undisturbed:
  assumes "serves hist n" and "applied n < committed n"
  obtains n1 where "apply_committed X id other (n, w) = after_apply X other n1 (c_commit_index (n_core n)) (n1, w)" and "serves hist n1"
    and "n_core n1 = (n_core n)\<lparr>c_last_applied := c_commit_index (n_core n)\<rparr>" and "st_snapshot_dir (n_store n1) = st_snapshot_dir (n_store n)"
    and "st_snapshot_threshold (n_store n1) = st_snapshot_threshold (n_store n)"
proof -
  define out where "out = take (committed n - applied n) (drop (applied n) hist)"
  define n1 where "n1 = n\<lparr>n_core := (n_core n)\<lparr>c_last_applied := c_commit_index (n_core n)\<rparr>, n_store := apply_entries out (n_store n)\<rparr>"
  have k: "of_nat (max (applied n) (committed n)) = c_commit_index (n_core n)" using assms(2) by (simp add: committed_def max_def)
  have n1: "serves hist n1" using apply_start(1) [OF assms(1) out_def, of n1] k by (simp add: n1_def)
  have t: "take_committed (n_core n) = (out, (n_core n)\<lparr>c_last_applied := c_commit_index (n_core n)\<rparr>)"
    using take_committed_serves [OF assms(1)] k by (simp add: out_def)
  have h: "committed n \<le> length hist" "numbered_from 1 hist" using assms(1) by (simp_all add: serves_def)
  have len: "length out = committed n - applied n" using h(1) by (simp add: out_def)
  then have ne: "out \<noteq> []" using assms(2) by auto
  have "last out = hist ! (committed n - 1)" using len ne assms(2) h(1) by (simp add: last_conv_nth out_def)
  then have "unat (le_index (last out)) = committed n" using h assms(2) by (simp add: numbered_from_nth)
  then have "le_index (last out) = c_commit_index (n_core n)" by (simp add: committed_def word_unat_eq_iff)
  then have "apply_committed X id other (n, w) = after_apply X other n1 (c_commit_index (n_core n)) (n1, w)"
    using ne by (simp add: apply_committed_eq [OF t] Let_def n1_def)
  then show ?thesis using that [of n1] n1 by (simp add: n1_def)
qed

lemma apply_plain:
  assumes "serves hist n" and "applied n < committed n" and "committed n < unat (st_snapshot_threshold (n_store n))"
  shows "\<exists>n'. apply_committed X id id (n, w) = (Inr (), n', w) \<and> n_commit n' = c_commit_index (n_core n) \<and> serves hist n' \<and>
     n_core n' = (n_core n)\<lparr>c_last_applied := c_commit_index (n_core n)\<rparr>"
proof -
  obtain n1 where n1: "apply_committed X id id (n, w) = after_apply X id n1 (c_commit_index (n_core n)) (n1, w)" "serves hist n1"
    "n_core n1 = (n_core n)\<lparr>c_last_applied := c_commit_index (n_core n)\<rparr>" "st_snapshot_threshold (n_store n1) = st_snapshot_threshold (n_store n)"
    by (rule apply_undisturbed [OF assms(1,2)])
  have "applied n1 = committed n" by (simp add: n1(3) applied_def committed_def)
  then have "\<not> should_snapshot (n_store n1)" using no_snapshot_below [OF n1(2)] n1(4) assms(3) by simp
  then show ?thesis using n1 by (simp add: after_apply_plain serves_def applied_def committed_def)
qed

lemma apply_small:
  assumes "serves hist n" and "calm other" and "applied n < committed n" and "committed n < unat (st_snapshot_threshold (n_store n))"
  shows "\<exists>n' w'. apply_committed X other other2 (n, w) = (Inr (), n', w')"
proof -
  let ?out = "take (committed n - applied n) (drop (applied n) hist)"
  let ?n0 = "n\<lparr>n_core := (n_core n)\<lparr>c_last_applied := of_nat (max (applied n) (committed n))\<rparr>\<rparr>"
  let ?n1 = "n\<lparr>n_core := (n_core n)\<lparr>c_last_applied := of_nat (max (applied n) (committed n))\<rparr>, n_store := apply_entries ?out (n_store n)\<rparr>"
  have ne: "?out \<noteq> []" using assms(1,3) by (simp add: serves_def)
  note start = apply_start [OF assms(1) refl refl]
  have log: "log_of hist (n_core ?n0)" using start(1) by (simp add: serves_iff)
  obtain n1 w1 where o: "other (?n0, w) = (n1, w1)" by (cases "other (?n0, w)")
  have s: "n_store n1 = n_store n" using calmD [OF assms(2) log o] by fastforce
  have "\<not> should_snapshot (apply_entries ?out (n_store n))" using no_snapshot_below [OF start(1)] start(2) assms(3,4) by simp
  then show ?thesis using ne s o by (simp add: apply_committed_eq [OF take_committed_serves [OF assms(1)]] Let_def after_apply_plain)
qed

text \<open>Handling a request for a vote is calm.\<close>

definition same_entries :: "raft_core \<Rightarrow> raft_core \<times> world \<Rightarrow> bool" where
  "same_entries c0 = (\<lambda>(c, w). c_entries c = c_entries c0 \<and> c_snapshot c = c_snapshot c0 \<and> c_commit_index c = c_commit_index c0 \<and> c_last_applied c = c_last_applied c0)"

lemma same_entries_rules:
  "(\<And>c. c_entries (f c) = c_entries c \<and> c_snapshot (f c) = c_snapshot c \<and> c_commit_index (f c) = c_commit_index c \<and> c_last_applied (f c) = c_last_applied c) \<Longrightarrow>
     preserves (same_entries c0) (upd_core f) anything"
  "preserves (same_entries c0) (outside m) anything"
  by (rule preserves_modify) (auto simp: same_entries_def preserves_def outside_def split: prod.splits)

lemma same_entries_vote: "preserves (same_entries c0) (handle_request_vote X args) anything"
  unfolding handle_request_vote_def become_follower_def persist_hard_def reset_election_timer_def Let_def
  by (intro preserves_read preserves_prod preserves_if preserves_ret preserves_andThen_anything TrueI same_entries_rules) simp_all

lemma calm_vote: "calm (\<lambda>s. snd (on_core (handle_request_vote X args) s))"
  unfolding calm_def
proof (intro allI impI)
  fix hist n w n' w'
  assume a: "log_of hist (n_core n) \<and> snd (on_core (handle_request_vote X args) (n, w)) = (n', w')"
  obtain r c w1 where h: "handle_request_vote X args (n_core n, w) = (r, c, w1)" by (cases "handle_request_vote X args (n_core n, w)") auto
  have "same_entries (n_core n) (c, w1)" by (rule preservesD [OF same_entries_vote _ h]) (simp add: same_entries_def)
  moreover have "n' = n\<lparr>n_core := c\<rparr>" using a h by (simp add: on_core_def zoom_def)
  ultimately show "n_store n' = n_store n \<and> c_last_applied (n_core n') = c_last_applied (n_core n) \<and>
     (\<exists>hist'. log_of hist' (n_core n') \<and> take (applied n) hist' = take (applied n) hist)"
    using a by (auto simp: same_entries_def log_of_def)
qed

section \<open>A proposal on its way\<close>

lemma leader_append_run:
  assumes "at_rest X b recs (c, w)" and "vote_inv X me {} (c, w)" and "c_role c = Leader"
    and "e = \<lparr>le_term = hs_term (c_hard c), le_index = last_log_index c + 1, le_command = cmd\<rparr>"
    and "x_ser_entry X e = Some p" and "x_de_entry X p = Some e" and "log_fits X b (recs @ [p])"
  shows "\<exists>l1 w1 l2 w2. append_command X cmd (c, w) = (Inr e, c\<lparr>c_log := l1, c_entries := c_entries c @ [e]\<rparr>, w1) \<and>
     core_sync (c\<lparr>c_log := l1, c_entries := c_entries c @ [e]\<rparr>, w1) = (Inr (), c\<lparr>c_entries := c_entries c @ [e], c_log := l2\<rparr>, w2) \<and>
     at_rest X b (recs @ [p]) (c\<lparr>c_entries := c_entries c @ [e], c_log := l2\<rparr>, w2)"
proof -
  have r: "core_log X b recs (c, w)" "w_clean w" "butlast (c_hard_path c) \<noteq> log_dir (c_log c)" "as_millis (c_election_start c) < as_millis (c_election_end c)"
    using assms(1) by (auto simp: at_rest_def)
  from append_run [OF r(1,2) assms(7) _ assms(5,6)] obtain l1 w1 where
    1: "on_log (log_append X p) (c, w) = (Inr (le_index e), c\<lparr>c_log := l1\<rparr>, w1)" "w_clean w1" "log_dir l1 = log_dir (c_log c)"
      "core_log X b (recs @ [p]) (c\<lparr>c_log := l1, c_entries := c_entries c @ [e]\<rparr>, w1)" using assms(4) by auto
  let ?c1 = "c\<lparr>c_log := l1, c_entries := c_entries c @ [e]\<rparr>"
  from core_sync_run [OF 1(4,2)] obtain l2 w2 where
    2: "core_sync (?c1, w1) = (Inr (), ?c1\<lparr>c_log := l2\<rparr>, w2)" "w_clean w2" "log_synced w2 l2" "log_dir l2 = log_dir (c_log c)"
      "core_log X b (recs @ [p]) (?c1\<lparr>c_log := l2\<rparr>, w2)" using 1(3) by auto
  have a: "append_command X cmd (c, w) = (Inr e, ?c1, w1)"
    using 1(1) assms(3-5) by (simp add: append_command_def get_st_def Let_def andThen_def modify_def ret_def)
  have "vote_inv X me {} (?c1\<lparr>c_log := l2\<rparr>, w2)"
    using preservesD [OF vote_inv_core_sync preservesD [OF vote_inv_append_command assms(2) a] 2(1)] .
  then have "\<exists>hs. hard_file X w2 (c_hard_path c) hs" by (auto simp: vote_inv_def keeps_promises_def core_disk_def)
  then have "at_rest X b (recs @ [p]) (?c1\<lparr>c_log := l2\<rparr>, w2)" using 2 r(3,4) by (simp add: at_rest_def)
  then show ?thesis using a 2(1) by auto
qed

definition first_proposal :: log_entry where
  "first_proposal = \<lparr>le_term = 5, le_index = 1, le_command = Put [7] [8]\<rparr>"

text \<open>What the leader of the next term sends.\<close>

definition next_leader_message :: append_entries_args where
  "next_leader_message = \<lparr>ae_term = 6, ae_leader_id = 2, ae_prev_log_index = 0, ae_prev_log_term = 0, ae_entries = [sample_entry 6 1], ae_leader_commit = 1\<rparr>"

lemma fresh_leader:
  fixes h :: hard_state
  defines "c \<equiv> sample_core Leader h []"
  shows "at_rest sample_node 1 [] (c, sample_disk [])" and "vote_inv sample_node (1, [2, 3], 3, [''d'', ''hard_state'']) {} (c, sample_disk [])"
proof -
  have f: "log_fits sample_node 1 (map enc_entry [])" using sample_entries_fit(3) by simp
  show "at_rest sample_node 1 [] (c, sample_disk [])" using sample_at_rest(1) [OF f, of Leader h] by (simp add: c_def)
  let ?S = "hard_paths [''d'', ''hard_state'']"
  have "\<not> reach (sample_disk []) p i" if "p \<in> ?S" for p i
    using that by (auto simp: hard_paths_def tmp_path_def push_str_def reach_def sample_disk_def sample_world_def file_world_def segment_path_def
        SEGMENT_PREFIX_def split: if_splits)
  then have files: "files_of (sample_disk []) ?S = {}" by (auto simp: files_of_def)
  have "log_apart ?S {} (c_log c)" "log_allocated (c_log c, sample_disk [])"
    by (auto simp: log_apart_def segment_apart_def c_def sample_core_def sample_log_def hard_paths_def tmp_path_def push_str_def segment_path_def
        log_allocated_def sample_disk_def sample_world_def file_world_def)
  then have "core_disk sample_node {default_hard_state} (c, sample_disk [])"
    using sample_at_rest(2) [OF f, of] files by (simp add: core_disk_def c_def sample_core_def)
  then show "vote_inv sample_node (1, [2, 3], 3, [''d'', ''hard_state'']) {} (c, sample_disk [])"
    by (auto simp: vote_inv_def keeps_promises_def identity_def c_def sample_core_def)
qed

lemma first_proposal_fits:
  "log_fits sample_node 1 ([] @ [enc_entry first_proposal])" "log_fits sample_node 1 (([] @ [enc_entry first_proposal]) @ ser_entries sample_node [sample_entry 6 1])"
  by (simp_all add: first_proposal_def sample_fits ser_entries_def sample_node_def length_enc_bytes)

text \<open>A message changes neither what is applied nor the size of the cluster.\<close>

definition fixed_part :: "u64 \<Rightarrow> nat \<Rightarrow> raft_core \<times> world \<Rightarrow> bool" where
  "fixed_part a k = (\<lambda>(c, w). c_last_applied c = a \<and> c_cluster_size c = k)"

lemma fixed_part_upd:
  "(\<And>c. c_last_applied (f c) = c_last_applied c \<and> c_cluster_size (f c) = c_cluster_size c) \<Longrightarrow> preserves (fixed_part a k) (upd_core f) anything"
  by (rule preserves_modify) (auto simp: fixed_part_def)

lemma fixed_part_basic:
  "preserves (fixed_part a k) (outside m) anything" "preserves (fixed_part a k) (on_log m') anything"
  by (auto simp: preserves_def fixed_part_def outside_def on_log_def zoom_def split: prod.splits)

lemma fixed_part_append_entries: "preserves (fixed_part a k) (handle_append_entries X args) anything"
  unfolding handle_append_entries_def become_follower_def persist_hard_def reset_election_timer_def splice_entry_def truncate_from_def append_replicated_def
    core_sync_def
  by (intro preserves_read preserves_prod preserves_if preserves_option preserves_throw preserves_ret preserves_andThen_anything preserves_for_each TrueI
      fixed_part_upd fixed_part_basic) simp_all

lemma replaced_proposal:
  fixes c :: raft_core
  defines "c \<equiv> sample_core Leader \<lparr>hs_term = 5, hs_voted_for = Some 1\<rparr> []"
  obtains l1 w1 c2 w2 c3 w3 r where
    "append_command sample_node (Put [7] [8]) (c, sample_disk []) = (Inr first_proposal, c\<lparr>c_log := l1, c_entries := [first_proposal]\<rparr>, w1)"
    "core_sync (c\<lparr>c_log := l1, c_entries := [first_proposal]\<rparr>, w1) = (Inr (), c2, w2)" "advance_commit_index (c2, w2) = (Inr (), c2, w2)"
    "handle_append_entries sample_node next_leader_message (c2, w2) = (Inr r, c3, w3)" "c_entries c3 = [sample_entry 6 1]" "c_snapshot c3 = default_meta"
    "c_commit_index c3 = 1" "c_last_applied c3 = 0" "c_role c2 = Leader" "c_cluster_size c3 = 3"
proof -
  let ?e = first_proposal and ?X = sample_node
  have e: "?e = \<lparr>le_term = hs_term (c_hard c), le_index = last_log_index c + 1, le_command = Put [7] [8]\<rparr>"
    by (simp add: c_def first_proposal_def sample_core_def last_log_index_def default_meta_def)
  have ser: "x_ser_entry ?X ?e = Some (enc_entry ?e)" "x_de_entry ?X (enc_entry ?e) = Some ?e" by (simp_all add: sample_node_def dec_enc_entry)
  have lead: "c_role c = Leader" "c_entries c = []" by (simp_all add: c_def sample_core_def)
  obtain l1 w1 l2 w2 where
    1: "append_command ?X (Put [7] [8]) (c, sample_disk []) = (Inr ?e, c\<lparr>c_log := l1, c_entries := [?e]\<rparr>, w1)"
      "core_sync (c\<lparr>c_log := l1, c_entries := [?e]\<rparr>, w1) = (Inr (), c\<lparr>c_entries := [?e], c_log := l2\<rparr>, w2)"
      "at_rest ?X 1 ([] @ [enc_entry ?e]) (c\<lparr>c_entries := [?e], c_log := l2\<rparr>, w2)"
    using leader_append_run [OF fresh_leader [of "\<lparr>hs_term = 5, hs_voted_for = Some 1\<rparr>", folded c_def] lead(1) e ser first_proposal_fits(1)] lead(2) by auto
  define c2 where "c2 = c\<lparr>c_entries := [?e], c_log := l2\<rparr>"
  have c2: "c_role c2 = Leader" "c_cluster_size c2 = 3" "c_last_applied c2 = 0" "c_commit_index c2 = 0" "c_entries c2 = [?e]" "c_snapshot c2 = default_meta"
    "current_term c2 = 5" "c_peers c2 = [2, 3]" "c_match_index c2 = Map.empty" by (simp_all add: c2_def c_def sample_core_def current_term_def)
  have adv: "advance_commit_index (c2, w2) = (Inr (), c2, w2)"
    using c2 by (simp add: advance_commit_index_def andThen_def get_st_def modify_def or_default_def core_quorum_def get_nth_def last_log_index_def first_proposal_def)
  have "current_term c2 \<le> ae_term next_leader_message" "ae_prev_log_index next_leader_message \<le> last_log_index c2"
    "term_at c2 (ae_prev_log_index next_leader_message) \<in> {None, Some (ae_prev_log_term next_leader_message)}"
    "numbered_from (Suc (unat (ae_prev_log_index next_leader_message))) (ae_entries next_leader_message)"
    "log_fits ?X 1 (([] @ [enc_entry ?e]) @ ser_entries ?X (ae_entries next_leader_message))"
    using c2 first_proposal_fits(2) by (simp_all add: next_leader_message_def term_at_def default_meta_def)
  from append_entries_run [OF 1(3) [folded c2_def] sample_codecs(1,2) this] obtain r c3 w3 where
    3: "handle_append_entries ?X next_leader_message (c2, w2) = (Inr r, c3, w3)" "c_entries c3 = spliced (snap_index c2) (c_entries c2) 1 [sample_entry 6 1]"
      "c_snapshot c3 = c_snapshot c2" "c_commit_index c3 = new_commit (c_commit_index c2) 1 (last_log_index c3)"
    by (auto simp: next_leader_message_def)
  have "fixed_part 0 3 (c3, w3)" using preservesD [OF fixed_part_append_entries _ 3(1)] c2 by (simp add: fixed_part_def)
  then show ?thesis
    using that [OF 1(1) 1(2) [folded c2_def] adv 3(1)] 3(2-4) c2
    by (simp add: fixed_part_def spliced_def first_proposal_def new_commit_def last_log_index_def default_meta_def)
qed

section \<open>Properties\<close>

text \<open>C7. A node that applies its committed entries serves exactly the state machine's map of the committed prefix of its history. This holds
  on every outcome, with and without a snapshot, and whatever other tasks do between the locked stretches, provided they are \<open>calm\<close>: they
  leave the store, the index of the last applied entry and the applied entries alone. In particular no second task may apply
  entries meanwhile. After success exactly the entries that were committed at the start are applied, and the log is again the rest
  of a history that begins with them.\<close>

theorem apply_refines:
  assumes "serves hist n" and "applied n \<le> committed n" and "calm other1" and "calm other2" and "apply_committed X other1 other2 (n, w) = (r, n', w')"
  shows "store_get (n_store n') = fold exec (map le_command (take (committed n) hist)) Map.empty \<and>
     (r = Inr () \<longrightarrow> applied n' = committed n \<and> (\<exists>hist'. serves hist' n' \<and> take (committed n) hist' = take (committed n) hist))"
proof -
  have len: "length (take (committed n) hist) + 1 < u64_bound" using assms(1) by (simp add: serves_def)
  note run = wp_apply [OF assms(1,3,4), of X w, unfolded max_absorb2 [OF assms(2)] wp_def assms(5) split_conv]
  have "st_memtable (n_store n') = table_of (take (committed n) hist)"
    using run serves_table(1) by (cases r) (auto simp: serves_same_def)
  moreover have "serves_same hist (committed n) n'" if "r = Inr ()" using run that by simp
  ultimately show ?thesis using table_of_facts(2) [OF len] by (auto simp: store_get_def serves_same_def fun_eq_iff)
qed

definition sample_service :: "raft_core \<Rightarrow> node" where
  "sample_service c = \<lparr>n_core = c, n_store = \<lparr>st_snapshot_dir = [''d'', ''snapshots''], st_memtable = memtable_new, st_snapshot_threshold = 10000,
     st_last_snapshot = default_meta\<rparr>, n_commit = 0, n_heartbeat_interval = from_millis 50\<rparr>"

definition sample_history :: "log_entry list" where
  "sample_history = [\<lparr>le_term = 1, le_index = 1, le_command = Put [7] [8]\<rparr>, sample_entry 1 2]"

lemma sample_serves:
  "serves sample_history (sample_service ((sample_core r h sample_history)\<lparr>c_commit_index := 1\<rparr>))"
  by (simp add: serves_def sample_history_def sample_service_def sample_core_def applied_def committed_def default_meta_def table_of_def)

text \<open>While the node applies, it votes for another candidate, and steps down for it.\<close>

theorem apply_refines_witness:
  "let vote = (\<lambda>s. snd (on_core (handle_request_vote sample_node \<lparr>rv_term = 9, rv_candidate_id = 2, rv_last_log_index = 2, rv_last_log_term = 1\<rparr>) s))
   in \<exists>n' w'. apply_committed sample_node vote id (sample_service ((sample_core Leader default_hard_state sample_history)\<lparr>c_commit_index := 1\<rparr>), empty_world [''d''] []) =
       (Inr (), n', w') \<and> store_get (n_store n') [7] = Some [8] \<and> applied n' = 1"
proof -
  let ?n = "sample_service ((sample_core Leader default_hard_state sample_history)\<lparr>c_commit_index := 1\<rparr>)" and ?w = "empty_world [''d''] []"
  let ?vote = "\<lambda>s. snd (on_core (handle_request_vote sample_node \<lparr>rv_term = 9, rv_candidate_id = 2, rv_last_log_index = 2, rv_last_log_term = 1\<rparr>) s)"
  have c: "applied ?n = 0" "committed ?n = 1" by (simp_all add: sample_service_def sample_core_def applied_def committed_def)
  obtain n' w' where r: "apply_committed sample_node ?vote id (?n, ?w) = (Inr (), n', w')"
    using apply_small [OF sample_serves calm_vote, of Leader default_hard_state] c by (fastforce simp: sample_service_def)
  show ?thesis using apply_refines [OF sample_serves _ calm_vote calm_id r] c r unfolding Let_def by (auto simp: sample_history_def)
qed

text \<open>C19. Applying is not safe against itself. If a second task takes and applies the next committed entry between the two locks of the first,
  the table has moved on when the first comes to its entry, and skips it: both tasks succeed, both entries count as applied, but
  the write of the first is not in the table.\<close>

theorem apply_race:
  assumes "serves [e1, e2] n" and "applied n = 0" and "committed n = 1" and "le_command e1 = Put k v" and "le_command e2 = Noop"
    and "2 < st_snapshot_threshold (n_store n)"
    and "other = (\<lambda>(n, w). snd (apply_committed X id id (n\<lparr>n_core := (n_core n)\<lparr>c_commit_index := 2\<rparr>\<rparr>, w)))"
  shows "\<exists>n'. apply_committed X other id (n, w) = (Inr (), n', w) \<and> applied n' = 2 \<and> store_get (n_store n') k = None"
proof -
  let ?c = "n_core n"
  have c: "snap_index ?c = 0" "c_entries ?c = [e1, e2]" "le_index e1 = 1" "le_index e2 = 2" "st_memtable (n_store n) = memtable_new" "c_last_applied ?c = 0" "c_commit_index ?c = 1"
    using assms(1-3) by (auto simp: serves_def applied_def committed_def table_of_def word_unat_eq_iff)
  have wf: "log_wf ?c" by (rule serves_wf [OF assms(1)])
  let ?c1 = "?c\<lparr>c_last_applied := 1\<rparr>" and ?c2 = "?c\<lparr>c_last_applied := 2, c_commit_index := 2\<rparr>"
  have t1: "take_committed ?c = ([e1], ?c1)" using take_committed_run [OF wf] c by (simp add: Let_def)
  have t2: "take_committed (?c1\<lparr>c_commit_index := 2\<rparr>) = ([e2], ?c2)"
    using take_committed_run [of "?c1\<lparr>c_commit_index := 2\<rparr>"] wf c by (simp add: Let_def log_wf_def)
  let ?s = "(n_store n)\<lparr>st_memtable := \<lparr>mt_map = [], mt_last_applied = 2\<rparr>\<rparr>"
  have s2: "apply_entries [e2] (n_store n) = ?s" "apply_entries [e1] ?s = ?s"
    using c assms(4,5) by (simp_all add: apply_entries_def store_apply_def memtable_apply_def memtable_new_def Let_def)
  have no: "\<not> should_snapshot ?s" using assms(6) by (auto simp: should_snapshot_def store_last_applied_def saturating_sub_def not_le word_less_nat_alt unat_u64_diff word_le_nat_alt)
  let ?n2 = "n\<lparr>n_core := ?c2, n_store := ?s, n_commit := 2\<rparr>"
  have o: "other (n\<lparr>n_core := ?c1\<rparr>, w) = (?n2, w)"
    using apply_committed_eq [of "n\<lparr>n_core := ?c1\<lparr>c_commit_index := 2\<rparr>\<rparr>" "[e2]" ?c2 X id id w] t2 s2(1) no c by (simp add: assms(7) Let_def after_apply_plain)
  show ?thesis
    using apply_committed_eq [OF t1, of X other id w] o s2(2) no c
    by (simp add: Let_def after_apply_plain applied_def store_get_def memtable_get_def)
qed

theorem apply_race_witness:
  "\<exists>other n' w. apply_committed sample_node other id (sample_service ((sample_core Leader default_hard_state sample_history)\<lparr>c_commit_index := 1\<rparr>), w) = (Inr (), n', w) \<and>
     applied n' = 2 \<and> store_get (n_store n') [7] = None"
  using apply_race [OF sample_serves [of Leader default_hard_state, unfolded sample_history_def], of "[7]" "[8]" _ sample_node "empty_world [''d''] []", OF _ _ _ _ _ refl]
  by (auto simp: sample_service_def sample_core_def applied_def committed_def sample_history_def)

text \<open>C14. A client may be told that its write is committed although it is lost. The leader of term 5 has appended the write and waits for its peers;
  meanwhile the leader of term 6 replaces that entry by its own and commits the index. The waiting task looks only at the index:
  it applies the other entry and answers the client with success.\<close>

theorem acknowledged_write_lost:
  "\<exists>t n' w'. kv_put sample_node [7] [8] t (sample_service (sample_core Leader \<lparr>hs_term = 5, hs_voted_for = Some 1\<rparr> []), sample_disk []) = (Some (Inr 1), n', w') \<and>
     store_get (n_store n') [7] = None \<and> entry_at (n_core n') 1 = Some (sample_entry 6 1)"
proof -
  let ?X = sample_node and ?c = "sample_core Leader \<lparr>hs_term = 5, hs_voted_for = Some 1\<rparr> []"
  let ?n = "sample_service ?c"
  obtain l1 w1 c2 w2 c3 w3 r where
    1: "append_command ?X (Put [7] [8]) (?c, sample_disk []) = (Inr first_proposal, ?c\<lparr>c_log := l1, c_entries := [first_proposal]\<rparr>, w1)"
      "core_sync (?c\<lparr>c_log := l1, c_entries := [first_proposal]\<rparr>, w1) = (Inr (), c2, w2)" "advance_commit_index (c2, w2) = (Inr (), c2, w2)"
    and 3: "handle_append_entries ?X next_leader_message (c2, w2) = (Inr r, c3, w3)" "c_entries c3 = [sample_entry 6 1]" "c_snapshot c3 = default_meta"
      "c_commit_index c3 = 1" "c_last_applied c3 = 0" and 2: "c_role c2 = Leader" "c_cluster_size c3 = 3"
    by (rule replaced_proposal)
  have s: "serves [sample_entry 6 1] (?n\<lparr>n_core := c3\<rparr>)"
    using 3 by (simp add: serves_def sample_service_def applied_def committed_def default_meta_def table_of_def)
  from apply_plain [OF s, of ?X w3] obtain n' where
    n': "apply_committed ?X id id (?n\<lparr>n_core := c3\<rparr>, w3) = (Inr (), n', w3)" "n_commit n' = 1" "serves [sample_entry 6 1] n'" "n_core n' = c3\<lparr>c_last_applied := 1\<rparr>"
    using 3(4,5) by (auto simp: applied_def committed_def sample_service_def)
  let ?t = "\<lparr>ws_sends = [SendOthers (\<lambda>s. snd (on_core (handle_append_entries ?X next_leader_message) s))], ws_other1 = id, ws_other2 = id, ws_waits = []\<rparr>"
  have "broadcast_append_entries ?X (ws_sends ?t) (?n\<lparr>n_core := c2\<rparr>, w2) = (Inr (), ?n\<lparr>n_core := c3\<rparr>, w3)"
    using 3(1) 2 by (simp add: broadcast_append_entries_def ask_core_def andThen_def get_st_def ret_def modify_def on_core_def zoom_def finish_round_def core_quorum_def)
  then have "propose ?X (Put [7] [8]) (ws_sends ?t) id id (?n, sample_disk []) = (Inr 1, n', w3)"
    using 1 n'(1) by (simp add: propose_def ask_core_def andThen_def get_st_def ret_def on_core_def zoom_def sample_service_def is_leader_def first_proposal_def sample_core_def)
  then have "kv_put ?X [7] [8] ?t (?n, sample_disk []) = (Some (Inr 1), n', w3)"
    using n'(2) by (simp add: kv_put_def kv_write_def wait_for_commit.simps)
  moreover have "store_get (n_store n') [7] = None"
    using serves_table(1) [OF n'(3)] n'(4) by (simp add: store_get_def applied_def table_of_facts)
  moreover have "entry_at (n_core n') 1 = Some (sample_entry 6 1)" using 3(2,3) n'(4) by (simp add: entry_at_def base_index_def default_meta_def get_nth_def)
  ultimately show ?thesis by blast
qed

end
