(* ===== verification/Snapshot_Safety.thy ===== *)
theory Snapshot_Safety
  imports Snapshot_Store
begin

text \<open>
  A snapshot that was written is found again: the newest one in the directory, whole, also after a power failure, whatever became
  of the clean-up of its predecessors.
\<close>

section \<open>Names\<close>

abbreviation tmp_name :: "path \<Rightarrow> u64 \<Rightarrow> path" where
  "tmp_name d n \<equiv> with_extension (snapshot_path d n) ''tmp''"

lemma snapshot_index_path [simp]: "snapshot_index (last (snapshot_path d n)) = Some n"
  by (simp add: snapshot_path_def snapshot_index_def parse_u64_show_u64_20)

lemma snapshot_index_tmp [simp]: "snapshot_index (last (tmp_name d n)) = None"
proof -
  have "strip_suffix SNAPSHOT_SUFFIX (show_u64_20 n @ SNAPSHOT_SUFFIX @ ''.tmp'') = None"
  proof (rule ccontr)
    assume "\<not> ?thesis"
    then obtain t where "show_u64_20 n @ SNAPSHOT_SUFFIX @ ''.tmp'' = t @ SNAPSHOT_SUFFIX" by (auto simp: strip_suffix_Some)
    then have "take 2 (rev (show_u64_20 n @ SNAPSHOT_SUFFIX @ ''.tmp'')) = take 2 (rev (t @ SNAPSHOT_SUFFIX))" by simp
    then show False by (simp add: SNAPSHOT_SUFFIX_def)
  qed
  then show ?thesis by (simp add: snapshot_path_def with_extension_def snapshot_index_def)
qed

text \<open>The snapshots in a directory, now or after a crash.\<close>

definition snapshot_at :: "world \<Rightarrow> path \<Rightarrow> path \<Rightarrow> u64 \<Rightarrow> bool" where
  "snapshot_at w d p n \<longleftrightarrow> (\<exists>i. reach w p i) \<and> p \<noteq> [] \<and> butlast p = d \<and> snapshot_index (last p) = Some n"

text \<open>All of them are older than the one about to be written, and its two names are nobody else's.\<close>

definition snapshots_before :: "world \<Rightarrow> path \<Rightarrow> u64 \<Rightarrow> bool" where
  "snapshots_before w d n \<longleftrightarrow> (\<forall>p m. snapshot_at w d p m \<longrightarrow> m < n) \<and> owned w {tmp_name d n, snapshot_path d n}"

section \<open>Writing\<close>

lemma stays_remove_file:
  assumes "stays_in S w0 w"
  shows "stays S w0 (remove_file p) w"
  unfolding remove_file_def
proof (rule wp_syscall)
  fix es
  let ?w = "w\<lparr>w_events := es\<rparr>"
  have ok: "stays_in S w0 ?w" "fs_ok ?w" using assms by (simp_all add: stays_in_def)
  have "stays_in S w0 (set_entry p None ?w)"
    by (rule stays_in_step [OF ok(1) fs_ok_set_entry [OF ok(2)]]) (auto simp: reach_def set_entry_def delete_conv simp del: map_of_eq_Some_iff split: if_splits)
  then show "stays S w0 (\<lambda>w. case w_find w p of None \<Rightarrow> (Inl (Io NotFound), w) | Some _ \<Rightarrow> (Inr (), set_entry p None w)) ?w"
    using ok(1) by (auto simp: wp_def simp del: map_of_eq_Some_iff split: option.splits)
qed (use assms in simp)

lemma preserves_stays:
  "preserves (stays_in S w0) (remove_file p) anything" "preserves (stays_in S w0) (sync_dir d) anything" "preserves (stays_in S w0) (create_dir_all d) anything"
  "tmp \<in> S \<Longrightarrow> path \<in> S \<Longrightarrow> tmp \<noteq> path \<Longrightarrow> preserves (stays_in S w0) (install_file tmp path bs) anything"
  by (rule preservesI; simp add: stays_remove_file stays_sync_dir stays_create_dir_all stays_install_file)+

lemma preserves_stays_discover: "preserves (stays_in S w0) (discover d) anything"
  by (auto simp: preserves_def discover_def andThen_def dir_exists_def read_dir_def syscall_def pop_event_def ret_def split: list.splits)

text \<open>The clean-up removes other snapshots only.\<close>

lemma found_mem:
  "(m, q) \<in> set (List.map_filter (\<lambda>name. map_option (\<lambda>index. (index, join_path d name)) (snapshot_index name))
       (map last (filter (\<lambda>p. p \<noteq> [] \<and> butlast p = d) ps))) \<longleftrightarrow> q \<in> set ps \<and> q \<noteq> [] \<and> butlast q = d \<and> snapshot_index (last q) = Some m"
    (is "_ \<in> set (List.map_filter ?f (map last ?ps)) \<longleftrightarrow> _")
proof -
  have "(m, q) \<in> set (List.map_filter ?f (map last ?ps)) \<longleftrightarrow> (\<exists>p\<in>set ?ps. snapshot_index (last p) = Some m \<and> q = join_path d (last p))"
    by (auto simp: List.map_filter_def image_iff)
  also have "\<dots> \<longleftrightarrow> (\<exists>p\<in>set ?ps. snapshot_index (last p) = Some m \<and> q = p)"
    by (rule bex_cong [OF refl]) (auto simp: snoc_eq_iff_butlast)
  finally show ?thesis by auto
qed

lemma andThen_unitE: "andThen m (\<lambda>_. k) s = (Inr y, s') \<Longrightarrow> (\<And>s1. m s = (Inr (), s1) \<Longrightarrow> k s1 = (Inr y, s') \<Longrightarrow> P) \<Longrightarrow> P"
  by (auto simp: andThen_def split: prod.splits sum.splits)

lemma andThen_InrE: "andThen m f s = (Inr y, s') \<Longrightarrow> (\<And>x s1. m s = (Inr x, s1) \<Longrightarrow> f x s1 = (Inr y, s') \<Longrightarrow> P) \<Longrightarrow> P"
  by (auto simp: andThen_def split: prod.splits sum.splits)

lemma discover_result:
  assumes "discover d w = (Inr found, w')"
  shows "\<exists>ps. found = List.map_filter (\<lambda>name. map_option (\<lambda>index. (index, join_path d name)) (snapshot_index name))
     (map last (filter (\<lambda>p. p \<noteq> [] \<and> butlast p = d) ps))"
proof -
  obtain yes w1 where yes: "(if \<not> yes then ret [] else andThen (read_dir d) (\<lambda>names. ret (List.map_filter
      (\<lambda>name. map_option (\<lambda>index. (index, join_path d name)) (snapshot_index name)) names))) w1 = (Inr found, w')"
    by (rule andThen_InrE [OF assms [unfolded discover_def]])
  show ?thesis
  proof (cases yes)
    case True
    obtain names w2 where n: "read_dir d w1 = (Inr names, w2)" "found = List.map_filter (\<lambda>name. map_option (\<lambda>index. (index, join_path d name)) (snapshot_index name)) names"
      using yes True by (auto simp: ret_def elim!: andThen_InrE)
    have "\<exists>ps. names = map last (filter (\<lambda>p. p \<noteq> [] \<and> butlast p = d) ps)"
      using n(1) by (auto simp: read_dir_def syscall_def split: prod.splits if_splits)
    then show ?thesis using n(2) by blast
  next
    case False
    then show ?thesis using yes by (intro exI [of _ "[]"]) (simp add: ret_def List.map_filter_def)
  qed
qed

lemma discover_paths:
  assumes "discover d w = (Inr found, w')" and "(n, p) \<in> set found"
  shows "p \<noteq> [] \<and> butlast p = d \<and> snapshot_index (last p) = Some n"
proof -
  obtain ps where "found = List.map_filter (\<lambda>name. map_option (\<lambda>index. (index, join_path d name)) (snapshot_index name))
     (map last (filter (\<lambda>p. p \<noteq> [] \<and> butlast p = d) ps))" using discover_result [OF assms(1)] by (elim exE)
  with assms(2) show ?thesis by (simp only: found_mem) simp
qed

lemma preserves_clean_up:
  assumes "\<And>index path. (index, path) \<in> set found \<Longrightarrow> index \<noteq> n \<Longrightarrow> path \<notin> S"
  shows "preserves (spares S I w0) (for_each found (\<lambda>(index, path). if index \<noteq> n then ignoring (remove_file path) else ret ())) anything"
proof (rule preserves_for_each)
  fix x assume mem: "x \<in> set found"
  obtain index path where x: "x = (index, path)" by (cases x)
  show "preserves (spares S I w0) (case x of (index, path) \<Rightarrow> if index \<noteq> n then ignoring (remove_file path) else ret ()) anything"
  proof (cases "index = n")
    case False
    then have "path \<notin> S" using assms mem x by blast
    then show ?thesis using False by (simp add: x) (intro preserves_intros)
  qed (simp add: x preserves_ret)
qed

lemma atomic_ok_absent:
  assumes "fs_ok w" and "\<And>i. \<not> reach w path i" and "tmp \<noteq> path" and "tmp \<noteq> []" and "path \<noteq> []" and "butlast tmp = butlast path"
  shows "atomic_ok w tmp path {None}"
proof -
  have none: "v = None" if "v \<in> entries w path" for v using that assms(2) by (cases v) (auto simp: reach_entries)
  then have "entry_ok w {None} v" if "v \<in> entries w path" for v using none [OF that] by (simp add: entry_ok_def)
  moreover have "Some j \<notin> entries w path" for j using none by blast
  moreover have "apply_ops ops (w_disk w) path \<noteq> Some j" if "subseq ops (w_pend w)" for ops j
    using apply_ops_cases [of ops "w_disk w" path] list_emb_set [OF that] assms(2) [of j] by (fastforce simp: reach_def)
  ultimately show ?thesis using assms(1,3-6) unfolding atomic_ok_def by blast
qed

lemma create_dir_before:
  assumes "snapshots_before w d n" and "create_dir_all d w = (Inr u, w1)"
  shows "snapshots_before w1 d n" and "d \<in> set (w_dirs w1)"
proof -
  have "(\<exists>es. w1 = w\<lparr>w_events := es\<rparr> \<and> d \<in> set (w_dirs w)) \<or> (\<exists>es. w1 = w\<lparr>w_events := es, w_dirs := d # w_dirs w\<rparr>)"
    using assms(2) pop_event_events [of w] by (auto simp: create_dir_all_def syscall_def split: if_splits)
  then have "reach w1 = reach w" "fs_ok w1 = fs_ok w" "w_next w1 = w_next w" "d \<in> set (w_dirs w1)"
    by (elim disjE exE conjE; simp add: reach_def fs_ok_def fun_eq_iff)+
  then show "snapshots_before w1 d n" "d \<in> set (w_dirs w1)"
    using assms(1) by (simp_all add: snapshots_before_def snapshot_at_def walled_def files_of_def)
qed

lemma snapshots_before_atomic:
  assumes "snapshots_before w d n"
  shows "atomic_ok w (tmp_name d n) (snapshot_path d n) {None}"
proof (rule atomic_ok_absent)
  show "fs_ok w" using assms by (simp add: snapshots_before_def walled_def)
  fix i show "\<not> reach w (snapshot_path d n) i"
  proof
    assume "reach w (snapshot_path d n) i"
    then have "snapshot_at w d (snapshot_path d n) n" by (auto simp: snapshot_at_def snapshot_path_facts)
    then show False using assms unfolding snapshots_before_def by blast
  qed
qed (simp_all add: snapshot_path_facts)

text \<open>The steps of a write that succeeded.\<close>

lemma snapshot_write_steps:
  assumes "snapshot_write X d meta table w = (Inr p, w')" and "x_ser_snap X \<lparr>sf_meta = meta, sf_data = mt_map table\<rparr> = Some bs"
  obtains w1 w2 w3 found where "create_dir_all d w = (Inr (), w1)"
    and "replace_file (tmp_name d (sm_index meta)) (snapshot_path d (sm_index meta)) bs w1 = (Inr (), w2)" and "discover d w2 = (Inr found, w3)"
    and "for_each found (\<lambda>(index, path). if index \<noteq> sm_index meta then ignoring (remove_file path) else ret ()) w3 = (Inr (), w')"
proof -
  let ?tmp = "tmp_name d (sm_index meta)" and ?final = "snapshot_path d (sm_index meta)"
  let ?clean = "\<lambda>found. for_each found (\<lambda>(index, path). if index \<noteq> sm_index meta then ignoring (remove_file path) else ret ())"
  note w = assms(1) [unfolded snapshot_write_def assms(2) option.case Let_def]
  obtain w1 where 1: "create_dir_all d w = (Inr (), w1)" and w1: "andThen (install_file ?tmp ?final bs) (\<lambda>_. andThen (sync_dir d) (\<lambda>_. andThen (discover d) (\<lambda>found.
      andThen (?clean found) (\<lambda>_. ret ?final)))) w1 = (Inr p, w')" by (rule andThen_unitE [OF w])
  obtain wi where i: "install_file ?tmp ?final bs w1 = (Inr (), wi)" and wi: "andThen (sync_dir d) (\<lambda>_. andThen (discover d) (\<lambda>found.
      andThen (?clean found) (\<lambda>_. ret ?final))) wi = (Inr p, w')" by (rule andThen_unitE [OF w1])
  obtain w2 where 2: "sync_dir d wi = (Inr (), w2)" and w2: "andThen (discover d) (\<lambda>found. andThen (?clean found) (\<lambda>_. ret ?final)) w2 = (Inr p, w')"
    by (rule andThen_unitE [OF wi])
  obtain found w3 where 3: "discover d w2 = (Inr found, w3)" and w3: "andThen (?clean found) (\<lambda>_. ret ?final) w3 = (Inr p, w')" by (rule andThen_InrE [OF w2])
  obtain w4 where 4: "?clean found w3 = (Inr (), w4)" and w4: "(ret ?final :: path io) w4 = (Inr p, w')" by (rule andThen_unitE [OF w3])
  have "replace_file ?tmp ?final bs w1 = (Inr (), w2)" using i 2 by (simp add: replace_file_def andThen_Inr snapshot_path_facts)
  moreover have "w4 = w'" using w4 by (simp add: ret_def)
  ultimately show ?thesis using that [OF 1 _ 3] 4 by blast
qed

lemma walled_written:
  assumes "snapshots_before w d n" and "stays_in {tmp_name d n, snapshot_path d n} w w'"
  shows "walled {tmp_name d n, snapshot_path d n} (own_inodes w' (snapshot_path d n)) w'"
proof -
  let ?S = "{tmp_name d n, snapshot_path d n}"
  have "owned w' ?S" using owned_stays_in [OF _ assms(2)] assms(1) by (simp add: snapshots_before_def)
  moreover have "own_inodes w' (snapshot_path d n) \<subseteq> files_of w' ?S" by (auto simp: own_inodes_def files_of_def reach_entries)
  ultimately show ?thesis by (auto simp: walled_def)
qed

lemma snapshot_written:
  assumes "snapshot_write X d meta table w = (Inr p, w')" and "x_ser_snap X \<lparr>sf_meta = meta, sf_data = mt_map table\<rparr> = Some bs"
    and "snapshots_before w d (sm_index meta)"
  defines "tmp \<equiv> tmp_name d (sm_index meta)" and "final \<equiv> snapshot_path d (sm_index meta)"
  shows "atomic_ok w' tmp final {Some bs}" and "d \<in> set (w_dirs w')" and "snapshot_at w' d q m \<Longrightarrow> q = final \<or> m < sm_index meta"
proof -
  let ?S = "{tmp, final}" and ?n = "sm_index meta"
  obtain w1 w2 w3 found where
    1: "create_dir_all d w = (Inr (), w1)" and 2: "replace_file tmp final bs w1 = (Inr (), w2)" and 3: "discover d w2 = (Inr found, w3)"
    and 4: "for_each found (\<lambda>(index, path). if index \<noteq> ?n then ignoring (remove_file path) else ret ()) w3 = (Inr (), w')"
    by (rule snapshot_write_steps [OF assms(1,2), folded tmp_def final_def])
  note before = create_dir_before [OF assms(3) 1]
  have names: "tmp \<noteq> final" "tmp \<noteq> []" "final \<noteq> []" "butlast tmp = d" "butlast final = d" by (simp_all add: tmp_def final_def snapshot_path_facts)
  have fs: "fs_ok w1" using before(1) by (simp add: snapshots_before_def walled_def)
  have "atomic_ok w1 tmp final {None}" unfolding tmp_def final_def by (rule snapshots_before_atomic [OF before(1)])
  from wpD [OF wp_replace_file [OF this] 2] have a2: "atomic_ok w2 tmp final {Some bs}" .
  have "preserves (stays_in ?S w1) (replace_file tmp final bs) anything"
    unfolding replace_file_def by (intro preserves_andThen_anything preserves_stays) (simp_all add: names)
  from preservesD [OF this stays_in_refl [OF fs] 2] have s2: "stays_in ?S w1 w2" .
  from preservesD [OF preserves_stays_discover this 3] have s3: "stays_in ?S w1 w3" .
  have "preserves (stays_in ?S w1) (for_each found (\<lambda>(index, path). if index \<noteq> ?n then ignoring (remove_file path) else ret ())) anything"
    by (intro preserves_for_each preserves_prod preserves_if preserves_ignoring preserves_stays preserves_ret TrueI)
  from preservesD [OF this s3 4] have s4: "stays_in ?S w1 w'" .
  have "spares ?S (own_inodes w2 final) w2 w2"
    unfolding tmp_def final_def by (rule spares_refl [OF walled_written [OF before(1)]]) (use s2 in \<open>simp add: tmp_def final_def\<close>)
  from preservesD [OF preserves_discover this 3] have sp3: "spares ?S (own_inodes w2 final) w2 w3" .
  have parse: "snapshot_index (last tmp) = None" "snapshot_index (last final) = Some ?n"
    unfolding tmp_def final_def by (rule snapshot_index_tmp, rule snapshot_index_path)
  have out: "path \<notin> ?S" if "(index, path) \<in> set found" "index \<noteq> ?n" for index path
  proof -
    have "snapshot_index (last path) = Some index" using discover_paths [OF 3 that(1)] by simp
    then show ?thesis using that(2) parse by auto
  qed
  have "preserves (spares ?S (own_inodes w2 final) w2) (for_each found (\<lambda>(index, path). if index \<noteq> ?n then ignoring (remove_file path) else ret ())) anything"
    by (rule preserves_clean_up) (rule out)
  from preservesD [OF this sp3 4] have "spares ?S (own_inodes w2 final) w2 w'" .
  then show "atomic_ok w' tmp final {Some bs}" by (rule atomic_ok_spares [OF a2]) simp_all
  show "d \<in> set (w_dirs w')" using before(2) s4 by (auto simp: stays_in_def)
  show "q = final \<or> m < ?n" if at: "snapshot_at w' d q m"
  proof -
    obtain i where i: "reach w' q i" "q \<noteq> []" "butlast q = d" "snapshot_index (last q) = Some m" using at unfolding snapshot_at_def by blast
    have "reach w1 q i \<or> q \<in> ?S" using s4 i(1) unfolding stays_in_def by blast
    moreover have "q \<noteq> tmp" using i(4) parse(1) by (metis option.distinct(1))
    moreover have "m < ?n" if "reach w1 q i" using before(1) that i(2-4) unfolding snapshots_before_def snapshot_at_def by blast
    ultimately show ?thesis by blast
  qed
qed

text \<open>On a healthy disk a write succeeds.\<close>

lemma for_each_total:
  "(\<And>x s. x \<in> set xs \<Longrightarrow> P s \<Longrightarrow> \<exists>s'. f x s = (Inr (), s') \<and> P s') \<Longrightarrow> P s \<Longrightarrow> \<exists>s'. for_each xs f s = (Inr (), s') \<and> P s'"
proof (induction xs arbitrary: s)
  case (Cons x xs)
  then obtain s1 where "f x s = (Inr (), s1)" "P s1" by (meson list.set_intros(1))
  moreover then obtain s2 where "for_each xs f s1 = (Inr (), s2)" "P s2" using Cons by (meson list.set_intros(2))
  ultimately show ?case by (simp add: andThen_def)
qed (simp add: ret_def)

lemma discover_run:
  assumes "w_clean w" and "d \<in> set (w_dirs w)"
  shows "discover d w = (Inr (List.map_filter (\<lambda>name. map_option (\<lambda>index. (index, join_path d name)) (snapshot_index name))
     (map last (filter (\<lambda>p. p \<noteq> [] \<and> butlast p = d) (map fst (w_dir w))))), w\<lparr>w_events := tl (tl (w_events w))\<rparr>)"
  using assms pop_event_clean [OF assms(1)] by (auto simp: discover_def andThen_def dir_exists_def read_dir_def syscall_clean ret_def)

lemma snapshot_write_run:
  assumes "snapshots_before w d (sm_index meta)" and "w_clean w" and "x_ser_snap X \<lparr>sf_meta = meta, sf_data = mt_map table\<rparr> = Some bs"
  shows "\<exists>w'. snapshot_write X d meta table w = (Inr (snapshot_path d (sm_index meta)), w') \<and> w_clean w'"
proof -
  let ?n = "sm_index meta" and ?clean = "\<lambda>found. for_each found (\<lambda>(index, path). if index \<noteq> sm_index meta then ignoring (remove_file path) else ret ())"
  obtain w1 where 1: "create_dir_all d w = (Inr (), w1)" "w_clean w1" using assms(2) by (simp add: create_dir_all_def syscall_clean)
  note before = create_dir_before [OF assms(1) 1(1)]
  have names: "butlast (snapshot_path d ?n) = d" by (simp add: snapshot_path_facts)
  obtain w2 where 2: "replace_file (tmp_name d ?n) (snapshot_path d ?n) bs w1 = (Inr (), w2)" "w_clean w2" "w_dirs w2 = w_dirs w1"
    using replace_file_run [OF snapshots_before_atomic [OF before(1)] 1(2), of bs] before(2) names by auto
  have dir: "d \<in> set (w_dirs w2)" using before(2) 2(3) by simp
  obtain found w3 where 3: "discover d w2 = (Inr found, w3)" "w_clean w3" using discover_run [OF 2(2) dir] 2(2) by simp
  have step: "\<exists>w'. (case x of (index, path) \<Rightarrow> if index \<noteq> ?n then ignoring (remove_file path) else ret ()) v = (Inr (), w') \<and> w_clean w'" if "w_clean v" for x v
    using that by (cases x) (auto simp: ignoring_def remove_file_def syscall_clean ret_def set_entry_def split: option.splits)
  have "\<exists>w4. ?clean found w3 = (Inr (), w4) \<and> w_clean w4" by (rule for_each_total [of found w_clean]) (rule step, assumption, rule 3(2))
  then obtain w4 where 4: "?clean found w3 = (Inr (), w4)" "w_clean w4" by blast
  obtain wi where i: "install_file (tmp_name d ?n) (snapshot_path d ?n) bs w1 = (Inr (), wi)" "sync_dir d wi = (Inr (), w2)"
    by (rule andThen_unitE [OF 2(1) [unfolded replace_file_def names]])
  have "snapshot_write X d meta table w = (Inr (snapshot_path d ?n), w4)"
    unfolding snapshot_write_def assms(3) option.case Let_def using 1(1) i 3(1) 4(1) by (simp add: andThen_def ret_def)
  then show ?thesis using 4(2) by blast
qed

section \<open>Reading\<close>

lemma max_by_key_mem: "max_by_key f xs = Some y \<Longrightarrow> y \<in> set xs"
  by (induction xs arbitrary: y) (auto split: option.splits if_splits)

lemma max_by_key_unique:
  "x \<in> set xs \<Longrightarrow> (\<And>y. y \<in> set xs \<Longrightarrow> y = x \<or> f y < f x) \<Longrightarrow> max_by_key f xs = Some x"
proof (induction xs)
  case (Cons a xs)
  show ?case
  proof (cases "x \<in> set xs")
    case True
    then have "max_by_key f xs = Some x" using Cons by simp
    then show ?thesis using Cons.prems(2) [of a] by auto
  next
    case False
    then have a: "x = a" using Cons.prems(1) by simp
    show ?thesis
    proof (cases "max_by_key f xs")
      case (Some y)
      then have "y \<in> set xs" by (rule max_by_key_mem)
      then show ?thesis using Some Cons.prems(2) [of y] False a by auto
    qed (use a in simp)
  qed
qed simp

lemma load_latest_run:
  assumes "w_clean w" and "d \<in> set (w_dirs w)" and "file_content w (snapshot_path d n) = Some bs" and "x_de_snap X bs = Some f"
    and "\<And>q m. snapshot_at w d q m \<Longrightarrow> q = snapshot_path d n \<or> m < n"
  shows "\<exists>w'. load_latest X d w = (Inr (Some (sf_meta f, from_parts (sf_data f) (sm_index (sf_meta f)))), w')"
proof -
  define found where "found = List.map_filter (\<lambda>name. map_option (\<lambda>index. (index, join_path d name)) (snapshot_index name))
    (map last (filter (\<lambda>p. p \<noteq> [] \<and> butlast p = d) (map fst (w_dir w))))"
  obtain i where i: "w_find w (snapshot_path d n) = Some i" "i_data (w_inode w i) = bs" using assms(3) by (auto simp: file_content_def)
  have run: "discover d w = (Inr found, w\<lparr>w_events := tl (tl (w_events w))\<rparr>)" using discover_run [OF assms(1,2)] by (simp add: found_def)
  have mem: "(m, q) \<in> set found \<longleftrightarrow> q \<in> fst ` set (w_dir w) \<and> q \<noteq> [] \<and> butlast q = d \<and> snapshot_index (last q) = Some m" for m q
    unfolding found_def found_mem by simp
  have "snapshot_path d n \<in> fst ` set (w_dir w)" using map_of_SomeD [OF i(1)] by force
  then have "(n, snapshot_path d n) \<in> set found" by (simp add: mem snapshot_path_facts)
  moreover have "y = (n, snapshot_path d n) \<or> fst y < fst (n, snapshot_path d n)" if "y \<in> set found" for y
  proof -
    obtain m q where y: "y = (m, q)" by (cases y)
    then have q: "q \<in> fst ` set (w_dir w)" "q \<noteq> []" "butlast q = d" "snapshot_index (last q) = Some m" using that mem by blast+
    then have "w_find w q \<noteq> None" by (simp add: map_of_eq_None_iff)
    then obtain j where "w_find w q = Some j" by blast
    then have "snapshot_at w d q m" using q unfolding snapshot_at_def reach_def by blast
    then have "q = snapshot_path d n \<or> m < n" by (rule assms(5))
    then show ?thesis using q(4) y by auto
  qed
  ultimately have "max_by_key fst found = Some (n, snapshot_path d n)" by (rule max_by_key_unique)
  then show ?thesis
    using run i assms(1,4) by (simp add: load_latest_def andThen_def read_file_def syscall_clean ret_def)
qed

section \<open>Properties\<close>

text \<open>C13. A snapshot that \<open>write\<close> has reported as written is what \<open>load_latest\<close> finds from then on, metadata and table, even if the power fails
  right after, whether or not the older snapshots could be removed.\<close>

theorem snapshot_survives:
  assumes "codec (x_ser_snap X) (x_de_snap X) UNIV" and "snapshots_before w d (sm_index meta)" and "snapshot_write X d meta table w = (Inr p, w1)"
    and "w2 = w1 \<or> crash w1 w2" and "w_clean w2"
  shows "\<exists>w3. load_latest X d w2 = (Inr (Some (meta, from_parts (mt_map table) (sm_index meta))), w3)"
proof -
  let ?n = "sm_index meta" and ?f = "\<lparr>sf_meta = meta, sf_data = mt_map table\<rparr>"
  obtain bs where bs: "x_ser_snap X ?f = Some bs" "x_de_snap X bs = Some ?f" using assms(1) by (auto elim: codecE)
  note written = snapshot_written [OF assms(3) bs(1) assms(2)]
  have "atomic_ok w2 (tmp_name d ?n) (snapshot_path d ?n) {Some bs}" using written(1) assms(4) atomic_ok_crash by blast
  then have content: "file_content w2 (snapshot_path d ?n) = Some bs" using atomic_ok_content by blast
  have "d \<in> set (w_dirs w2)" using written(2) assms(4) by (auto simp: crash_def)
  moreover have "q = snapshot_path d ?n \<or> m < ?n" if "snapshot_at w2 d q m" for q m
  proof -
    have "snapshot_at w1 d q m" using that assms(4) crash_reach unfolding snapshot_at_def by blast
    then show ?thesis by (rule written(3))
  qed
  ultimately show ?thesis using load_latest_run [OF assms(5) _ content bs(2)] by simp
qed

theorem snapshot_survives_witness:
  "let w = empty_world [''d'', ''snapshots''] []; t = memtable_apply 1 (Put [7] [8]) memtable_new
   in \<exists>p w1 w3. snapshot_write sample_node [''d'', ''snapshots''] \<lparr>sm_index = 1, sm_term = 4\<rparr> t w = (Inr p, w1) \<and>
     load_latest sample_node [''d'', ''snapshots''] w1 = (Inr (Some (\<lparr>sm_index = 1, sm_term = 4\<rparr>, t)), w3)"
proof -
  let ?w = "empty_world [''d'', ''snapshots''] []" and ?d = "[''d'', ''snapshots'']" and ?m = "\<lparr>sm_index = 1, sm_term = 4\<rparr> :: snapshot_meta"
  let ?t = "memtable_apply 1 (Put [7] [8]) memtable_new"
  have before: "snapshots_before ?w ?d (sm_index ?m)"
    unfolding snapshots_before_def by (intro conjI ownedI) (simp_all add: snapshot_at_def)
  have "x_ser_snap sample_node \<lparr>sf_meta = ?m, sf_data = mt_map ?t\<rparr> = Some (enc_snap \<lparr>sf_meta = ?m, sf_data = mt_map ?t\<rparr>)" by (simp add: sample_node_def)
  from snapshot_write_run [OF before _ this] obtain p w1 where w1: "snapshot_write sample_node ?d ?m ?t ?w = (Inr p, w1)" "w_clean w1"
    by (auto simp: empty_world_def)
  have t: "from_parts (mt_map ?t) (sm_index ?m) = ?t" by (simp add: from_parts_def memtable_apply_def memtable_new_def Let_def)
  show ?thesis using snapshot_survives [OF sample_codecs(3) before w1(1) disjI1 [OF refl] w1(2)] w1(1) unfolding t Let_def by blast
qed

end
