(* ===== verification/Raft_Write.thy ===== *)
theory Raft_Write
  imports Raft_Apply Snapshot_Safety
begin

text \<open>
  A write from the client's call to its answer: the leader appends and syncs the command, a round of messages brings it to the
  peers, the answers of a quorum commit it, it is applied, perhaps with a snapshot and a compaction, and the client is told.
\<close>

section \<open>Answers and the commit index\<close>

text \<open>
  A leader whose last entry is of its own term, the peers \<open>acked\<close> that are known to have it, and the peers \<open>todo\<close> that have not been
  sent a message in this round.
\<close>

definition led :: "u64 set \<Rightarrow> u64 set \<Rightarrow> raft_core \<Rightarrow> bool" where
  "led todo acked c \<longleftrightarrow> c_role c = Leader \<and> log_wf c \<and> term_at c (last_log_index c) = Some (current_term c) \<and> c_cluster_size c = Suc (length (c_peers c)) \<and>
     acked \<subseteq> set (c_peers c) \<and> c_commit_index c \<le> last_log_index c \<and> (\<forall>p\<in>acked. c_match_index c p = Some (last_log_index c)) \<and>
     todo \<subseteq> set (c_peers c) \<and> (\<forall>p\<in>set (c_peers c). or_default 0 (c_match_index c p) \<le> last_log_index c) \<and>
     (\<forall>p\<in>todo. \<exists>next. c_next_index c p = Some next \<and> snap_index c < unat next \<and> unat next \<le> Suc (unat (last_log_index c)))"

definition leading :: "u64 set \<Rightarrow> u64 set \<Rightarrow> raft_core \<Rightarrow> bool" where
  "leading todo acked c \<longleftrightarrow> led todo acked c \<and> (core_quorum c \<le> Suc (card acked) \<longrightarrow> c_commit_index c = last_log_index c)"

lemma led_last: "led todo acked c \<Longrightarrow> \<forall>m\<in>set (known_matches c). m \<le> last_log_index c"
  by (auto simp: led_def known_matches_def)

lemma led_quorum:
  assumes "led todo acked c" and "core_quorum c \<le> Suc (card acked)"
  shows "on_quorum c (last_log_index c)"
proof -
  let ?full = "\<lambda>p. last_log_index c \<le> or_default 0 (c_match_index c p)"
  have "acked \<subseteq> set (filter ?full (c_peers c))" using assms(1) by (auto simp: led_def or_default_def)
  then have "card acked \<le> card (set (filter ?full (c_peers c)))" by (rule card_mono [rotated]) simp
  also have "\<dots> \<le> length (filter ?full (c_peers c))" by (rule card_length)
  finally show ?thesis using assms(2) by (simp add: on_quorum_def known_matches_def filter_map comp_def)
qed

lemma on_quorum_last: "led todo acked c \<Longrightarrow> on_quorum c N \<Longrightarrow> N \<le> last_log_index c"
proof -
  assume a: "led todo acked c" "on_quorum c N"
  have "filter (\<lambda>m. N \<le> m) (known_matches c) \<noteq> []" using a(2) by (auto simp: on_quorum_def core_quorum_def)
  then obtain m where "m \<in> set (known_matches c)" "N \<le> m" by (auto simp: filter_empty_conv)
  then show ?thesis using led_last [OF a(1)] by fastforce
qed

lemma core_view [simp]:
  "last_log_index (c\<lparr>c_commit_index := i\<rparr>) = last_log_index c" "current_term (c\<lparr>c_commit_index := i\<rparr>) = current_term c"
  "term_at (c\<lparr>c_commit_index := i\<rparr>) = term_at c" "core_quorum (c\<lparr>c_commit_index := i\<rparr>) = core_quorum c" "log_wf (c\<lparr>c_commit_index := i\<rparr>) = log_wf c"
  "last_log_index (c\<lparr>c_match_index := m\<rparr>) = last_log_index c" "current_term (c\<lparr>c_match_index := m\<rparr>) = current_term c"
  "term_at (c\<lparr>c_match_index := m\<rparr>) = term_at c" "core_quorum (c\<lparr>c_match_index := m\<rparr>) = core_quorum c" "log_wf (c\<lparr>c_match_index := m\<rparr>) = log_wf c"
  "last_log_index (c\<lparr>c_next_index := x\<rparr>) = last_log_index c" "current_term (c\<lparr>c_next_index := x\<rparr>) = current_term c"
  "term_at (c\<lparr>c_next_index := x\<rparr>) = term_at c" "core_quorum (c\<lparr>c_next_index := x\<rparr>) = core_quorum c" "log_wf (c\<lparr>c_next_index := x\<rparr>) = log_wf c"
  by (simp_all add: last_log_index_def current_term_def term_at_def base_index_def core_quorum_def log_wf_def fun_eq_iff)

lemma advance_led:
  assumes "led todo acked c"
  shows "\<exists>i. advance_commit_index (c, w) = (Inr (), c\<lparr>c_commit_index := i\<rparr>, w) \<and> leading todo acked (c\<lparr>c_commit_index := i\<rparr>)"
proof -
  have size: "c_cluster_size c = Suc (length (c_peers c))" "c_commit_index c \<le> last_log_index c" "term_at c (last_log_index c) = Some (current_term c)"
    using assms by (simp_all add: led_def)
  from advance_commit_index_run [OF size(1)] obtain N where N: "on_quorum c N" "\<forall>i. on_quorum c i \<longrightarrow> i \<le> N"
    "advance_commit_index (c, w) = (Inr (), c\<lparr>c_commit_index := if c_commit_index c < N \<and> term_at c N = Some (current_term c) then N else c_commit_index c\<rparr>, w)" by blast
  let ?i = "if c_commit_index c < N \<and> term_at c N = Some (current_term c) then N else c_commit_index c"
  have le: "N \<le> last_log_index c" by (rule on_quorum_last [OF assms N(1)])
  have "?i = last_log_index c" if "core_quorum c \<le> Suc (card acked)"
  proof -
    have "N = last_log_index c" using led_quorum [OF assms that] N(2) le by (auto intro: antisym)
    then show ?thesis using size by auto
  qed
  moreover have "led todo acked (c\<lparr>c_commit_index := ?i\<rparr>)" using assms le size(2) by (auto simp: led_def)
  ultimately have "leading todo acked (c\<lparr>c_commit_index := ?i\<rparr>)" by (simp add: leading_def)
  then show ?thesis using N(3) by blast
qed

lemma reply_led:
  assumes "leading todo acked c" and "p \<in> set (c_peers c)" and "p \<notin> todo" and "aer_success reply"
  shows "\<exists>m x i. on_append_entries_reply p (last_log_index c) reply (c, w) = (Inr (), c\<lparr>c_match_index := m, c_next_index := x, c_commit_index := i\<rparr>, w) \<and>
     leading todo (insert p acked) (c\<lparr>c_match_index := m, c_next_index := x, c_commit_index := i\<rparr>)"
proof -
  let ?m = "(c_match_index c)(p \<mapsto> last_log_index c)" and ?x = "(c_next_index c)(p \<mapsto> last_log_index c + 1)"
  let ?c = "c\<lparr>c_match_index := ?m, c_next_index := ?x\<rparr>"
  have l: "led todo acked c" using assms(1) by (simp add: leading_def)
  have "led todo (insert p acked) ?c"
    using l assms(2,3) by (auto simp: led_def or_default_def)
  from advance_led [OF this, of w] obtain i where "advance_commit_index (?c, w) = (Inr (), ?c\<lparr>c_commit_index := i\<rparr>, w)"
    "leading todo (insert p acked) (?c\<lparr>c_commit_index := i\<rparr>)" by blast
  moreover have "on_append_entries_reply p (last_log_index c) reply (c, w) = advance_commit_index (?c, w)"
    using assms(4) l by (simp add: on_append_entries_reply_def andThen_def get_st_def modify_def led_def)
  ultimately show ?thesis by (intro exI [of _ ?m] exI [of _ ?x] exI [of _ i]) simp
qed

text \<open>A rejection only changes where to go on with a peer that has had its message.\<close>

lemma reject_led:
  assumes "leading todo acked c" and "p \<notin> todo" and "\<not> aer_success reply"
  shows "\<exists>x. on_append_entries_reply p i reply (c, w) = (Inr (), c\<lparr>c_next_index := x\<rparr>, w) \<and> leading todo acked (c\<lparr>c_next_index := x\<rparr>)"
proof -
  have l: "led todo acked c" using assms(1) by (simp add: leading_def)
  have "leading todo acked (c\<lparr>c_next_index := (c_next_index c)(p \<mapsto> b)\<rparr>)" for b
    using assms(1,2) by (auto simp: leading_def led_def)
  moreover have "\<exists>b. on_append_entries_reply p i reply (c, w) = (Inr (), c\<lparr>c_next_index := (c_next_index c)(p \<mapsto> b)\<rparr>, w)"
    using assms(3) l by (auto simp: on_append_entries_reply_def andThen_def get_st_def modify_def led_def Let_def)
  ultimately show ?thesis by blast
qed

section \<open>A round of messages\<close>

lemma last_sent_build:
  assumes "led todo acked c" and "p \<in> todo"
  shows "last_sent (build_append_entries c p) = last_log_index c"
proof -
  obtain nx where nx: "c_next_index c p = Some nx" "snap_index c < unat nx" "unat nx \<le> Suc (unat (last_log_index c))" "log_wf c"
    using assms by (auto simp: led_def)
  note b = build_facts [OF nx(4,1,2,3)]
  have "unat (ae_prev_log_index (build_append_entries c p)) + length (ae_entries (build_append_entries c p)) = unat (last_log_index c)"
    using b(1,2) nx unat_last_log_index [OF nx(4)] by simp
  then have "(of_nat (unat (ae_prev_log_index (build_append_entries c p)) + length (ae_entries (build_append_entries c p))) :: u64) = last_log_index c" by simp
  then show ?thesis by (simp add: last_sent_def)
qed

text \<open>
  A round of the leader of term \<open>t\<close> in which no other task intervenes: each peer is sent at most one message, in any order; answers come
  in any order or not at all, may be errors and rejections, and are not from a later term.
\<close>

fun round_of :: "u64 \<Rightarrow> u64 set \<Rightarrow> send_event list \<Rightarrow> bool" where
  "round_of t todo [] = True"
| "round_of t todo (Built p # evs) = (p \<in> todo \<and> round_of t (todo - {p}) evs)"
| "round_of t todo (Answered p answer # evs) = ((\<forall>args r. answer args = Inr r \<longrightarrow> aer_term r \<le> t) \<and> round_of t todo evs)"
| "round_of t todo (SendOthers other # evs) = False"

text \<open>The peers that accept the message they were sent; \<open>asked\<close> are those whose answer is still to come.\<close>

fun acceptors :: "u64 set \<Rightarrow> send_event list \<Rightarrow> u64 set" where
  "acceptors asked [] = {}"
| "acceptors asked (Built p # evs) = acceptors (insert p asked) evs"
| "acceptors asked (Answered p answer # evs) =
     (if p \<in> asked \<and> (\<forall>args. \<exists>r. answer args = Inr r \<and> aer_success r) then {p} else {}) \<union> acceptors (asked - {p}) evs"
| "acceptors asked (SendOthers other # evs) = acceptors asked evs"

lemma finite_acceptors [simp]: "finite (acceptors asked evs)"
  by (induction asked evs rule: acceptors.induct) auto

text \<open>What a round leaves alone.\<close>

definition same_log :: "raft_core \<Rightarrow> raft_core \<Rightarrow> bool" where
  "same_log c c' \<longleftrightarrow> c_entries c' = c_entries c \<and> c_snapshot c' = c_snapshot c \<and> c_last_applied c' = c_last_applied c \<and> c_peers c' = c_peers c \<and>
     c_hard c' = c_hard c \<and> c_cluster_size c' = c_cluster_size c \<and> c_log c' = c_log c"

lemma same_log_trans: "same_log c c' \<Longrightarrow> same_log c' c'' \<Longrightarrow> same_log c c''"
  by (simp add: same_log_def)

lemma same_log_last: "same_log c c' \<Longrightarrow> last_log_index c' = last_log_index c"
  by (simp add: same_log_def last_log_index_def)

lemma finish_round_run:
  "\<exists>c' k. finish_round X acks (n, w) = (Inr (), n\<lparr>n_core := c'\<rparr>, w\<lparr>w_ticks := k\<rparr>) \<and> same_log (n_core n) c' \<and> c_commit_index c' = c_commit_index (n_core n)"
proof (cases "core_quorum (n_core n) \<le> acks")
  case True
  then show ?thesis
    by (auto simp: finish_round_def ask_core_def andThen_def get_st_def ret_def outside_def instant_now_def on_core_def zoom_def modify_def renew_lease_def same_log_def
        intro!: exI [of _ "renew_lease (x_clock X (w_ticks w)) (n_core n)"])
next
  case False
  then show ?thesis
    by (intro exI [of _ "n_core n"] exI [of _ "w_ticks w"]) (simp add: finish_round_def ask_core_def andThen_def get_st_def ret_def same_log_def)
qed

text \<open>One answer: the bookkeeping advances, with one more acceptor if it was a success.\<close>

lemma answer_led:
  assumes "leading todo acked (n_core n)" and "p \<in> set (c_peers (n_core n))" and "p \<notin> todo" and "aer_term reply \<le> current_term (n_core n)"
    and "sent p = Some args" and "last_sent args = last_log_index (n_core n)" and "answer args = Inr reply" and "t = current_term (n_core n)"
  obtains c' k' where "broadcast_loop X t k sent (Answered p answer # evs) (n, w) = broadcast_loop X t k' (sent(p := None)) evs (n\<lparr>n_core := c'\<rparr>, w)"
    and "same_log (n_core n) c'" and "leading todo (if aer_success reply then insert p acked else acked) c'"
proof -
  let ?c = "n_core n"
  have lead: "is_leader ?c" using assms(1) by (simp add: leading_def led_def is_leader_def)
  have "\<exists>c'. on_append_entries_reply p (last_sent args) reply (?c, w) = (Inr (), c', w) \<and> same_log ?c c' \<and>
      leading todo (if aer_success reply then insert p acked else acked) c'"
  proof (cases "aer_success reply")
    case True
    from reply_led [OF assms(1-3) True, of w] assms(6) True show ?thesis by (fastforce simp: same_log_def)
  next
    case False
    from reject_led [OF assms(1,3) False, of "last_sent args" w] False show ?thesis by (fastforce simp: same_log_def)
  qed
  then obtain c' where c': "on_append_entries_reply p (last_sent args) reply (?c, w) = (Inr (), c', w)" "same_log ?c c'"
    "leading todo (if aer_success reply then insert p acked else acked) c'" by blast
  have "broadcast_loop X t k sent (Answered p answer # evs) (n, w) =
      broadcast_loop X t (if aer_success reply then k + 1 else k) (sent(p := None)) evs (n\<lparr>n_core := c'\<rparr>, w)"
    using assms(4,5,7,8) lead c'(1) by (simp add: ask_core_def andThen_def get_st_def ret_def on_core_def zoom_def not_less [symmetric])
  then show ?thesis using that c'(2,3) by blast
qed

text \<open>The messages under way go up to the end of the log.\<close>

definition in_flight :: "u64 set \<Rightarrow> raft_core \<Rightarrow> (u64 \<Rightarrow> append_entries_args option) \<Rightarrow> bool" where
  "in_flight todo c sent \<longleftrightarrow> (\<forall>p args. sent p = Some args \<longrightarrow> p \<in> set (c_peers c) \<and> p \<notin> todo \<and> last_sent args = last_log_index c)"

lemma in_flight_answered: "in_flight todo c sent \<Longrightarrow> same_log c c' \<Longrightarrow> in_flight todo c' (sent(p := None))"
  using same_log_last [of c c'] by (auto simp: in_flight_def same_log_def)

text \<open>One event of a round keeps all this; nobody who is still to accept gets lost.\<close>

lemma round_step:
  assumes "leading todo acked (n_core n)" and "finite acked" and "round_of t todo (ev # evs)" and "in_flight todo (n_core n) sent" and "t = current_term (n_core n)"
  shows "\<exists>k' sent' c' todo' acked'. broadcast_loop X t k sent (ev # evs) (n, w) = broadcast_loop X t k' sent' evs (n\<lparr>n_core := c'\<rparr>, w) \<and> same_log (n_core n) c' \<and>
     leading todo' acked' c' \<and> finite acked' \<and> round_of t todo' evs \<and> in_flight todo' c' sent' \<and>
     acked \<union> acceptors (dom sent) (ev # evs) \<subseteq> acked' \<union> acceptors (dom sent') evs"
    (is "\<exists>k' sent' c' todo' acked'. ?step k' sent' c' todo' acked'")
proof (cases ev)
  case (Built p)
  let ?c = "n_core n" and ?sent = "sent(p \<mapsto> build_append_entries (n_core n) p)"
  have led: "led todo acked ?c" using assms(1) by (simp add: leading_def)
  have p: "p \<in> todo" "p \<in> set (c_peers ?c)" "round_of t (todo - {p}) evs" using assms(3) led Built by (auto simp: led_def)
  have "in_flight (todo - {p}) ?c ?sent" using assms(4) last_sent_build [OF led p(1)] p(2) by (auto simp: in_flight_def)
  moreover have "leading (todo - {p}) acked ?c" using assms(1) by (auto simp: leading_def led_def)
  ultimately have "?step k ?sent ?c (todo - {p}) acked"
    using assms(2) p(3) Built by (simp add: same_log_def ask_core_def andThen_def get_st_def ret_def)
  then show ?thesis by blast
next
  case (Answered p answer)
  note prems = assms [unfolded Answered]
  let ?c = "n_core n" and ?all = "\<forall>args. \<exists>r. answer args = Inr r \<and> aer_success r"
  have same: "same_log ?c ?c" by (simp add: same_log_def)
  consider "sent p = None" | args e where "sent p = Some args" "answer args = Inl e" | args reply where "sent p = Some args" "answer args = Inr reply"
    by (cases "sent p") (auto, metis sumE)
  then show ?thesis
  proof cases
    case 1
    then have "?step k sent ?c todo acked" using prems same by (auto simp: Answered domIff)
    then show ?thesis by blast
  next
    case (2 args e)
    then have "\<not> ?all" by (metis Inl_Inr_False)
    then have "?step k (sent(p := None)) ?c todo acked" using prems 2 same in_flight_answered [OF prems(4) same] by (auto simp: Answered)
    then show ?thesis by blast
  next
    case (3 args reply)
    have q: "p \<in> set (c_peers ?c)" "p \<notin> todo" "last_sent args = last_log_index ?c" "aer_term reply \<le> current_term ?c"
      using prems(3-5) 3 by (auto simp: in_flight_def)
    obtain c' k' where c': "broadcast_loop X t k sent (Answered p answer # evs) (n, w) = broadcast_loop X t k' (sent(p := None)) evs (n\<lparr>n_core := c'\<rparr>, w)"
      "same_log ?c c'" "leading todo (if aer_success reply then insert p acked else acked) c'"
      by (rule answer_led [where sent = sent and p = p and args = args and answer = answer and reply = reply, OF prems(1) q(1,2,4) 3(1) q(3) 3(2) prems(5)])
    have "aer_success reply" if ?all using that 3(2) by (metis sum.inject(2))
    then have "?step k' (sent(p := None)) c' todo (if aer_success reply then insert p acked else acked)"
      using prems c' in_flight_answered [OF prems(4) c'(2)] by (auto simp: Answered)
    then show ?thesis by blast
  qed
qed (use assms(3) in simp)

lemma round_run:
  assumes "leading todo acked (n_core n)" and "finite acked" and "round_of t todo evs" and "in_flight todo (n_core n) sent"
    and "core_quorum (n_core n) \<le> Suc (card (acked \<union> acceptors (dom sent) evs))" and "t = current_term (n_core n)"
  shows "\<exists>c' k'. broadcast_loop X t k sent evs (n, w) = (Inr (), n\<lparr>n_core := c'\<rparr>, w\<lparr>w_ticks := k'\<rparr>) \<and> same_log (n_core n) c' \<and>
     c_commit_index c' = last_log_index (n_core n)"
  using assms
proof (induction evs arbitrary: todo acked n k sent)
  case Nil
  then have "c_commit_index (n_core n) = last_log_index (n_core n)" by (simp add: leading_def)
  then show ?case using finish_round_run [of X k n w] by auto
next
  case (Cons ev evs)
  obtain k' sent' c' todo' acked' where s: "broadcast_loop X t k sent (ev # evs) (n, w) = broadcast_loop X t k' sent' evs (n\<lparr>n_core := c'\<rparr>, w)" "same_log (n_core n) c'"
    "leading todo' acked' c'" "finite acked'" "round_of t todo' evs" "in_flight todo' c' sent'" "acked \<union> acceptors (dom sent) (ev # evs) \<subseteq> acked' \<union> acceptors (dom sent') evs"
    using round_step [OF Cons.prems(1-4,6), of X k w] by blast
  have "card (acked \<union> acceptors (dom sent) (ev # evs)) \<le> card (acked' \<union> acceptors (dom sent') evs)" using s(4,7) by (intro card_mono) simp_all
  moreover have "core_quorum c' = core_quorum (n_core n)" "current_term c' = current_term (n_core n)"
    using s(2) by (simp_all add: same_log_def core_quorum_def current_term_def)
  ultimately have "\<exists>c2 k2. broadcast_loop X t k' sent' evs (n\<lparr>n_core := c'\<rparr>, w) = (Inr (), n\<lparr>n_core := c'\<rparr>\<lparr>n_core := c2\<rparr>, w\<lparr>w_ticks := k2\<rparr>) \<and>
      same_log (n_core (n\<lparr>n_core := c'\<rparr>)) c2 \<and> c_commit_index c2 = last_log_index (n_core (n\<lparr>n_core := c'\<rparr>))"
    using s(3-6) Cons.prems(5,6) by (intro Cons.IH [of todo' acked']) simp_all
  then show ?case using s(1) same_log_trans [OF s(2)] same_log_last [OF s(2)] by auto
qed

section \<open>From the call to the answer\<close>

text \<open>A leader that knows where to go on with each of its peers.\<close>

definition tracks_peers :: "raft_core \<Rightarrow> bool" where
  "tracks_peers c \<longleftrightarrow> c_role c = Leader \<and> c_cluster_size c = Suc (length (c_peers c)) \<and>
     (\<forall>p\<in>set (c_peers c). or_default 0 (c_match_index c p) \<le> last_log_index c \<and>
        (\<exists>next. c_next_index c p = Some next \<and> snap_index c < unat next \<and> unat next \<le> Suc (unat (last_log_index c))))"

lemma led_append:
  assumes "tracks_peers c" and "log_wf c" and "c_commit_index c \<le> last_log_index c" and "e = \<lparr>le_term = hs_term (c_hard c), le_index = last_log_index c + 1, le_command = cmd\<rparr>"
    and "log_wf c'" and "c' = c\<lparr>c_entries := c_entries c @ [e], c_log := l\<rparr>"
  shows "led (set (c_peers c)) {} c'" and "last_log_index c' = last_log_index c + 1"
proof -
  show last: "last_log_index c' = last_log_index c + 1" using assms(4,6) by (simp add: last_log_index_def)
  have u: "unat (last_log_index c') = Suc (unat (last_log_index c))"
    using unat_last_log_index [OF assms(2)] unat_next_index [OF assms(2)] last by simp
  then have up: "i \<le> last_log_index c'" if "i \<le> last_log_index c" for i using that by (simp add: word_le_nat_alt)
  have "term_at c' (last_log_index c') = Some (current_term c')"
    using last_log_term_at [OF assms(5)] assms(4,6) by (simp add: last_log_term_def current_term_def)
  then show "led (set (c_peers c)) {} c'"
    using assms(1,3,5) up u by (auto simp: led_def tracks_peers_def assms(6))
qed

lemma serves_grow:
  assumes "serves hist n" and "unat (le_index e) = Suc (length hist)" and "length hist + 2 < u64_bound" and "c_entries c' = c_entries (n_core n) @ [e]"
    and "c_snapshot c' = c_snapshot (n_core n)" and "c_last_applied c' = c_last_applied (n_core n)" and "c_commit_index c' = le_index e"
  shows "serves (hist @ [e]) (n\<lparr>n_core := c'\<rparr>)"
  using assms by (simp add: serves_def applied_def committed_def)

lemma serves_last: "serves hist n \<Longrightarrow> unat (last_log_index (n_core n)) = length hist"
  using unat_last_log_index [OF serves_wf] by (auto simp: serves_def)

subsection \<open>Snapshots beside the log\<close>

abbreviation files_in :: "path \<Rightarrow> path set" where
  "files_in d \<equiv> {p. p \<noteq> [] \<and> butlast p = d}"

abbreviation new_files :: "world \<Rightarrow> path \<Rightarrow> u64 \<Rightarrow> nat set" where
  "new_files w d n \<equiv> files_of w {tmp_name d n, snapshot_path d n}"

lemma snapshots_before_spares:
  assumes "snapshots_before w d n" and "spares (files_in d) (new_files w d n) w w'"
  shows "snapshots_before w' d n"
proof -
  let ?S = "{tmp_name d n, snapshot_path d n}"
  have sub: "?S \<subseteq> files_in d" by (simp add: snapshot_path_facts)
  have old: "reach w p i" if "reach w' p i" "p \<in> files_in d" for p i using assms(2) that by (auto simp: spares_def reach_entries)
  have "snapshot_at w d p m" if "snapshot_at w' d p m" for p m using that old by (auto simp: snapshot_at_def)
  moreover have "owned w' ?S"
  proof (rule ownedI)
    show "fs_ok w'" using assms(2) by (simp add: spares_def walled_def)
    fix p q i assume p: "p \<in> ?S" "reach w' p i" "reach w' q i"
    have i: "i \<in> new_files w d n" using old [OF p(2)] p(1) sub by (auto simp: files_of_def)
    then have "q \<in> files_in d" using assms(2) p(3) unfolding spares_def walled_def by blast
    then have "reach w q i" using old p(3) by blast
    then show "q \<in> ?S" using assms(1) i unfolding snapshots_before_def walled_def by blast
  qed
  ultimately show ?thesis using assms(1) unfolding snapshots_before_def by blast
qed

lemma log_keeps_snapshots:
  assumes "log_holds X w l b recs" and "snapshots_before w d n" and "d \<noteq> log_dir l"
  shows "log_keeps (files_in d) (new_files w d n) w (l, w)"
proof -
  let ?S = "{tmp_name d n, snapshot_path d n}"
  have own: "owned w ?S" using assms(2) by (simp add: snapshots_before_def)
  have sub: "?S \<subseteq> files_in d" by (simp add: snapshot_path_facts)
  obtain rss where "chain X w (log_dir l) (unat (log_first_index l)) (segments l) rss" using assms(1) by (auto simp: log_holds_def log_ok_def segs_ok_def)
  note seg = chain_ino [OF this] chain_path_dir [OF this]
  have "seg_ino s \<notin> new_files w d n" if "s \<in> set (segments l)" for s
  proof
    assume "seg_ino s \<in> new_files w d n"
    moreover have "reach w (seg_path s) (seg_ino s)" using seg(1) [OF that] by (simp add: reach_def del: map_of_eq_Some_iff)
    ultimately have "seg_path s \<in> ?S" using own unfolding walled_def by blast
    then show False using seg(2) [OF that] assms(3) sub by auto
  qed
  then have "log_apart (files_in d) (new_files w d n) l" using seg(2) assms(3) by (auto simp: log_apart_def segment_apart_def)
  moreover have "walled (files_in d) (new_files w d n) w" using own sub unfolding walled_def by blast
  ultimately show ?thesis by (simp add: log_keeps_def spares_refl)
qed

text \<open>Appending and syncing leave the snapshots alone.\<close>

definition core_keeps :: "path set \<Rightarrow> nat set \<Rightarrow> world \<Rightarrow> raft_core \<times> world \<Rightarrow> bool" where
  "core_keeps S I w0 = (\<lambda>(c, w). log_keeps S I w0 (c_log c, w))"

lemma core_keeps_on_log: "preserves (log_keeps S I w0) m anything \<Longrightarrow> preserves (core_keeps S I w0) (on_log m) anything"
  by (fastforce simp: preserves_def core_keeps_def on_log_def zoom_def split: prod.splits)

lemma core_keeps_append: "preserves (core_keeps S I w0) (append_command X cmd) anything"
  unfolding append_command_def Let_def
  by (intro preserves_read preserves_prod preserves_if preserves_option preserves_throw preserves_andThen_anything core_keeps_on_log preserves_log_append
      preserves_modify preserves_ret TrueI) (auto simp: core_keeps_def)

lemma core_keeps_sync: "preserves (core_keeps S I w0) core_sync anything"
  unfolding core_sync_def by (rule core_keeps_on_log) (rule preserves_log_sync)

lemma snapshots_before_appended:
  assumes "log_holds X w (c_log c) b recs" and "snapshots_before w d n" and "d \<noteq> log_dir (c_log c)"
    and "append_command X cmd (c, w) = (r, c1, w1)" and "core_sync (c1, w1) = (r', c2, w2)"
  shows "snapshots_before w2 d n" and "d \<noteq> log_dir (c_log c2)"
proof -
  have "core_keeps (files_in d) (new_files w d n) w (c, w)" using log_keeps_snapshots [OF assms(1-3)] by (simp add: core_keeps_def)
  from preservesD [OF core_keeps_sync preservesD [OF core_keeps_append this assms(4)] assms(5)]
  have k: "spares (files_in d) (new_files w d n) w w2" "log_apart (files_in d) (new_files w d n) (c_log c2)" by (simp_all add: core_keeps_def log_keeps_def)
  show "snapshots_before w2 d n" by (rule snapshots_before_spares [OF assms(2) k(1)])
  have "\<forall>name. join_path (log_dir (c_log c2)) name \<notin> files_in d" using k(2) unfolding log_apart_def by blast
  then show "d \<noteq> log_dir (c_log c2)" by auto
qed

lemma chain_ticks [simp]: "chain X (w\<lparr>w_ticks := k\<rparr>) d b ss rss = chain X w d b ss rss"
  by (induction X w d b ss rss rule: chain.induct) (simp_all add: seg_ok_def bw_ok_def bw_content_def)

lemma script_facts [simp]:
  "log_holds X (w\<lparr>w_ticks := k\<rparr>) l b recs = log_holds X w l b recs" "snapshots_before (w\<lparr>w_ticks := k\<rparr>) d n = snapshots_before w d n"
  by (simp_all add: log_holds_def log_ok_def segs_ok_def own_files_def reach_def fs_ok_def snapshots_before_def snapshot_at_def files_of_def)

subsection \<open>Applying on a healthy disk\<close>

lemma compact_run:
  assumes "log_holds X w (c_log c) b recs" and "w_clean w"
  shows "\<exists>c' w'. compact meta (c, w) = (Inr (), c', w')"
proof (cases "sm_index meta \<le> sm_index (c_snapshot c)")
  case False
  obtain l' w' where "log_truncate_prefix (sm_index meta + 1) (c_log c, w) = (Inr (), l', w')" using wl.truncate_prefix_law [OF assms] by blast
  then show ?thesis using False by (simp add: compact_def andThen_def get_st_def modify_def on_log_def zoom_def)
qed (simp add: compact_def andThen_def get_st_def ret_def)

lemma store_snapshot_run:
  assumes "codec (x_ser_snap X) (x_de_snap X) UNIV" and "snapshots_before w (st_snapshot_dir s) (mt_last_applied (st_memtable s))" and "w_clean w"
    and "log_holds X w l b recs" and "st_snapshot_dir s \<noteq> log_dir l" and "meta = \<lparr>sm_index = mt_last_applied (st_memtable s), sm_term = t\<rparr>"
  shows "\<exists>w'. store_snapshot X t (s, w) = (Inr meta, s\<lparr>st_last_snapshot := meta\<rparr>, w') \<and> w_clean w' \<and> log_holds X w' l b recs"
proof -
  obtain bs where "x_ser_snap X \<lparr>sf_meta = meta, sf_data = mt_map (st_memtable s)\<rparr> = Some bs" using assms(1) by (auto elim: codecE)
  from snapshot_write_run [OF _ assms(3) this, of "st_snapshot_dir s"] assms(2,6) obtain p w' where
    w': "snapshot_write X (st_snapshot_dir s) meta (st_memtable s) w = (Inr p, w')" "w_clean w'" by auto
  have "preserves (spares (log_paths l) I w0) (snapshot_write X (st_snapshot_dir s) meta (st_memtable s)) anything" for I w0
    using assms(5) by (intro preserves_snapshot_write) (auto simp: log_paths_def)
  from log_holds_outside(1) [OF assms(4) this w'(1)] show ?thesis
    using w' assms(6) by (simp add: store_snapshot_def andThen_def get_st_def outside_def modify_def ret_def Let_def)
qed

lemma after_apply_run:
  assumes "serves hist n" and "log_holds X w (c_log (n_core n)) b recs" and "w_clean w" and "codec (x_ser_snap X) (x_de_snap X) UNIV"
    and "snapshots_before w (st_snapshot_dir (n_store n)) (c_last_applied (n_core n))" and "st_snapshot_dir (n_store n) \<noteq> log_dir (c_log (n_core n))"
  shows "\<exists>n' w'. after_apply X id n v (n, w) = (Inr (), n', w') \<and> n_commit n' = v \<and> serves hist n' \<and> applied n' = applied n"
proof (cases "should_snapshot (n_store n)")
  case True
  let ?t = "or_default 0 (term_at (n_core n) (store_last_applied (n_store n)))"
  let ?m = "\<lparr>sm_index = mt_last_applied (st_memtable (n_store n)), sm_term = ?t\<rparr>"
  let ?n2 = "n\<lparr>n_store := (n_store n)\<lparr>st_last_snapshot := ?m\<rparr>\<rparr>"
  have last: "mt_last_applied (st_memtable (n_store n)) = c_last_applied (n_core n)" by (rule serves_table(2) [OF assms(1)])
  obtain w1 where 1: "store_snapshot X ?t (n_store n, w) = (Inr ?m, (n_store n)\<lparr>st_last_snapshot := ?m\<rparr>, w1)" "w_clean w1" "log_holds X w1 (c_log (n_core n)) b recs"
    using store_snapshot_run [OF assms(4) _ assms(3,2,6) refl, of ?t] assms(5) last by auto
  obtain c' w2 where 2: "compact ?m (n_core n, w1) = (Inr (), c', w2)" using compact_run [OF 1(3,2)] by blast
  have "serves hist ?n2" using assms(1) by (simp add: serves_def applied_def committed_def)
  from compact_serves [OF this, of ?m w1 c' w2] have s: "serves hist (?n2\<lparr>n_core := c'\<rparr>)" "c_last_applied c' = c_last_applied (n_core n)"
    using 2 last by simp_all
  have "after_apply X id n v (n, w) = (Inr (), ?n2\<lparr>n_core := c', n_commit := v\<rparr>, w2)"
    using True 1(1) 2 by (simp add: after_apply_def andThen_def ask_core_def get_st_def ret_def on_store_def on_core_def zoom_def modify_def)
  then show ?thesis using s by (simp add: serves_def applied_def committed_def)
next
  case False
  then show ?thesis using assms(1) by (simp add: after_apply_plain serves_def applied_def committed_def)
qed

lemma apply_run:
  assumes "serves hist n" and "applied n < committed n" and "log_holds X w (c_log (n_core n)) b recs" and "w_clean w" and "codec (x_ser_snap X) (x_de_snap X) UNIV"
    and "snapshots_before w (st_snapshot_dir (n_store n)) (c_commit_index (n_core n))" and "st_snapshot_dir (n_store n) \<noteq> log_dir (c_log (n_core n))"
  shows "\<exists>n' w'. apply_committed X id id (n, w) = (Inr (), n', w') \<and> n_commit n' = c_commit_index (n_core n) \<and> serves hist n' \<and> applied n' = committed n"
proof -
  obtain n1 where n1: "apply_committed X id id (n, w) = after_apply X id n1 (c_commit_index (n_core n)) (n1, w)" "serves hist n1"
    "n_core n1 = (n_core n)\<lparr>c_last_applied := c_commit_index (n_core n)\<rparr>" "st_snapshot_dir (n_store n1) = st_snapshot_dir (n_store n)"
    by (rule apply_undisturbed [OF assms(1,2)])
  have "applied n1 = committed n" by (simp add: n1(3) applied_def committed_def)
  then show ?thesis using after_apply_run [OF n1(2) _ assms(4,5), of b recs] n1(1,3,4) assms(3,6,7) by simp
qed

subsection \<open>Proposing\<close>

lemma propose_run:
  assumes "at_rest X b recs (n_core n, w)" and "vote_inv X me {} (n_core n, w)" and "codec (x_ser_entry X) (x_de_entry X) UNIV"
    and "tracks_peers (n_core n)" and "serves hist n"
    and "round_of (current_term (n_core n)) (set (c_peers (n_core n))) evs" and "core_quorum (n_core n) \<le> Suc (card (acceptors {} evs))"
    and "e = \<lparr>le_term = current_term (n_core n), le_index = last_log_index (n_core n) + 1, le_command = cmd\<rparr>"
    and "log_fits X b (recs @ ser_entries X [e])" and "snapshots_before w d (le_index e)" and "d \<noteq> log_dir (c_log (n_core n))"
  shows "\<exists>c' w' recs'. propose X cmd evs id id (n, w) = andThen (apply_committed X id id) (\<lambda>_. ret (le_index e)) (n\<lparr>n_core := c'\<rparr>, w') \<and>
     serves (hist @ [e]) (n\<lparr>n_core := c'\<rparr>) \<and> c_commit_index c' = le_index e \<and> c_last_applied c' = c_last_applied (n_core n) \<and>
     log_holds X w' (c_log c') b recs' \<and> w_clean w' \<and> snapshots_before w' d (le_index e) \<and> d \<noteq> log_dir (c_log c')"
proof -
  let ?c = "n_core n" and ?t = "current_term (n_core n)"
  obtain p where p: "x_ser_entry X e = Some p" "x_de_entry X p = Some e" using assms(3) by (auto elim: codecE)
  have lead: "c_role ?c = Leader" using assms(4) by (simp add: tracks_peers_def)
  have e: "e = \<lparr>le_term = hs_term (c_hard ?c), le_index = last_log_index ?c + 1, le_command = cmd\<rparr>" using assms(8) by (simp add: current_term_def)
  obtain l1 w1 l2 w2 where
    1: "append_command X cmd (?c, w) = (Inr e, ?c\<lparr>c_log := l1, c_entries := c_entries ?c @ [e]\<rparr>, w1)"
      "core_sync (?c\<lparr>c_log := l1, c_entries := c_entries ?c @ [e]\<rparr>, w1) = (Inr (), ?c\<lparr>c_entries := c_entries ?c @ [e], c_log := l2\<rparr>, w2)"
      "at_rest X b (recs @ [p]) (?c\<lparr>c_entries := c_entries ?c @ [e], c_log := l2\<rparr>, w2)"
    using leader_append_run [OF assms(1,2) lead e p] assms(9) p(1) by auto
  define c2 where "c2 = ?c\<lparr>c_entries := c_entries ?c @ [e], c_log := l2\<rparr>"
  have h: "log_holds X w (c_log ?c) b recs" "log_holds X w2 (c_log c2) b (recs @ [p])" "w_clean w2"
    using assms(1) 1(3) by (auto simp: at_rest_def core_log_def c2_def)
  note snap = snapshots_before_appended [OF h(1) assms(10,11) 1(1,2), folded c2_def]
  have wf: "log_wf ?c" "log_wf c2" using serves_wf [OF assms(5)] 1(3) core_log_wf by (auto simp: at_rest_def c2_def)
  have len: "unat (last_log_index ?c) = length hist" by (rule serves_last [OF assms(5)])
  have com: "c_commit_index ?c \<le> last_log_index ?c" using assms(5) len by (simp add: serves_def committed_def word_le_nat_alt)
  note led = led_append [OF assms(4) wf(1) com e wf(2) c2_def]
  from advance_led [OF led(1), of w2] obtain i where
    2: "advance_commit_index (c2, w2) = (Inr (), c2\<lparr>c_commit_index := i\<rparr>, w2)" "leading (set (c_peers ?c)) {} (c2\<lparr>c_commit_index := i\<rparr>)" by blast
  let ?n2 = "n\<lparr>n_core := c2\<lparr>c_commit_index := i\<rparr>\<rparr>"
  have t: "?t = current_term (n_core ?n2)" by (simp add: c2_def current_term_def)
  have "core_quorum (n_core ?n2) = core_quorum ?c" by (simp add: c2_def core_quorum_def)
  then have "\<exists>c' k'. broadcast_loop X ?t 1 Map.empty evs (?n2, w2) = (Inr (), ?n2\<lparr>n_core := c'\<rparr>, w2\<lparr>w_ticks := k'\<rparr>) \<and> same_log (n_core ?n2) c' \<and>
      c_commit_index c' = last_log_index (n_core ?n2)"
    using 2(2) assms(6,7) by (intro round_run [OF _ finite.emptyI _ _ _ t]) (simp_all add: in_flight_def)
  then obtain c' k' where 3: "broadcast_loop X ?t 1 Map.empty evs (?n2, w2) = (Inr (), n\<lparr>n_core := c'\<rparr>, w2\<lparr>w_ticks := k'\<rparr>)" "same_log c2 c'"
    "c_commit_index c' = le_index e" using led(2) e by (auto simp: same_log_def)
  have i: "unat (le_index e) = Suc (length hist)" using unat_next_index [OF wf(1)] unat_last_log_index [OF wf(1)] len e by simp
  have "snap_index ?c + length (c_entries ?c) = length hist" using unat_last_log_index [OF wf(1)] len by simp
  then have "length hist + 2 < u64_bound" using wf(2) by (simp add: c2_def log_wf_def)
  then have "serves (hist @ [e]) (n\<lparr>n_core := c'\<rparr>)"
    using 3(2,3) i by (intro serves_grow [OF assms(5)]) (simp_all add: same_log_def c2_def)
  moreover have "propose X cmd evs id id (n, w) = andThen (apply_committed X id id) (\<lambda>_. ret (le_index e)) (n\<lparr>n_core := c'\<rparr>, w2\<lparr>w_ticks := k'\<rparr>)"
    using 1(1,2) [folded c2_def] 2(1) 3(1) t lead
    by (simp add: propose_def broadcast_append_entries_def ask_core_def andThen_def get_st_def ret_def on_core_def zoom_def is_leader_def c2_def [symmetric])
  moreover have "c_last_applied c' = c_last_applied ?c" "c_log c' = c_log c2" using 3(2) by (simp_all add: same_log_def c2_def)
  ultimately show ?thesis using 3(3) h(2,3) snap by (intro exI [of _ c'] exI [of _ "w2\<lparr>w_ticks := k'\<rparr>"] exI [of _ "recs @ [p]"]) simp
qed

section \<open>Properties\<close>

text \<open>C5. A write is answered and kept. Take a leader on a healthy disk, its log synced, that knows for each peer where to go on and has the entries
  it is to send. It appends the write and sends a round of messages while no other task touches the node; errors and rejections
  may be among the answers, in any order, but none is from a later term, and the peers that accept form a quorum with the leader. Then \<open>put\<close>
  answers with the index of the new entry, and from then on the store has the value; the table is the state machine's map of the whole
  history with the write at its end. This includes the case that the write is the occasion for a snapshot and for compacting
  the log; snapshots must have a directory of their own, with none that is as recent as the new one.\<close>

theorem write_acknowledged:
  assumes "at_rest X b recs (n_core n, w)" and "vote_inv X me {} (n_core n, w)" and "codec (x_ser_entry X) (x_de_entry X) UNIV"
    and "tracks_peers (n_core n)" and "serves hist n"
    and "round_of (current_term (n_core n)) (set (c_peers (n_core n))) evs" and "core_quorum (n_core n) \<le> Suc (card (acceptors {} evs))"
    and "e = \<lparr>le_term = current_term (n_core n), le_index = last_log_index (n_core n) + 1, le_command = Put key v\<rparr>"
    and "log_fits X b (recs @ ser_entries X [e])" and "snapshots_before w (st_snapshot_dir (n_store n)) (le_index e)"
    and "st_snapshot_dir (n_store n) \<noteq> log_dir (c_log (n_core n))" and "codec (x_ser_snap X) (x_de_snap X) UNIV"
  shows "\<exists>n' w'. kv_put X key v \<lparr>ws_sends = evs, ws_other1 = id, ws_other2 = id, ws_waits = waits\<rparr> (n, w) =
       (Some (Inr (last_log_index (n_core n) + 1)), n', w') \<and> serves (hist @ [e]) n' \<and> store_get (n_store n') key = Some v"
proof -
  from propose_run [OF assms(1-11)] obtain c' w1 recs' where
    1: "propose X (Put key v) evs id id (n, w) = andThen (apply_committed X id id) (\<lambda>_. ret (le_index e)) (n\<lparr>n_core := c'\<rparr>, w1)"
      "serves (hist @ [e]) (n\<lparr>n_core := c'\<rparr>)" "c_commit_index c' = le_index e" "c_last_applied c' = c_last_applied (n_core n)"
      "log_holds X w1 (c_log c') b recs'" "w_clean w1" "snapshots_before w1 (st_snapshot_dir (n_store n)) (le_index e)" "st_snapshot_dir (n_store n) \<noteq> log_dir (c_log c')" by blast
  have i: "unat (le_index e) = Suc (length hist)"
    using unat_next_index [OF serves_wf [OF assms(5)]] unat_last_log_index [OF serves_wf [OF assms(5)]] serves_last [OF assms(5)] assms(8) by simp
  have "applied (n\<lparr>n_core := c'\<rparr>) < committed (n\<lparr>n_core := c'\<rparr>)" using assms(5) i 1(3,4) by (simp add: serves_def applied_def committed_def)
  from apply_run [OF 1(2) this _ 1(6) assms(12), of b recs'] obtain n' w' where
    2: "apply_committed X id id (n\<lparr>n_core := c'\<rparr>, w1) = (Inr (), n', w')" "n_commit n' = le_index e" "serves (hist @ [e]) n'" "applied n' = Suc (length hist)"
    using 1(3,5,7,8) i by (auto simp: committed_def)
  have "kv_put X key v \<lparr>ws_sends = evs, ws_other1 = id, ws_other2 = id, ws_waits = waits\<rparr> (n, w) = (Some (Inr (le_index e)), n', w')"
    using 1(1) 2(1,2) by (simp add: kv_put_def kv_write_def andThen_def ret_def wait_for_commit.simps)
  moreover have "store_get (n_store n') key = Some v"
  proof -
    have "length (hist @ [e]) + 1 < u64_bound" using 2(3) by (simp add: serves_def)
    then show ?thesis
      using serves_table(1) [OF 2(3)] table_of_facts(2) [of "hist @ [e]"] assms(8) 2(4) by (simp add: store_get_def)
  qed
  ultimately show ?thesis using 2(3) assms(8) by auto
qed

definition sample_tracking :: raft_core where
  "sample_tracking = (sample_core Leader \<lparr>hs_term = 5, hs_voted_for = Some 1\<rparr> [])\<lparr>c_next_index := [2 \<mapsto> 1, 3 \<mapsto> 1]\<rparr>"

lemma sample_tracking_ready:
  "at_rest sample_node 1 [] (sample_tracking, sample_disk [])" "vote_inv sample_node (1, [2, 3], 3, [''d'', ''hard_state'']) {} (sample_tracking, sample_disk [])"
  "tracks_peers sample_tracking" "serves [] (sample_service sample_tracking)"
proof -
  note f = fresh_leader [of "\<lparr>hs_term = 5, hs_voted_for = Some 1\<rparr>"]
  show "at_rest sample_node 1 [] (sample_tracking, sample_disk [])"
    using f(1) by (simp add: sample_tracking_def at_rest_def core_log_def mirrors_def log_wf_def)
  show "vote_inv sample_node (1, [2, 3], 3, [''d'', ''hard_state'']) {} (sample_tracking, sample_disk [])"
    using f(2) by (auto simp: sample_tracking_def vote_inv_def keeps_promises_def core_disk_def identity_def)
qed (simp_all add: tracks_peers_def serves_def applied_def committed_def sample_service_def sample_tracking_def sample_core_def default_meta_def or_default_def
    last_log_index_def table_of_def)

text \<open>A node that takes a snapshot after every entry. Both peers are asked; node 3 accepts, node 2 cannot be reached.\<close>

definition eager_node :: node where
  "eager_node = (sample_service sample_tracking)\<lparr>n_store := (n_store (sample_service sample_tracking))\<lparr>st_snapshot_threshold := 1\<rparr>\<rparr>"

definition sample_round :: "send_event list" where
  "sample_round = [Built 2, Built 3, Answered 3 (\<lambda>_. Inr \<lparr>aer_term = 5, aer_success = True, aer_conflict_index = 0\<rparr>), Answered 2 (\<lambda>_. Inl (Transport ''refused''))]"

theorem write_acknowledged_witness:
  "\<exists>n' w'. kv_put sample_node [7] [8] \<lparr>ws_sends = sample_round, ws_other1 = id, ws_other2 = id, ws_waits = []\<rparr> (eager_node, sample_disk []) =
     (Some (Inr 1), n', w') \<and> store_get (n_store n') [7] = Some [8]"
proof -
  let ?n = eager_node and ?d = "[''d'', ''snapshots'']"
  have n: "n_core ?n = sample_tracking" "current_term sample_tracking = 5" "last_log_index sample_tracking = 0" "core_quorum sample_tracking = 2" "c_peers sample_tracking = [2, 3]"
    "st_snapshot_dir (n_store ?n) = ?d" "log_dir (c_log sample_tracking) = [''d'', ''wal'']"
    by (simp_all add: eager_node_def sample_service_def sample_tracking_def sample_core_def current_term_def last_log_index_def core_quorum_def default_meta_def sample_log_def)
  have fits: "log_fits sample_node 1 ([] @ ser_entries sample_node [\<lparr>le_term = 5, le_index = 1, le_command = Put [7] [8]\<rparr>])"
    using first_proposal_fits(1) by (simp add: ser_entries_def sample_node_def first_proposal_def)
  have "\<not> reach (sample_disk []) p i" if "butlast p = ?d" for p i
    using that by (auto simp: reach_def sample_disk_def sample_world_def file_world_def segment_path_def split: if_splits)
  then have "snapshots_before (sample_disk []) ?d 1"
    unfolding snapshots_before_def by (intro conjI ownedI) (auto simp: snapshot_at_def snapshot_path_facts, auto simp: sample_disk_def sample_world_def)
  moreover have "serves [] ?n" using sample_tracking_ready(4) by (simp add: eager_node_def serves_def applied_def committed_def)
  moreover have "round_of 5 {2, 3} sample_round" "acceptors {} sample_round = {3}" by (auto simp: sample_round_def)
  ultimately show ?thesis
    using write_acknowledged [where X = sample_node and b = 1 and recs = "[]" and n = ?n and w = "sample_disk []" and me = "(1, [2, 3], 3, [''d'', ''hard_state''])" and hist = "[]"
        and evs = sample_round and key = "[7]" and v = "[8]" and waits = "[]", OF _ _ sample_codecs(2) _ _ _ _ refl _ _ _ sample_codecs(3)]
      sample_tracking_ready(1-3) fits
    by (auto simp: n)
qed

end
