(* ===== verification/Spec2Isabelle.thy ===== *)
theory Spec2Isabelle
  imports Raft_Safety Raft_Write Snapshot_Safety
begin

text \<open>
  A verification of wal-kv, a replicated key/value store: a write-ahead log, an in-memory table with snapshots, Raft
  consensus, and gRPC services. Paths are relative to \<^verbatim>\<open>src/src/\<close>; definitions keep the names of the code, with the
  name of the type in front where two types share a method name.

  \<^bold>\<open>The program.\<close> A node keeps three things on disk: a directory of log segments, a directory of snapshots and a file with
  its term and vote. \<^verbatim>\<open>Raft::bootstrap\<close> reads them back. Then three kinds of tasks run on the shared core and store, each
  behind a lock: the driver's ticks (elections, heartbeats, applying), the consensus service (votes and \<open>AppendEntries\<close> from
  peers), and the client service (\<open>get\<close>, \<open>put\<close>, \<open>delete\<close>).

  \<^bold>\<open>Foundations.\<close> The model is of a release build: arithmetic wraps and \<open>debug_assert\<close> does nothing. Instants and durations are
  natural numbers of nanoseconds, without the overflow the standard library would panic on.
  \<^item> \<open>Prelude\<close>: 64-bit words that wrap, and a state monad in which an error keeps the state reached so
    far, as the question-mark operator does. \<open>Program_Invariants\<close>: rules for invariants that hold on success and on failure.
  \<^item> \<open>Platform\<close>: the errors of \<^verbatim>\<open>lib.rs\<close>, and what the code uses of the standard library. A file system has live contents and
    a durable part; \<open>crash\<close> relates a world to what a power failure may leave: unsynced bytes and directory changes may be
    lost, in part or altogether. A script of events decides which calls fail, are cut short or interrupted.
  \<^item> \<open>Atomic_File\<close>, \<open>World_Frame\<close>: replacing a file by renaming, and which paths and files an operation leaves alone.

  \<^bold>\<open>Write-ahead log\<close> (\<^verbatim>\<open>wal/\<close>). \<open>Wal_Record\<close> models the framing of records: round trip, torn and damaged records,
  and the locale \<open>record_format\<close>. \<open>Wal_Segment\<close> models one file and its buffered writer: recovery keeps what was
  acknowledged or refuses the file. \<open>Wal_Log\<close> models the segmented log, \<open>Wal_Recovery\<close> opening it, and \<open>Wal_Frame\<close> shows that it
  stays in its directory. \<open>Durable_Log\<close> states the contract as the locale \<open>durable_log\<close> and interprets it on the code:
  append, sync, truncation, reopening after a crash if the directory is durable, and two ways in which records are lost because it
  is never synced.

  \<^bold>\<open>Store\<close> (\<^verbatim>\<open>store/\<close>). \<open>Memtable\<close> models the state machine over the locale \<open>ordered_map\<close>: it refines a
  map, and replay is idempotent. \<open>Snapshot_Store\<close> models snapshots and the store; \<open>Snapshot_Safety\<close> shows that a written snapshot is found again
  after a power failure.

  \<^bold>\<open>Configuration\<close> (\<^verbatim>\<open>config.rs\<close>, \<^verbatim>\<open>main.rs\<close>). \<open>Node_Config\<close> models defaults, files, flags and validation, with majorities as
  the locale \<open>quorum_system\<close>. This theory shows what a validated configuration guarantees.

  \<^bold>\<open>Consensus\<close> (\<^verbatim>\<open>raft/\<close>).
  \<^item> Models: \<open>Raft_State\<close> (\<^verbatim>\<open>state.rs\<close>, with the atomicity of persisting term and vote), \<open>Raft_Core\<close> (\<open>RaftCore\<close> of \<^verbatim>\<open>mod.rs\<close>,
    and \<^verbatim>\<open>lease.rs\<close>), \<open>Raft_Election\<close> (\<^verbatim>\<open>election.rs\<close>), \<open>Raft_Replication\<close> (\<^verbatim>\<open>replication.rs\<close>), \<open>Raft_Driver\<close> (\<open>Raft\<close> of \<^verbatim>\<open>mod.rs\<close>).
    Code under one lock is one atomic step. Where the driver waits, a schedule gives the answers that arrive and what
    other tasks do meanwhile; a theorem that does not restrict its schedule holds for all of them.
  \<^item> Elections: \<open>Raft_Votes\<close> shows that a node keeps its vote through failures and crashes. \<open>Raft_Cluster\<close> is a transition
    system of nodes, messages that may be lost, delayed or repeated, and crashes. \<open>Raft_Safety\<close> shows one winner per term, the
    outcome of an election, and two faults.
  \<^item> The log: \<open>Raft_Log\<close> and \<open>Raft_Append\<close> compare the loop of \<open>AppendEntries\<close> with a merge of lists, and show agreement with
    the leader, the commit rule, restart and back-off. \<open>Raft_Invariants\<close> shows that entries stay consecutively numbered
    when appending and merging fail anywhere, and the two situations in which they do not: a failed compaction, and a message
    of a leader that has compacted past the follower's end.
  \<^item> The table: \<open>Raft_Apply\<close> shows that applying refines the state machine on the committed prefix when other tasks meanwhile
    leave the store and the applied entries alone (\<open>calm\<close>), and what goes wrong when one of them applies too. \<open>Raft_Write\<close> follows
    a \<open>put\<close> from the call to its answer, through rounds with errors and rejections and through snapshots.

  \<^bold>\<open>Services\<close> (\<^verbatim>\<open>rpc/service.rs\<close>). \<open>Rpc_Service\<close> models both services, the transport with its cache of connections, and the
  conversions; messages arrive as they were sent.

  \<^bold>\<open>Parameters.\<close> Code outside the repository is a record argument \<open>X\<close>: the checksum, bincode, TOML and address parsing, the clock,
  the random generator, the capacity of the write buffer. Theorems name what they need of it, mostly that decoding
  undoes encoding (\<open>codec\<close>). Connecting and calling in gRPC are function arguments. Witnesses use concrete instances.

  \<^bold>\<open>Termination and bounds.\<close> No definition takes fuel. Loops over files and lists are total functions; the loop of \<open>take_committed\<close>
  has a measure. The endless loop of \<open>run\<close> and the waiting loops are functions of a finite list of events, one for each time
  the code is resumed; \<open>kv_put\<close> yields \<open>None\<close> if the list ends while it still waits. Theorems about growing logs assume that
  sizes and indices fit (\<open>log_fits\<close>, \<open>log_wf\<close>), since words wrap.

  \<^bold>\<open>What is not shown.\<close> Election safety covers crashes and all interleavings of the steps, as long as no node stands for
  election in the last term a \<open>u64\<close> can count. Log agreement and the acknowledged write are
  shown for single exchanges and rounds; leader completeness across terms is not claimed, and the lost acknowledged write, the
  racing applications and the gap behind a snapshot show that end-to-end guarantees fail for this code as it stands.

  \<^bold>\<open>Not modelled.\<close> Start-up in \<open>main\<close> after the configuration is chosen, argument parsing and logging (calls of outside
  libraries); the wrapper of tokio's \<open>JoinSet\<close> in \<^verbatim>\<open>raft/mod.rs\<close>, whose effect the schedules express; code generated from
  \<^verbatim>\<open>rpc/proto/kv.proto\<close>, whose messages appear as records; helpers of the unit tests. Methods that only return a field are
  the field selectors of the records.
\<close>

section \<open>A configuration the program starts with\<close>

lemma from_millis_less: "from_millis a < from_millis b \<longleftrightarrow> a < b"
  by (simp add: from_millis_def word_less_nat_alt)

lemma main_config_millis:
  assumes "main_config X cli w = (Inr cfg, w')"
  obtains lo hi where "cfg_election_start cfg = from_millis lo" and "cfg_election_end cfg = from_millis hi" and "validate cfg = Inr ()"
proof (cases "cli_config cli")
  case None
  then have "cfg_election_start cfg = from_millis 150 \<and> cfg_election_end cfg = from_millis 300 \<and> validate cfg = Inr ()"
    using assms by (auto simp: main_config_def andThen_def ret_def with_peers_def config_new_def split: sum.splits)
  then show ?thesis using that by blast
next
  case (Some path)
  then have "\<exists>f. into_config X f = Inr cfg"
    using assms by (auto simp: main_config_def from_file_def andThen_def split: prod.splits sum.splits if_splits)
  then show ?thesis using into_config_Inr that by metis
qed

definition sample_cli :: cli where
  "sample_cli = \<lparr>cli_id = 1, cli_listen = ''127.0.0.1:7001'', cli_data_dir = [''d''], cli_peers = [\<lparr>peer_id = 2, peer_addr = ''b:1''\<rparr>, \<lparr>peer_id = 3, peer_addr = ''c:1''\<rparr>],
     cli_config = None\<rparr>"

section \<open>Properties\<close>

text \<open>C35. Whatever configuration \<open>main\<close> goes on with, from a file or from flags, is one the rest of the program can rely on: the node's id is not
  zero and no id occurs twice, an election timeout is longer than a heartbeat, arming the election timer never panics, and any
  two sets of nodes that reach the quorum have a node in common.\<close>

theorem main_config_sound:
  assumes "main_config X cli w = (Inr cfg, w')"
  shows "cfg_id cfg \<noteq> 0 \<and> distinct (cfg_id cfg # map peer_id (cfg_peers cfg)) \<and> cfg_heartbeat_interval cfg < cfg_election_start cfg \<and>
     (\<forall>c v. c_election_start c = cfg_election_start cfg \<and> c_election_end c = cfg_election_end cfg \<longrightarrow> fst (reset_election_timer X (c, v)) = Inr ()) \<and>
     (\<forall>Q R. Q \<subseteq> cluster cfg \<and> R \<subseteq> cluster cfg \<and> config_quorum cfg \<le> card Q \<and> config_quorum cfg \<le> card R \<longrightarrow> Q \<inter> R \<noteq> {})"
proof -
  obtain lo hi where m: "cfg_election_start cfg = from_millis lo" "cfg_election_end cfg = from_millis hi" "validate cfg = Inr ()"
    by (rule main_config_millis [OF assms])
  note v = m(3) [unfolded validate_iff]
  have "lo < hi" using v m by (simp add: from_millis_less)
  then have "fst (reset_election_timer X (c, u)) = Inr ()" if "c_election_start c = cfg_election_start cfg" "c_election_end c = cfg_election_end cfg" for c u
    using that m by (simp add: reset_election_timer_def andThen_def get_st_def outside_def gen_range_def instant_now_def modify_def)
  moreover have "Q \<inter> R \<noteq> {}" if "Q \<subseteq> cluster cfg" "R \<subseteq> cluster cfg" "config_quorum cfg \<le> card Q" "config_quorum cfg \<le> card R" for Q R
    using cq.intersect [of cfg Q R] that by (simp add: majority_def config_quorum_def)
  ultimately show ?thesis using v by blast
qed

theorem main_config_sound_witness:
  "\<exists>cfg. main_config sample_node sample_cli (empty_world [''d''] []) = (Inr cfg, empty_world [''d''] []) \<and> cluster cfg = {1, 2, 3} \<and>
     fst (reset_election_timer sample_node ((sample_core Follower default_hard_state []), empty_world [''d''] [])) = Inr () \<and> {1, 2} \<inter> {2, 3} \<noteq> ({} :: u64 set)"
proof -
  let ?w = "empty_world [''d''] []" and ?cfg = "with_peers (cli_peers sample_cli) (config_new 1 ''127.0.0.1:7001'' [''d''])"
  have "validate ?cfg = Inr ()" by (simp add: validate_iff with_peers_def config_new_def sample_cli_def from_millis_def)
  then have r: "main_config sample_node sample_cli ?w = (Inr ?cfg, ?w)" by (simp add: main_config_def andThen_def ret_def sample_cli_def)
  have c: "cluster ?cfg = {1, 2, 3}" "config_quorum ?cfg = 2" "cfg_election_start ?cfg = from_millis 150" "cfg_election_end ?cfg = from_millis 300"
    by (auto simp: cluster_def with_peers_def config_new_def sample_cli_def config_quorum_def cluster_size_def)
  note s = main_config_sound [OF r]
  have "fst (reset_election_timer sample_node (sample_core Follower default_hard_state [], ?w)) = Inr ()" using s c by (auto simp: sample_core_def)
  moreover have "{1, 2} \<inter> {2, 3} \<noteq> ({} :: u64 set)" using s c by auto
  ultimately show ?thesis using r c(1) by blast
qed

end
